(* ===== verification/Prelude.thy ===== *)
theory Prelude
  imports Main "HOL-Library.Word" "HOL-Library.Sublist"
begin

text \<open>
  What the components share: bytes and characters, the narrowing and wrap-around of the machine
  integers, and the outcomes of a call (a value, a thrown exception, undefined behaviour, a loop
  that ran out of fuel), with the lemmas that let the proofs of the components compute with them.
\<close>

unbundle bit_operations_syntax

named_theorems sv_simps \<open>evaluation and characterisation of the string_view operations\<close>
named_theorems result_simps \<open>evaluation of results\<close>

section \<open>Bytes, characters, machine integers\<close>

type_synonym byte = "8 word"
type_synonym bytes = "8 word list"
type_synonym i32 = "32 word"
type_synonym u64 = "64 word"

text \<open>\<^verbatim>\<open>std::byte(c)\<close> of a char, and the \<^verbatim>\<open>reinterpret_cast\<close> back.\<close>

definition byte_of_char :: "char \<Rightarrow> byte" where
  "byte_of_char c = word_of_nat (of_char c)"

definition char_of_byte :: "byte \<Rightarrow> char" where
  "char_of_byte b = char_of (unat b)"

abbreviation bytes_of_string :: "string \<Rightarrow> bytes" where
  "bytes_of_string s \<equiv> map byte_of_char s"

abbreviation string_of_bytes :: "bytes \<Rightarrow> string" where
  "string_of_bytes b \<equiv> map char_of_byte b"

lemma char_of_byte_of_char [simp]: "char_of_byte (byte_of_char c) = c"
proof -
  have "(of_char c :: nat) < 256"
    by simp
  then have "unat (byte_of_char c) = of_char c"
    by (simp add: byte_of_char_def unat_word_ariths unsigned_of_nat take_bit_eq_mod)
  then show ?thesis
    by (simp add: char_of_byte_def)
qed

lemma byte_of_char_of_byte [simp]: "byte_of_char (char_of_byte b) = b"
proof -
  have "unat b < 256"
    using unsigned_less [of b] by simp
  then show ?thesis
    by (simp add: byte_of_char_def char_of_byte_def)
qed

lemma string_of_bytes_of_string [simp]: "string_of_bytes (bytes_of_string s) = s"
  by (simp add: comp_def)

lemma bytes_of_string_of_bytes [simp]: "bytes_of_string (string_of_bytes b) = b"
  by (simp add: comp_def)

text \<open>The narrowing conversion to a 32-bit \<^verbatim>\<open>int\<close> (modular since C++20), and the
  wrap-around of unsigned 32-bit and 64-bit variables.\<close>

definition to_int32 :: "int \<Rightarrow> int" where
  "to_int32 n = (n + 2 ^ 31) mod 2 ^ 32 - 2 ^ 31"

definition to_uint32 :: "nat \<Rightarrow> nat" where
  "to_uint32 n = n mod 2 ^ 32"

definition size_sub :: "nat \<Rightarrow> nat \<Rightarrow> nat" where
  "size_sub a b = (if b \<le> a then a - b else 2 ^ 64 + a - b)"

lemma to_int32_id [simp]: "- (2 ^ 31) \<le> n \<Longrightarrow> n < 2 ^ 31 \<Longrightarrow> to_int32 n = n"
  by (simp add: to_int32_def)

lemma to_uint32_id [simp]: "n < 2 ^ 32 \<Longrightarrow> to_uint32 n = n"
  by (simp add: to_uint32_def)

lemma size_sub_le [simp]: "b \<le> a \<Longrightarrow> size_sub a b = a - b"
  by (simp add: size_sub_def)

section \<open>Outcomes of a call\<close>

text \<open>
  Everything a call can do besides returning a value. \<open>Http_error\<close> is \<^verbatim>\<open>cndl::Error\<close>
  (Error.h: a \<^verbatim>\<open>std::runtime_error\<close> with a status code), \<open>Runtime_error\<close> any other
  \<^verbatim>\<open>std::runtime_error\<close>, \<open>Logic_error\<close> a \<^verbatim>\<open>std::exception\<close> that is not a runtime error
  (\<^verbatim>\<open>std::out_of_range\<close>, \<^verbatim>\<open>std::invalid_argument\<close>), \<open>Other_throw\<close> a thrown value that
  is no \<^verbatim>\<open>std::exception\<close>. \<open>Undefined\<close> stands for undefined behaviour (a read outside a
  buffer, a null dereference): no handler catches it. \<open>Out_of_fuel\<close> is the value of a loop
  whose fuel was used up.
\<close>

datatype fault =
    Http_error int string
  | Runtime_error string
  | Logic_error string
  | Other_throw
  | Undefined string
  | Out_of_fuel

type_synonym 'a result = "fault + 'a"

definition rbind :: "'a result \<Rightarrow> ('a \<Rightarrow> 'b result) \<Rightarrow> 'b result" where
  "rbind m f = (case m of Inl e \<Rightarrow> Inl e | Inr x \<Rightarrow> f x)"

lemma rbind_Inl [simp, result_simps]: "rbind (Inl e) f = Inl e"
  by (simp add: rbind_def)

lemma rbind_Inr [simp, result_simps]: "rbind (Inr x) f = f x"
  by (simp add: rbind_def)

lemma rbind_eq_Inr_iff [result_simps]:
  "rbind m f = Inr y \<longleftrightarrow> (\<exists>x. m = Inr x \<and> f x = Inr y)"
  by (cases m) auto

lemma rbind_eq_Inl_iff:
  "rbind m f = Inl e \<longleftrightarrow> m = Inl e \<or> (\<exists>x. m = Inr x \<and> f x = Inl e)"
  by (cases m) auto

lemma rbind_assoc: "rbind (rbind m f) g = rbind m (\<lambda>x. rbind (f x) g)"
  by (cases m) auto

lemma rbind_cong [fundef_cong]:
  "m = m' \<Longrightarrow> (\<And>x. m' = Inr x \<Longrightarrow> f x = f' x) \<Longrightarrow> rbind m f = rbind m' f'"
  by (cases m') auto

end
