(* ===== verification/String_View.thy ===== *)
theory String_View
  imports Prelude
begin

text \<open>
  The operations of \<^verbatim>\<open>std::string\<close>, \<^verbatim>\<open>std::string_view\<close> and \<^verbatim>\<open>std::basic_string_view<std::byte>\<close>
  that the repository uses, on lists of characters or bytes. A search returns \<^term>\<open>None\<close> for
  \<^verbatim>\<open>npos\<close>; \<open>substr\<close> throws \<^verbatim>\<open>std::out_of_range\<close> when its start is behind the end. The
  components that do arithmetic on \<^verbatim>\<open>npos\<close> write it out (\<open>npos32\<close>, \<open>size_sub\<close>).
\<close>

section \<open>Searching\<close>

fun index_of :: "('a \<Rightarrow> bool) \<Rightarrow> 'a list \<Rightarrow> nat option" where
  "index_of P [] = None"
| "index_of P (x # xs) = (if P x then Some 0 else map_option Suc (index_of P xs))"

fun index_sub :: "'a list \<Rightarrow> 'a list \<Rightarrow> nat option" where
  "index_sub pat [] = (if pat = [] then Some 0 else None)"
| "index_sub pat (x # xs) =
     (if take (length pat) (x # xs) = pat then Some 0 else map_option Suc (index_sub pat xs))"

definition find_if_from :: "('a \<Rightarrow> bool) \<Rightarrow> 'a list \<Rightarrow> nat \<Rightarrow> nat option" where
  "find_if_from P s start = map_option (\<lambda>i. start + i) (index_of P (drop start s))"

definition find_char :: "char \<Rightarrow> string \<Rightarrow> nat \<Rightarrow> nat option" where
  "find_char c s start = find_if_from (\<lambda>x. x = c) s start"

definition find_first_of :: "string \<Rightarrow> string \<Rightarrow> nat \<Rightarrow> nat option" where
  "find_first_of cs s start = find_if_from (\<lambda>x. x \<in> set cs) s start"

definition find_first_not_of :: "string \<Rightarrow> string \<Rightarrow> nat \<Rightarrow> nat option" where
  "find_first_not_of cs s start = find_if_from (\<lambda>x. x \<notin> set cs) s start"

definition find_last_not_of :: "string \<Rightarrow> string \<Rightarrow> nat option" where
  "find_last_not_of cs s =
     map_option (\<lambda>i. length s - 1 - i) (index_of (\<lambda>x. x \<notin> set cs) (rev s))"

definition find_sub :: "'a list \<Rightarrow> 'a list \<Rightarrow> nat \<Rightarrow> nat option" where
  "find_sub pat s start =
     (if length s < start then None
      else map_option (\<lambda>i. start + i) (index_sub pat (drop start s)))"

lemma index_of_None [sv_simps]: "index_of P xs = None \<longleftrightarrow> (\<forall>x \<in> set xs. \<not> P x)"
  by (induction xs) auto

lemma index_of_Some:
  "index_of P xs = Some i \<longleftrightarrow> i < length xs \<and> P (xs ! i) \<and> (\<forall>j < i. \<not> P (xs ! j))"
proof (induction xs arbitrary: i)
  case Nil
  then show ?case by simp
next
  case (Cons x xs)
  then show ?case
    by (cases i) (auto simp: All_less_Suc2)
qed

lemma index_of_Some_D:
  assumes "index_of P xs = Some i"
  shows "i < length xs" and "P (xs ! i)" and "\<And>x. x \<in> set (take i xs) \<Longrightarrow> \<not> P x"
  using assms by (auto simp: index_of_Some in_set_conv_nth)

lemma index_of_append [sv_simps]:
  "(\<forall>x \<in> set xs. \<not> P x) \<Longrightarrow> index_of P (xs @ ys) = map_option (\<lambda>i. length xs + i) (index_of P ys)"
  by (induction xs; cases "index_of P ys") auto

lemma index_of_first [sv_simps]:
  "(\<forall>x \<in> set xs. \<not> P x) \<Longrightarrow> P y \<Longrightarrow> index_of P (xs @ y # ys) = Some (length xs)"
  by (simp add: index_of_append)

lemma find_if_from_None:
  "find_if_from P s start = None \<longleftrightarrow> (\<forall>x \<in> set (drop start s). \<not> P x)"
  by (simp add: find_if_from_def index_of_None)

lemma find_if_from_Some_D:
  assumes "find_if_from P s start = Some i"
  shows "start \<le> i" and "i < length s" and "P (s ! i)"
proof -
  from assms obtain k where k: "index_of P (drop start s) = Some k" and i: "i = start + k"
    by (auto simp: find_if_from_def)
  from index_of_Some_D [OF k] i show "start \<le> i" and "i < length s" and "P (s ! i)"
    by (auto simp: less_diff_conv add.commute)
qed

lemma find_char_bounds:
  "find_char c s start = Some i \<Longrightarrow> start \<le> i \<and> i < length s \<and> s ! i = c"
  unfolding find_char_def using find_if_from_Some_D by fastforce

lemma find_first_of_bounds:
  "find_first_of cs s start = Some i \<Longrightarrow> start \<le> i \<and> i < length s"
  unfolding find_first_of_def using find_if_from_Some_D by blast

lemma find_first_not_of_bounds:
  "find_first_not_of cs s start = Some i \<Longrightarrow> start \<le> i \<and> i < length s"
  unfolding find_first_not_of_def using find_if_from_Some_D by blast

lemma find_char_none [sv_simps]: "c \<notin> set s \<Longrightarrow> find_char c s start = None"
  by (auto simp: find_char_def find_if_from_None dest: in_set_dropD)

lemma find_char_at [sv_simps]:
  "c \<notin> set xs \<Longrightarrow> find_char c (xs @ c # ys) 0 = Some (length xs)"
  by (auto simp: find_char_def find_if_from_def intro!: index_of_first)

lemma find_char_skip [sv_simps]:
  "length xs = n \<Longrightarrow> find_char c (xs @ ys) n = map_option (\<lambda>i. n + i) (find_char c ys 0)"
  by (auto simp: find_char_def find_if_from_def option.map_comp comp_def option.map_ident)

subsection \<open>Searching a substring\<close>

lemma index_sub_bound: "index_sub pat xs = Some i \<Longrightarrow> i + length pat \<le> length xs"
proof (induction xs arbitrary: i)
  case Nil
  then show ?case by (auto split: if_splits)
next
  case (Cons x xs)
  show ?case
  proof (cases "take (length pat) (x # xs) = pat")
    case True
    then have "length pat \<le> length (x # xs)"
      by (metis length_take min.cobounded1)
    with True Cons.prems show ?thesis by simp
  next
    case False
    with Cons.prems obtain k where "index_sub pat xs = Some k" and "i = Suc k"
      by auto
    with Cons.IH show ?thesis by simp
  qed
qed

lemma index_sub_match: "index_sub pat xs = Some i \<Longrightarrow> take (length pat) (drop i xs) = pat"
  by (induction xs arbitrary: i) (auto split: if_splits)

lemma index_sub_least: "index_sub pat xs = Some i \<Longrightarrow> j < i \<Longrightarrow> take (length pat) (drop j xs) \<noteq> pat"
proof (induction xs arbitrary: i j)
  case Nil
  then show ?case by (auto split: if_splits)
next
  case (Cons x xs)
  then show ?case by (cases j) (auto split: if_splits)
qed

lemma find_sub_bounds:
  "find_sub pat s start = Some i \<Longrightarrow> start \<le> i \<and> i + length pat \<le> length s"
  by (auto simp: find_sub_def split: if_splits dest!: index_sub_bound)

lemma find_sub_match:
  "find_sub pat s start = Some i \<Longrightarrow> take (length pat) (drop i s) = pat"
  by (auto simp: find_sub_def split: if_splits dest!: index_sub_match) (simp add: add.commute)

section \<open>Slicing\<close>

definition out_of_range :: fault where
  "out_of_range = Logic_error ''out_of_range''"

definition substr_from :: "'a list \<Rightarrow> nat \<Rightarrow> ('a list) result" where
  "substr_from s pos = (if length s < pos then Inl out_of_range else Inr (drop pos s))"

definition substr :: "'a list \<Rightarrow> nat \<Rightarrow> nat \<Rightarrow> ('a list) result" where
  "substr s pos n = (if length s < pos then Inl out_of_range else Inr (take n (drop pos s)))"

text \<open>The bytes between two positions, the second one \<^verbatim>\<open>npos\<close> for the end.\<close>

definition substr_to :: "'a list \<Rightarrow> nat \<Rightarrow> nat option \<Rightarrow> ('a list) result" where
  "substr_to s pos e = (case e of None \<Rightarrow> substr_from s pos | Some p \<Rightarrow> substr s pos (size_sub p pos))"

lemma substr_from_le [sv_simps]: "pos \<le> length s \<Longrightarrow> substr_from s pos = Inr (drop pos s)"
  by (simp add: substr_from_def)

lemma substr_le [sv_simps]: "pos \<le> length s \<Longrightarrow> substr s pos n = Inr (take n (drop pos s))"
  by (simp add: substr_def)

end
