(* ===== verification/Charconv.thy ===== *)
theory Charconv
  imports String_View
begin

text \<open>
  The number conversions and character classifications the repository takes from the C and C++
  standard libraries: \<^verbatim>\<open>std::from_chars\<close> for \<^verbatim>\<open>int\<close> and \<^verbatim>\<open>std::size_t\<close>,
  \<^verbatim>\<open>std::to_string\<close>, \<^verbatim>\<open>::tolower\<close> in the C locale. The last section relates printing
  to parsing.
\<close>

section \<open>Digits\<close>

definition digit_val :: "nat \<Rightarrow> char \<Rightarrow> nat option" where
  "digit_val base c =
     (let n = (of_char c :: nat);
          v = (if 48 \<le> n \<and> n \<le> 57 then n - 48
               else if 97 \<le> n \<and> n \<le> 122 then n - 87
               else if 65 \<le> n \<and> n \<le> 90 then n - 55
               else base)
      in if v < base then Some v else None)"

text \<open>The longest prefix of digits, most significant first: its value and its length.\<close>

fun scan_digits :: "nat \<Rightarrow> string \<Rightarrow> nat \<Rightarrow> nat \<times> nat" where
  "scan_digits base [] acc = (acc, 0)"
| "scan_digits base (c # cs) acc =
     (case digit_val base c of
        None \<Rightarrow> (acc, 0)
      | Some v \<Rightarrow> (let (r, n) = scan_digits base cs (base * acc + v) in (r, Suc n)))"

section \<open>std::from_chars\<close>

datatype errc = Errc_ok | Errc_invalid_argument | Errc_out_of_range

text \<open>
  The error code, the value left in the output argument (\<open>old\<close> is the value it had) and the
  number of characters matched. Without a digit nothing is matched; a value outside the range of
  the type is matched but not stored.
\<close>

definition from_chars_unsigned :: "nat \<Rightarrow> nat \<Rightarrow> string \<Rightarrow> nat \<Rightarrow> errc \<times> nat \<times> nat" where
  "from_chars_unsigned maxv base s old =
     (let (v, n) = scan_digits base s 0
      in if n = 0 then (Errc_invalid_argument, old, 0)
         else if maxv < v then (Errc_out_of_range, old, n)
         else (Errc_ok, v, n))"

definition from_chars_int :: "nat \<Rightarrow> string \<Rightarrow> int \<Rightarrow> errc \<times> int \<times> nat" where
  "from_chars_int base s old =
     (let neg = (s \<noteq> [] \<and> hd s = CHR ''-'');
          digits = (if neg then tl s else s);
          (v, n) = scan_digits base digits 0;
          r = (if neg then - int v else int v);
          len = (if neg then Suc n else n)
      in if n = 0 then (Errc_invalid_argument, old, 0)
         else if r < - (2 ^ 31) \<or> 2 ^ 31 \<le> r then (Errc_out_of_range, old, len)
         else (Errc_ok, r, len))"

definition size_max :: nat where
  "size_max = 2 ^ 64 - 1"

section \<open>std::to_string\<close>

definition digit_char :: "nat \<Rightarrow> char" where
  "digit_char d = char_of (48 + d)"

fun nat_to_string :: "nat \<Rightarrow> string" where
  "nat_to_string n =
     (if n < 10 then [digit_char n] else nat_to_string (n div 10) @ [digit_char (n mod 10)])"

declare nat_to_string.simps [simp del]

definition int_to_string :: "int \<Rightarrow> string" where
  "int_to_string i =
     (if i < 0 then CHR ''-'' # nat_to_string (nat (- i)) else nat_to_string (nat i))"

section \<open>::tolower\<close>

definition tolower :: "char \<Rightarrow> char" where
  "tolower c =
     (let n = (of_char c :: nat) in if 65 \<le> n \<and> n \<le> 90 then char_of (n + 32) else c)"

definition to_lower :: "string \<Rightarrow> string" where
  "to_lower s = map tolower s"

lemma tolower_idem [simp]: "tolower (tolower c) = tolower c"
proof (cases "65 \<le> (of_char c :: nat) \<and> (of_char c :: nat) \<le> 90")
  case True
  then show ?thesis
    by (simp add: tolower_def Let_def)
next
  case False
  then show ?thesis
    by (auto simp add: tolower_def Let_def)
qed

lemma to_lower_idem [simp]: "to_lower (to_lower s) = to_lower s"
  by (simp add: to_lower_def)

lemma length_to_lower [simp]: "length (to_lower s) = length s"
  by (simp add: to_lower_def)

section \<open>Printing and parsing\<close>

lemma digit_val_digit_char [simp]: "d < 10 \<Longrightarrow> digit_val 10 (digit_char d) = Some d"
  by (simp add: digit_val_def digit_char_def)

lemma scan_digits_append:
  assumes "\<forall>c \<in> set ds. digit_val base c \<noteq> None"
  shows "scan_digits base (ds @ rest) acc =
    (let (v, n) = scan_digits base rest (fst (scan_digits base ds acc)) in (v, length ds + n))"
  using assms
  by (induction ds arbitrary: acc) (auto split: prod.splits option.splits)

lemma nat_to_string_nonempty [simp]: "nat_to_string n \<noteq> []"
  by (subst nat_to_string.simps) simp

lemma nat_to_string_digits: "c \<in> set (nat_to_string n) \<Longrightarrow> \<exists>d < 10. c = digit_char d"
proof (induction n rule: nat_to_string.induct)
  case (1 n)
  show ?case
  proof (cases "n < 10")
    case True
    with 1 show ?thesis by (auto simp: nat_to_string.simps [of n])
  next
    case False
    then have "nat_to_string n = nat_to_string (n div 10) @ [digit_char (n mod 10)]"
      by (simp add: nat_to_string.simps [of n])
    with 1 False show ?thesis by (auto intro: exI [of _ "n mod 10"])
  qed
qed

lemma nat_to_string_digit_vals: "\<forall>c \<in> set (nat_to_string n). digit_val 10 c \<noteq> None"
  using nat_to_string_digits by fastforce

lemma scan_nat_to_string:
  "scan_digits 10 (nat_to_string n) 0 = (n, length (nat_to_string n))"
proof (induction n rule: nat_to_string.induct)
  case (1 n)
  show ?case
  proof (cases "n < 10")
    case True
    then show ?thesis by (simp add: nat_to_string.simps [of n])
  next
    case False
    then have "nat_to_string n = nat_to_string (n div 10) @ [digit_char (n mod 10)]"
      by (simp add: nat_to_string.simps [of n])
    with 1 False show ?thesis
      by (simp add: scan_digits_append [OF nat_to_string_digit_vals])
  qed
qed

text \<open>What \<^verbatim>\<open>std::to_string\<close> prints, \<^verbatim>\<open>std::from_chars\<close> reads back, up to the first
  character that is no digit.\<close>

lemma from_chars_nat_to_string:
  assumes "n \<le> maxv" and "rest = [] \<or> digit_val 10 (hd rest) = None"
  shows "from_chars_unsigned maxv 10 (nat_to_string n @ rest) old = (Errc_ok, n, length (nat_to_string n))"
proof -
  have "scan_digits 10 rest a = (a, 0)" for a
    using assms(2) by (cases rest) auto
  with assms(1) show ?thesis
    by (simp add: from_chars_unsigned_def scan_digits_append [OF nat_to_string_digit_vals]
        scan_nat_to_string)
qed

lemma length_nat_to_string: "n < 10 ^ k \<Longrightarrow> 0 < k \<Longrightarrow> length (nat_to_string n) \<le> k"
proof (induction k arbitrary: n)
  case (Suc k)
  show ?case
  proof (cases "n < 10")
    case True
    then show ?thesis by (simp add: nat_to_string.simps [of n])
  next
    case False
    then have "0 < k" "n div 10 < 10 ^ k"
      using Suc.prems(1) by (cases k; simp)+
    with Suc.IH [of "n div 10"] False show ?thesis
      by (simp add: nat_to_string.simps [of n])
  qed
qed simp

end
