(* ===== verification/Base64.thy ===== *)
theory Base64
  imports Charconv
begin

text \<open>
  base64.cpp: \<open>base64_encode\<close> and \<open>base64_decode\<close>, with the 32-bit accumulator \<^verbatim>\<open>val\<close> kept
  as a word (its high bits are never cleared, so it wraps around) and the bit counter
  \<^verbatim>\<open>valb\<close> as an integer. The encoder is proved equal to the three-byte grouping of RFC 4648
  and the decoder is proved to invert it.
\<close>

section \<open>The code\<close>

definition base64_chars :: string where
  "base64_chars =
     ''ABCDEFGHIJKLMNOPQRSTUVWXYZ'' @ ''abcdefghijklmnopqrstuvwxyz'' @ ''0123456789+/''"

text \<open>The inner loop \<^verbatim>\<open>while (valb>=0)\<close>.\<close>

function encode_emit :: "i32 \<Rightarrow> int \<Rightarrow> string \<Rightarrow> string \<times> int" where
  "encode_emit val valb out =
     (if 0 \<le> valb
      then encode_emit val (valb - 6)
             (out @ [base64_chars ! unat (signed_drop_bit (nat valb) val AND 0x3F)])
      else (out, valb))"
  by pat_completeness auto
termination
  by (relation "measure (\<lambda>(val, valb, out). nat (valb + 6))") auto

declare encode_emit.simps [simp del]

fun encode_loop :: "bytes \<Rightarrow> i32 \<Rightarrow> int \<Rightarrow> string \<Rightarrow> i32 \<times> int \<times> string" where
  "encode_loop [] val valb out = (val, valb, out)"
| "encode_loop (b # bs) val valb out =
     (let val' = push_bit 8 val OR ucast b;
          (out', valb') = encode_emit val' (valb + 8) out
      in encode_loop bs val' valb' out')"

text \<open>The loop \<^verbatim>\<open>while (out.size()%4)\<close>.\<close>

lemma pad_measure: "0 < n mod 4 \<Longrightarrow> (4 - Suc n mod 4) mod 4 < 4 - n mod (4::nat)"
proof -
  assume "0 < n mod 4"
  moreover have "n mod 4 < 4"
    by simp
  ultimately consider "n mod 4 = 1" | "n mod 4 = 2" | "n mod 4 = 3"
    by linarith
  then show ?thesis
    by cases (simp_all add: mod_Suc)
qed

function pad_loop :: "string \<Rightarrow> string" where
  "pad_loop out = (if length out mod 4 \<noteq> 0 then pad_loop (out @ ''='') else out)"
  by pat_completeness auto
termination
  by (relation "measure (\<lambda>out. (4 - length out mod 4) mod 4)") (simp, simp add: pad_measure)

declare pad_loop.simps [simp del]

definition base64_encode :: "bytes \<Rightarrow> string" where
  "base64_encode s =
     (if s = [] then []
      else let (val, valb, out) = encode_loop s 0 (- 6) [];
               out' = (if - 6 < valb
                       then out @ [base64_chars ! unat (signed_drop_bit (nat (valb + 8)) (push_bit 8 val) AND 0x3F)]
                       else out)
           in pad_loop out')"

definition lookup :: "nat list" where
  "lookup = [
        62,  255, 62,  255, 63,  52,  53, 54, 55, 56, 57, 58, 59, 60, 61, 255,
        255, 0,   255, 255, 255, 255, 0,  1,  2,  3,  4,  5,  6,  7,  8,  9,
        10,  11,  12,  13,  14,  15,  16, 17, 18, 19, 20, 21, 22, 23, 24, 25,
        255, 255, 255, 255, 63,  255, 26, 27, 28, 29, 30, 31, 32, 33, 34, 35,
        36,  37,  38,  39,  40,  41,  42, 43, 44, 45, 46, 47, 48, 49, 50, 51]"

text \<open>The loop of the decoder; \<^verbatim>\<open>c < '+' || c > 'z'\<close> on a character code.\<close>

fun decode_loop :: "string \<Rightarrow> i32 \<Rightarrow> int \<Rightarrow> bytes \<Rightarrow> bytes" where
  "decode_loop [] val valb out = out"
| "decode_loop (c # cs) val valb out =
     (if (of_char c :: nat) < 43 \<or> 122 < (of_char c :: nat) then out
      else let l = lookup ! (of_char c - 43)
           in if l = 255 then out
              else let val' = push_bit 6 val + word_of_nat l; valb' = valb + 6
                   in if 0 \<le> valb'
                      then decode_loop cs val' (valb' - 8)
                             (out @ [ucast (signed_drop_bit (nat valb') val' AND 0xFF)])
                      else decode_loop cs val' valb' out)"

definition base64_decode :: "string \<Rightarrow> bytes" where
  "base64_decode input = decode_loop input 0 (- 8) []"

section \<open>The reference: groups of three bytes\<close>

text \<open>
  RFC 4648, section 4: three bytes are one 24-bit number, written as four 6-bit digits; a last
  group of one or two bytes is filled up with zero bits and the missing digits are \<open>=\<close>.
\<close>

definition b64_digit :: "nat \<Rightarrow> char" where
  "b64_digit n = base64_chars ! (n mod 64)"

fun rfc4648_encode :: "bytes \<Rightarrow> string" where
  "rfc4648_encode [] = []"
| "rfc4648_encode [a] =
     (let n = unat a * 65536 in [b64_digit (n div 262144), b64_digit (n div 4096)] @ ''=='')"
| "rfc4648_encode [a, b] =
     (let n = unat a * 65536 + unat b * 256
      in [b64_digit (n div 262144), b64_digit (n div 4096), b64_digit (n div 64)] @ ''='')"
| "rfc4648_encode (a # b # c # rest) =
     (let n = unat a * 65536 + unat b * 256 + unat c
      in [b64_digit (n div 262144), b64_digit (n div 4096), b64_digit (n div 64), b64_digit n]
         @ rfc4648_encode rest)"

section \<open>Bits as arithmetic\<close>

lemma drop_and_mask:
  fixes v :: i32
  assumes "k + m \<le> 32"
  shows "signed_drop_bit k v AND mask m = take_bit m (drop_bit k v)"
proof (rule bit_word_eqI)
  fix n
  assume "n < LENGTH(32)"
  with assms show "bit (signed_drop_bit k v AND mask m) n = bit (take_bit m (drop_bit k v)) n"
    by (auto simp: bit_simps not_less)
qed

lemma unat_take_bit_self: "take_bit LENGTH('a) (unat v) = unat v" for v :: "'a::len word"
  by (rule take_bit_nat_eq_self) (rule unsigned_less)

lemma unat_drop_and_mask:
  fixes v :: i32
  assumes "k + m \<le> 32"
  shows "unat (signed_drop_bit k v AND mask m) = unat v div 2 ^ k mod 2 ^ m"
  unfolding drop_and_mask [OF assms]
  by (simp only: unsigned_take_bit_eq unsigned_drop_bit_eq unat_take_bit_self)
    (simp only: flip: take_bit_eq_mod drop_bit_eq_div)

lemma mod_div_mod:
  fixes x :: nat
  assumes "k + m \<le> j"
  shows "x mod 2 ^ j div 2 ^ k mod 2 ^ m = x div 2 ^ k mod 2 ^ m"
proof -
  have "take_bit m (drop_bit k (take_bit j x)) = take_bit m (drop_bit k x)"
    using assms by (intro bit_eqI) (auto simp: bit_simps)
  then show ?thesis
    by (simp add: take_bit_eq_mod drop_bit_eq_div)
qed

lemma sextet_value:
  fixes v :: i32
  assumes "k \<le> 10"
  shows "unat (signed_drop_bit k v AND 0x3F) = unat v mod 65536 div 2 ^ k mod 64"
proof -
  have "(0x3F :: i32) = mask 6"
    by (simp add: mask_eq_exp_minus_1)
  moreover have "unat v mod 2 ^ 16 div 2 ^ k mod 2 ^ 6 = unat v div 2 ^ k mod 2 ^ 6"
    by (rule mod_div_mod) (use assms in simp)
  moreover have "unat (signed_drop_bit k v AND mask 6) = unat v div 2 ^ k mod 2 ^ 6"
    by (rule unat_drop_and_mask) (use assms in simp)
  ultimately show ?thesis
    by simp
qed

lemma unat_byte: "unat b < 256" for b :: byte
  using unsigned_less [of b] by simp

lemma push_byte_value:
  fixes v :: i32 and b :: byte
  shows "unat (push_bit 8 v OR ucast b) mod 65536 = unat v mod 256 * 256 + unat b"
proof -
  have "take_bit 16 (push_bit 8 (unat v) OR unat b) = push_bit 8 (take_bit 8 (unat v)) + unat b"
  proof -
    have b: "take_bit 8 (unat b) = unat b"
      using unat_byte [of b] by (simp add: take_bit_eq_mod)
    have "take_bit 16 (push_bit 8 (unat v) OR unat b) = push_bit 8 (take_bit 8 (unat v)) OR take_bit 8 (unat b)"
      by (subst b [symmetric]) (intro bit_eqI, auto simp: bit_simps)
    also have "\<dots> = push_bit 8 (take_bit 8 (unat v)) + take_bit 8 (unat b)"
      by (rule disjunctive_add [symmetric]) (auto simp: bit_simps)
    finally show ?thesis by (simp add: b)
  qed
  moreover have "unat (push_bit 8 v OR ucast b) = take_bit 32 (push_bit 8 (unat v)) OR unat b"
    using unat_byte [of b]
    by (simp add: unsigned_or_eq unsigned_push_bit_eq unsigned_ucast_eq take_bit_nat_eq_self)
  moreover have "take_bit 16 (take_bit 32 (push_bit 8 (unat v)) OR unat b) =
      take_bit 16 (push_bit 8 (unat v) OR unat b)"
    by (intro bit_eqI) (auto simp: bit_simps)
  ultimately show ?thesis
    by (simp add: take_bit_eq_mod push_bit_eq_mult)
qed

section \<open>The encoder is the reference\<close>

definition sextet :: "i32 \<Rightarrow> nat \<Rightarrow> char" where
  "sextet v k = base64_chars ! unat (signed_drop_bit k v AND 0x3F)"

lemma sextet_eq: "k \<le> 10 \<Longrightarrow> sextet v k = b64_digit (unat v mod 65536 div 2 ^ k)"
  by (simp only: sextet_def sextet_value b64_digit_def)

lemma encode_emit_6: "encode_emit v 6 out = (out @ [sextet v 6, sextet v 0], - 6)"
  by (simp add: encode_emit.simps [of v] sextet_def)

lemma encode_emit_4: "encode_emit v 4 out = (out @ [sextet v 4], - 2)"
  by (simp add: encode_emit.simps [of v] sextet_def)

lemma encode_emit_2: "encode_emit v 2 out = (out @ [sextet v 2], - 4)"
  by (simp add: encode_emit.simps [of v] sextet_def)

definition push_byte :: "i32 \<Rightarrow> byte \<Rightarrow> i32" where
  "push_byte v b = push_bit 8 v OR ucast b"

lemma encode_step:
  "encode_loop (b # bs) v (- 6) out =
     encode_loop bs (push_byte v b) (- 4) (out @ [sextet (push_byte v b) 2])"
  "encode_loop (b # bs) v (- 4) out =
     encode_loop bs (push_byte v b) (- 2) (out @ [sextet (push_byte v b) 4])"
  "encode_loop (b # bs) v (- 2) out =
     encode_loop bs (push_byte v b) (- 6) (out @ [sextet (push_byte v b) 6, sextet (push_byte v b) 0])"
  by (simp_all add: push_byte_def Let_def encode_emit_2 encode_emit_4 encode_emit_6)

lemma base64_encode_eq:
  "base64_encode s =
     (case encode_loop s 0 (- 6) [] of (v, vb, out) \<Rightarrow>
        if s = [] then []
        else pad_loop (if - 6 < vb then out @ [sextet (push_bit 8 v) (nat (vb + 8))] else out))"
  by (simp add: base64_encode_def sextet_def split: prod.splits)

text \<open>One full group of three bytes, whatever the accumulator held before.\<close>

lemma push_byte_low16: "unat (push_byte v b) mod 65536 = unat v mod 256 * 256 + unat b"
  unfolding push_byte_def by (rule push_byte_value)

lemma push_byte_low: "unat (push_byte v b) mod 256 = unat b"
proof -
  have "unat (push_byte v b) mod 65536 mod 256 = unat b"
    using unat_byte [of b] by (simp only: push_byte_low16) simp
  then show ?thesis
    by (simp add: mod_mod_cancel)
qed

lemma push_zero_low16: "unat (push_bit 8 (push_byte v b)) mod 65536 = unat b * 256 + 0"
  using push_byte_value [of "push_byte v b" 0] push_byte_low [of v b] by simp

lemma group_digits:
  fixes a b c :: nat
  assumes "a < 256" and "b < 256" and "c < 256"
  shows "b64_digit ((x * 256 + a) div 4) = b64_digit ((a * 65536 + b * 256 + c) div 262144)"
    and "b64_digit ((a * 256 + b) div 16) = b64_digit ((a * 65536 + b * 256 + c) div 4096)"
    and "b64_digit ((b * 256 + c) div 64) = b64_digit ((a * 65536 + b * 256 + c) div 64)"
    and "b64_digit (b * 256 + c) = b64_digit (a * 65536 + b * 256 + c)"
proof -
  let ?n = "a * 65536 + b * 256 + c"
  have n1: "?n div 256 = a * 256 + b" and n2: "(a * 256 + b) div 256 = a"
    using assms by simp_all
  have "?n div 262144 = ?n div 256 div 256 div 4" and "?n div 4096 = ?n div 256 div 16"
    by (simp_all only: div_mult2_eq [symmetric]) simp_all
  then have n3: "?n div 262144 = a div 4" and n4: "?n div 4096 = (a * 256 + b) div 16"
    by (simp_all only: n1 n2)
  have "(x * 256 + a) div 4 = x * 64 + a div 4"
    by simp
  then have "(x * 256 + a) div 4 mod 64 = ?n div 262144 mod 64"
    by (simp add: n3)
  moreover have "(a * 256 + b) div 16 mod 64 = ?n div 4096 mod 64"
    by (simp only: n4)
  moreover have "(b * 256 + c) div 64 mod 64 = ?n div 64 mod 64"
  proof -
    have "?n div 64 = (b * 256 + c + a * 1024 * 64) div 64"
      by (simp add: algebra_simps)
    also have "\<dots> = (b * 256 + c) div 64 + a * 16 * 64"
      by simp
    finally show ?thesis by (simp only: mod_mult_self1)
  qed
  moreover have "(b * 256 + c) mod 64 = ?n mod 64"
  proof -
    have "?n = b * 256 + c + a * 1024 * 64"
      by simp
    then show ?thesis by (simp only: mod_mult_self1)
  qed
  ultimately show "b64_digit ((x * 256 + a) div 4) = b64_digit ((a * 65536 + b * 256 + c) div 262144)"
    and "b64_digit ((a * 256 + b) div 16) = b64_digit ((a * 65536 + b * 256 + c) div 4096)"
    and "b64_digit ((b * 256 + c) div 64) = b64_digit ((a * 65536 + b * 256 + c) div 64)"
    and "b64_digit (b * 256 + c) = b64_digit (a * 65536 + b * 256 + c)"
    by (simp_all only: b64_digit_def)
qed

text \<open>The bytes of one group: three steps of the loop append the four digits of the group.\<close>

lemma encode_loop_group:
  "\<exists>v'. encode_loop (a # b # c # rest) v (- 6) out =
     encode_loop rest v' (- 6) (out @ rfc4648_encode [a, b, c])"
proof -
  let ?v1 = "push_byte v a"
  let ?v2 = "push_byte ?v1 b"
  let ?v3 = "push_byte ?v2 c"
  have "[sextet ?v1 2, sextet ?v2 4, sextet ?v3 6, sextet ?v3 0] = rfc4648_encode [a, b, c]"
    by (simp add: sextet_eq push_byte_low16 push_byte_low Let_def
        group_digits [OF unat_byte unat_byte unat_byte])
  then show ?thesis
    by (simp add: encode_step del: encode_loop.simps rfc4648_encode.simps) metis
qed

text \<open>The last group, of one or two bytes, with the digit flushed after the loop.\<close>

lemma encode_last_one:
  "\<exists>v1. encode_loop [a] v (- 6) out = (v1, - 4, out @ [sextet v1 2]) \<and>
     [sextet v1 2, sextet (push_bit 8 v1) 4] @ ''=='' = rfc4648_encode [a]"
proof -
  have "[sextet (push_byte v a) 2, sextet (push_bit 8 (push_byte v a)) 4] @ ''=='' = rfc4648_encode [a]"
    using group_digits [OF unat_byte [of a], of 0 0]
    by (simp add: sextet_eq push_byte_low16 push_zero_low16 Let_def)
  then show ?thesis
    by (simp only: encode_step encode_loop.simps(1)) blast
qed

lemma encode_last_two:
  "\<exists>v2 p. encode_loop [a, b] v (- 6) out = (v2, - 2, out @ p) \<and> length p = 2 \<and>
     p @ [sextet (push_bit 8 v2) 6] @ ''='' = rfc4648_encode [a, b]"
proof -
  let ?v2 = "push_byte (push_byte v a) b"
  let ?p = "[sextet (push_byte v a) 2, sextet ?v2 4]"
  have "?p @ [sextet (push_bit 8 ?v2) 6] @ ''='' = rfc4648_encode [a, b]"
    using group_digits [OF unat_byte [of a] unat_byte [of b], of 0]
    by (simp add: sextet_eq push_byte_low16 push_byte_low push_zero_low16 Let_def)
  moreover have "encode_loop [a, b] v (- 6) out = (?v2, - 2, out @ ?p)"
    by (simp add: encode_step del: encode_loop.simps(2))
  ultimately show ?thesis
    by (intro exI [of _ ?v2] exI [of _ ?p]) simp
qed

lemma length_rfc4648: "length (rfc4648_encode s) mod 4 = 0"
  by (induction s rule: rfc4648_encode.induct) (simp_all add: Let_def)

lemma pad_loop_eq:
  "length out mod 4 = 0 \<Longrightarrow> pad_loop out = out"
  "length out mod 4 = 3 \<Longrightarrow> pad_loop out = out @ ''=''"
  "length out mod 4 = 2 \<Longrightarrow> pad_loop out = out @ ''==''"
proof -
  show 0: "pad_loop out = out" if "length out mod 4 = 0" for out
    using that by (simp add: pad_loop.simps [of out])
  show 1: "pad_loop out = out @ ''=''" if "length out mod 4 = 3" for out
    using that by (simp add: pad_loop.simps [of out] 0 mod_Suc)
  show "pad_loop out = out @ ''==''" if "length out mod 4 = 2" for out
    using that by (simp add: pad_loop.simps [of out] 1 mod_Suc)
qed

text \<open>The part of \<^const>\<open>base64_encode\<close> after the loop.\<close>

definition encode_finish :: "i32 \<times> int \<times> string \<Rightarrow> string" where
  "encode_finish r = (case r of (v, vb, out) \<Rightarrow>
     pad_loop (if - 6 < vb then out @ [sextet (push_bit 8 v) (nat (vb + 8))] else out))"

lemma encode_loop_finish:
  "length out mod 4 = 0 \<Longrightarrow>
   encode_finish (encode_loop s v (- 6) out) = out @ rfc4648_encode s"
proof (induction s arbitrary: v out rule: rfc4648_encode.induct)
  case 1
  then show ?case
    by (simp add: encode_finish_def pad_loop_eq)
next
  case (2 a)
  obtain v1 where "encode_loop [a] v (- 6) out = (v1, - 4, out @ [sextet v1 2])"
    and "[sextet v1 2, sextet (push_bit 8 v1) 4] @ ''=='' = rfc4648_encode [a]"
    using encode_last_one by blast
  moreover have "length (out @ [sextet v1 2, sextet (push_bit 8 v1) 4]) mod 4 = 2"
    using "2.prems" by (simp add: mod_Suc)
  ultimately show ?case
    by (simp add: encode_finish_def pad_loop_eq del: rfc4648_encode.simps encode_loop.simps)
next
  case (3 a b)
  obtain v2 p where "encode_loop [a, b] v (- 6) out = (v2, - 2, out @ p)" and "length p = 2"
    and "p @ [sextet (push_bit 8 v2) 6] @ ''='' = rfc4648_encode [a, b]"
    using encode_last_two by blast
  moreover from \<open>length p = 2\<close> have "length (out @ p @ [sextet (push_bit 8 v2) 6]) mod 4 = 3"
    using "3.prems" by (simp only: length_append list.size) presburger
  ultimately show ?case
    by (simp add: encode_finish_def pad_loop_eq del: rfc4648_encode.simps encode_loop.simps)
next
  case (4 a b c rest)
  obtain v' where "encode_loop (a # b # c # rest) v (- 6) out =
      encode_loop rest v' (- 6) (out @ rfc4648_encode [a, b, c])"
    using encode_loop_group by blast
  moreover have "length (out @ rfc4648_encode [a, b, c]) mod 4 = 0"
    using "4.prems" length_rfc4648 [of "[a, b, c]"] by (simp only: length_append) presburger
  ultimately show ?case
    using "4.IH" by (simp add: Let_def del: encode_loop.simps)
qed

lemma base64_encode_eq_ref: "base64_encode s = rfc4648_encode s"
proof (cases "s = []")
  case True
  then show ?thesis
    by (simp add: base64_encode_def)
next
  case False
  then have "base64_encode s = encode_finish (encode_loop s 0 (- 6) [])"
    by (simp add: base64_encode_eq encode_finish_def split: prod.splits)
  then show ?thesis
    by (simp add: encode_loop_finish)
qed

section \<open>The decoder inverts the encoder\<close>

lemma lookup_digit_all:
  "\<forall>i \<in> set [0..<64].
     \<not> ((of_char (base64_chars ! i) :: nat) < 43 \<or> 122 < (of_char (base64_chars ! i) :: nat)) \<and>
     lookup ! (of_char (base64_chars ! i) - 43) = i"
  by (simp add: upt_rec lookup_def base64_chars_def)

lemma lookup_digit:
  "\<not> ((of_char (b64_digit n) :: nat) < 43 \<or> 122 < (of_char (b64_digit n) :: nat))"
  "lookup ! (of_char (b64_digit n) - 43) = n mod 64"
proof -
  have "n mod 64 \<in> set [0..<64]"
    by simp
  with lookup_digit_all
  show "\<not> ((of_char (b64_digit n) :: nat) < 43 \<or> 122 < (of_char (b64_digit n) :: nat))"
    and "lookup ! (of_char (b64_digit n) - 43) = n mod 64"
    unfolding b64_digit_def by blast+
qed

definition push_digit :: "i32 \<Rightarrow> nat \<Rightarrow> i32" where
  "push_digit v n = push_bit 6 v + word_of_nat (n mod 64)"

definition octet :: "i32 \<Rightarrow> nat \<Rightarrow> byte" where
  "octet v k = ucast (signed_drop_bit k v AND 0xFF)"

lemma decode_step:
  "decode_loop (b64_digit n # cs) v vb out =
     (if 0 \<le> vb + 6
      then decode_loop cs (push_digit v n) (vb + 6 - 8) (out @ [octet (push_digit v n) (nat (vb + 6))])
      else decode_loop cs (push_digit v n) (vb + 6) out)"
proof -
  have "n mod 64 \<noteq> 255"
    using mod_less_divisor [of 64 n] by linarith
  then show ?thesis
    using lookup_digit [of n] by (simp add: push_digit_def octet_def Let_def)
qed

lemma push_digit_low12: "unat (push_digit v n) mod 4096 = unat v mod 64 * 64 + n mod 64"
proof -
  have "unat (push_bit 6 v) = unat v * 64 mod 2 ^ 32"
    by (simp add: push_bit_eq_mult unat_word_ariths)
  moreover have "unat (word_of_nat (n mod 64) :: i32) = n mod 64"
    by (simp add: unsigned_of_nat take_bit_nat_eq_self)
  ultimately have "unat (push_digit v n) = (unat v * 64 mod 2 ^ 32 + n mod 64) mod 2 ^ 32"
    by (simp add: push_digit_def unat_word_ariths)
  then have "unat (push_digit v n) mod 4096 = (unat v * 64 + n mod 64) mod 4096"
    by (simp add: mod_mod_cancel mod_simps)
  also have "\<dots> = unat v mod 64 * 64 + n mod 64"
    by (simp add: mod_mult2_eq [of _ 64 64, simplified])
  finally show ?thesis .
qed

lemma push_digit_low6: "unat (push_digit v n) mod 64 = n mod 64"
proof -
  have "unat (push_digit v n) mod 4096 mod 64 = n mod 64"
    by (simp only: push_digit_low12) simp
  then show ?thesis
    by (simp add: mod_mod_cancel)
qed

text \<open>Two digits in a row leave the twelve low bits of the number they are digits of.\<close>

lemma octet_value:
  assumes "k \<le> 4"
  shows "unat (octet (push_digit (push_digit v (x div 64)) x) k) = x div 2 ^ k mod 256"
proof -
  let ?v = "push_digit (push_digit v (x div 64)) x"
  have low: "unat ?v mod 2 ^ 12 = x mod 2 ^ 12"
    using mod_mult2_eq [of x 64 64] by (simp add: push_digit_low12 push_digit_low6 mult.commute)
  have "(0xFF :: i32) = mask 8"
    by (simp add: mask_eq_exp_minus_1)
  then have "unat (signed_drop_bit k ?v AND 0xFF) = unat ?v div 2 ^ k mod 2 ^ 8"
    using unat_drop_and_mask [of k 8 ?v] assms by simp
  also have "\<dots> = unat ?v mod 2 ^ 12 div 2 ^ k mod 2 ^ 8"
    by (rule mod_div_mod [symmetric]) (use assms in simp)
  also have "\<dots> = x div 2 ^ k mod 2 ^ 8"
    unfolding low by (rule mod_div_mod) (use assms in simp)
  finally show ?thesis
    by (simp add: octet_def unsigned_ucast_eq take_bit_nat_eq_self take_bit_eq_mod)
qed

lemma octet_eqI: "k \<le> 4 \<Longrightarrow> x div 2 ^ k mod 256 = unat b \<Longrightarrow>
    octet (push_digit (push_digit v (x div 64)) x) k = b"
  by (simp only: word_unat_eq_iff octet_value)

lemma three_bytes:
  fixes a b c :: byte
  shows "(unat a * 65536 + unat b * 256 + unat c) div 65536 mod 256 = unat a"
    and "(unat a * 65536 + unat b * 256 + unat c) div 256 mod 256 = unat b"
    and "(unat a * 65536 + unat b * 256 + unat c) mod 256 = unat c"
proof -
  let ?n = "unat a * 65536 + unat b * 256 + unat c"
  have n: "?n = (unat a * 256 + unat b) * 256 + unat c"
    by simp
  have "?n div 256 = unat a * 256 + unat b"
    unfolding n using unat_byte [of c] by simp
  moreover have c: "?n mod 256 = unat c"
    unfolding n mod_mult_self3 using unat_byte [of c] by simp
  moreover have "?n div 65536 = ?n div 256 div 256"
    by (simp only: div_mult2_eq [symmetric]) simp
  ultimately show "?n div 65536 mod 256 = unat a" and "?n div 256 mod 256 = unat b"
    using unat_byte [of a] unat_byte [of b] by simp_all
  show "?n mod 256 = unat c"
    by (rule c)
qed

text \<open>One group of four digits gives back the three bytes, whatever the accumulator held.\<close>

lemma decode_loop_group:
  "\<exists>v'. decode_loop (rfc4648_encode [a, b, c] @ cs) v (- 8) out =
     decode_loop cs v' (- 8) (out @ [a, b, c])"
proof -
  define n where "n = unat a * 65536 + unat b * 256 + unat c"
  have bytes: "n div 65536 mod 256 = unat a" "n div 256 mod 256 = unat b" "n mod 256 = unat c"
    unfolding n_def by (rule three_bytes)+
  have div64: "n div 262144 = n div 4096 div 64" "n div 4096 = n div 64 div 64"
    by (simp_all only: div_mult2_eq [symmetric]) simp_all
  define v2 where "v2 = push_digit (push_digit v (n div 4096 div 64)) (n div 4096)"
  define v3 where "v3 = push_digit v2 (n div 64)"
  define v4 where "v4 = push_digit v3 n"
  have "octet v2 4 = a"
    unfolding v2_def by (rule octet_eqI) (simp_all add: div_mult2_eq [symmetric] bytes)
  moreover have "octet v3 2 = b"
    unfolding v3_def v2_def div64(2) by (rule octet_eqI) (simp_all add: div_mult2_eq [symmetric] bytes)
  moreover have "octet v4 0 = c"
    unfolding v4_def v3_def by (rule octet_eqI) (simp_all add: bytes)
  moreover have "decode_loop (rfc4648_encode [a, b, c] @ cs) v (- 8) out =
      decode_loop cs v4 (- 8) (out @ [octet v2 4, octet v3 2, octet v4 0])"
    by (simp add: Let_def decode_step div64(1) flip: n_def v2_def v3_def v4_def del: decode_loop.simps(2))
  ultimately show ?thesis
    by auto
qed

lemma decode_pad: "decode_loop (CHR ''='' # cs) v vb out = out"
  by (simp add: lookup_def)

lemma decode_loop_short:
  "decode_loop (rfc4648_encode [a]) v (- 8) out = out @ [a]"
  "decode_loop (rfc4648_encode [a, b]) v (- 8) out = out @ [a, b]"
proof -
  define x where "x = unat a * 65536"
  have "x div 262144 = x div 4096 div 64"
    by (simp_all only: div_mult2_eq [symmetric]) simp_all
  moreover have "octet (push_digit (push_digit v (x div 4096 div 64)) (x div 4096)) 4 = a"
    using unat_byte [of a] by (intro octet_eqI) (simp_all add: div_mult2_eq [symmetric] x_def)
  ultimately show "decode_loop (rfc4648_encode [a]) v (- 8) out = out @ [a]"
    by (simp add: Let_def decode_step decode_pad flip: x_def del: decode_loop.simps(2))
  define n where "n = unat a * 65536 + unat b * 256"
  have bytes: "n div 65536 mod 256 = unat a" "n div 256 mod 256 = unat b"
    using three_bytes [of a b 0] by (simp_all add: n_def)
  have div64: "n div 262144 = n div 4096 div 64" "n div 4096 = n div 64 div 64"
    by (simp_all only: div_mult2_eq [symmetric]) simp_all
  define v2 where "v2 = push_digit (push_digit v (n div 4096 div 64)) (n div 4096)"
  have "octet v2 4 = a"
    unfolding v2_def by (rule octet_eqI) (simp_all add: div_mult2_eq [symmetric] bytes)
  moreover have "octet (push_digit v2 (n div 64)) 2 = b"
    unfolding v2_def div64(2) by (rule octet_eqI) (simp_all add: div_mult2_eq [symmetric] bytes)
  ultimately show "decode_loop (rfc4648_encode [a, b]) v (- 8) out = out @ [a, b]"
    by (simp add: Let_def decode_step decode_pad div64(1) flip: n_def v2_def del: decode_loop.simps(2))
qed

lemma decode_loop_encode: "decode_loop (rfc4648_encode s) v (- 8) out = out @ s"
proof (induction s arbitrary: v out rule: rfc4648_encode.induct)
  case 1
  then show ?case by simp
next
  case (2 a)
  show ?case by (rule decode_loop_short)
next
  case (3 a b)
  show ?case by (rule decode_loop_short)
next
  case (4 a b c rest)
  have "rfc4648_encode (a # b # c # rest) = rfc4648_encode [a, b, c] @ rfc4648_encode rest"
    by (simp add: Let_def)
  then show ?case
    using decode_loop_group [of a b c "rfc4648_encode rest" v out] "4.IH" by auto
qed

section \<open>Properties\<close>

text \<open>
  C21. The encoder computes RFC 4648's base64: every group of three bytes becomes the four digits
  of its 24-bit number, and a last short group is padded with \<open>=\<close>.
\<close>

theorem base64_encode_rfc4648: "base64_encode s = rfc4648_encode s"
  by (rule base64_encode_eq_ref)

text \<open>
  C22. Decoding what the encoder produced gives the bytes back, for every input: the padding
  ends the decoder's loop and the leftover bits of a short group are dropped.
\<close>

theorem base64_decode_encode: "base64_decode (base64_encode s) = s"
  by (simp add: base64_decode_def base64_encode_eq_ref decode_loop_encode)

text \<open>The length of the encoding, and so the size of the handshake's accept header.\<close>

lemma length_base64_encode: "length (base64_encode s) = 4 * ((length s + 2) div 3)"
  unfolding base64_encode_eq_ref
proof (induction s rule: rfc4648_encode.induct)
  case (4 a b c rest)
  have "(length (a # b # c # rest) + 2) div 3 = (length rest + 2 + 3) div 3"
    by simp
  also have "\<dots> = (length rest + 2) div 3 + 1"
    by (simp only: div_add_self2)
  finally show ?case
    using "4.IH" by (simp only: rfc4648_encode.simps Let_def length_append list.size) simp
qed (simp_all add: Let_def)

text \<open>
  The character \<open><\<close> is outside the alphabet, but its table entry is 0 and not 255, so the
  decoder reads it as an \<open>A\<close> instead of stopping.
\<close>

lemma base64_decode_lt: "base64_decode ''<<<<'' = base64_decode ''AAAA''"
  by code_simp

end
