(* ===== verification/Url.thy ===== *)
theory Url
  imports Charconv
begin

text \<open>
  Request.cpp, \<open>url_unescape\<close>: replacing \<^verbatim>\<open>%xy\<close> escapes. The code computes the end of an
  escape as \<^verbatim>\<open>&str[pos+3]\<close>, and \<^verbatim>\<open>std::string_view::operator[]\<close> requires its index to be
  below \<^verbatim>\<open>size()\<close> (unlike that of \<^verbatim>\<open>std::string\<close> it has no character at the end): an escape
  that ends the text, complete or cut off after its first digit, is \<^const>\<open>Undefined\<close> here. A
  standard library that checks the precondition ends the program there, one that does not
  computes an address behind the view.
\<close>

section \<open>The code\<close>

definition bad_url_escaping :: fault where
  "bad_url_escaping = Http_error 400 ''Bad URL escaping''"

text \<open>
  \<^verbatim>\<open>std::from_chars(&str[pos+1], &str[pos+3], val, 16)\<close>: both operators need their index to
  be inside the view.
\<close>

definition hex_escape :: "string \<Rightarrow> nat \<Rightarrow> int result" where
  "hex_escape str pos =
     (if length str \<le> pos + 3 then Inl (Undefined ''url_unescape'')
      else case from_chars_int 16 (take 2 (drop (pos + 1) str)) 0 of
             (Errc_invalid_argument, _, _) \<Rightarrow> Inl bad_url_escaping
           | (_, val, _) \<Rightarrow> Inr val)"

definition char_of_int :: "int \<Rightarrow> char" where
  "char_of_int val = char_of (nat (val mod 256))"

function url_unescape_loop :: "string \<Rightarrow> nat \<Rightarrow> string \<Rightarrow> string result" where
  "url_unescape_loop str start unescaped =
     (case find_char (CHR ''%'') str start of
        None \<Rightarrow> rbind (substr_from str start) (\<lambda>chunk. Inr (unescaped @ chunk))
      | Some pos \<Rightarrow>
          rbind (substr str start (pos - start)) (\<lambda>chunk.
            if size_sub (length str) 2 < pos then Inl bad_url_escaping
            else rbind (hex_escape str pos) (\<lambda>val.
                   url_unescape_loop str (pos + 3) (unescaped @ chunk @ [char_of_int val]))))"
  by pat_completeness auto
termination
  by (relation "measure (\<lambda>(str, start, unescaped). length str - start)")
    (auto dest: find_char_bounds)

declare url_unescape_loop.simps [simp del]

definition url_unescape :: "string \<Rightarrow> string result" where
  "url_unescape str = url_unescape_loop str 0 []"

section \<open>The index loop as a recursion on the text\<close>

text \<open>
  The reference: a recursion over the characters. An escape is defined when a character follows
  its two; its value is that of its digits, or of the first alone when the second is none, or
  that of the second with a minus sign as the first.
\<close>

definition hex_pair :: "char \<Rightarrow> char \<Rightarrow> int option" where
  "hex_pair a b =
     (case (digit_val 16 a, digit_val 16 b) of
        (Some u, Some v) \<Rightarrow> Some (16 * int u + int v)
      | (Some u, None) \<Rightarrow> Some (int u)
      | (None, Some v) \<Rightarrow> if a = CHR ''-'' then Some (- int v) else None
      | (None, None) \<Rightarrow> None)"

fun unescape_ref :: "string \<Rightarrow> string result" where
  "unescape_ref [] = Inr []"
| "unescape_ref (c # cs) =
     (if c \<noteq> CHR ''%'' then rbind (unescape_ref cs) (\<lambda>r. Inr (c # r))
      else case cs of
             [] \<Rightarrow> Inl bad_url_escaping
           | [a] \<Rightarrow> Inl (Undefined ''url_unescape'')
           | [a, b] \<Rightarrow> Inl (Undefined ''url_unescape'')
           | a # b # z # zs \<Rightarrow>
               (case hex_pair a b of
                  None \<Rightarrow> Inl bad_url_escaping
                | Some val \<Rightarrow> rbind (unescape_ref (z # zs)) (\<lambda>r. Inr (char_of_int val # r))))"

lemma find_char_cons [sv_simps]:
  "find_char c (x # xs) 0 = (if x = c then Some 0 else map_option Suc (find_char c xs 0))"
  by (simp add: find_char_def find_if_from_def option.map_comp comp_def option.map_ident)

lemma find_char_suffix:
  "find_char c (xs @ ys) (length xs) = map_option (\<lambda>i. length xs + i) (find_char c ys 0)"
  by (rule find_char_skip) simp

lemma unescape_ref_append:
  "CHR ''%'' \<notin> set ys \<Longrightarrow> unescape_ref (ys @ zs) = rbind (unescape_ref zs) (\<lambda>r. Inr (ys @ r))"
  by (induction ys) (auto simp: rbind_assoc rbind_def split: sum.splits)

lemma unescape_ref_plain: "CHR ''%'' \<notin> set ys \<Longrightarrow> unescape_ref ys = Inr ys"
  using unescape_ref_append [of ys "[]"] by simp

lemma digit_val_16: "digit_val 16 c = Some d \<Longrightarrow> d < 16 \<and> c \<noteq> CHR ''-''"
  by (auto simp: digit_val_def Let_def split: if_splits)

lemma digit_val_minus: "digit_val 16 CHR ''-'' = None"
  by (simp add: digit_val_def)

lemma hex_escape_pair:
  "hex_escape (CHR ''%'' # a # b # z # zs) 0 =
     (case hex_pair a b of None \<Rightarrow> Inl bad_url_escaping | Some val \<Rightarrow> Inr val)"
proof -
  show ?thesis
  proof (cases "a = CHR ''-''")
    case True
    then show ?thesis
      by (cases "digit_val 16 b") 
        (auto simp: hex_escape_def hex_pair_def from_chars_int_def digit_val_minus Let_def dest!: digit_val_16)
  next
    case False
    then show ?thesis
      by (cases "digit_val 16 a"; cases "digit_val 16 b")
        (auto simp: hex_escape_def hex_pair_def from_chars_int_def Let_def dest!: digit_val_16)
  qed
qed

lemma hex_escape_end: "length zs \<le> 2 \<Longrightarrow> hex_escape (CHR ''%'' # zs) 0 = Inl (Undefined ''url_unescape'')"
  by (simp add: hex_escape_def)

lemma hex_escape_shift: "hex_escape (xs @ ys) (length xs + n) = hex_escape ys n"
  by (simp add: hex_escape_def)

lemma url_unescape_loop_ref:
  "(xs = [] \<longrightarrow> ys \<noteq> ''%'') \<Longrightarrow>
   url_unescape_loop (xs @ ys) (length xs) out = rbind (unescape_ref ys) (\<lambda>r. Inr (out @ r))"
proof (induction "length ys" arbitrary: xs ys out rule: less_induct)
  case less
  let ?str = "xs @ ys"
  note unfold = url_unescape_loop.simps [of ?str "length xs" out]
  show ?case
  proof (cases "find_char (CHR ''%'') ys 0")
    case None
    then have "CHR ''%'' \<notin> set ys"
      by (auto simp: find_char_def find_if_from_None)
    with None show ?thesis
      by (simp add: unfold find_char_suffix substr_from_def unescape_ref_plain)
  next
    case (Some k)
    then have k: "k < length ys" "ys ! k = CHR ''%''"
      by (auto dest: find_char_bounds)
    define ps where "ps = take k ys"
    define zs where "zs = drop (Suc k) ys"
    have ys: "ys = ps @ CHR ''%'' # zs"
      using k by (simp add: ps_def zs_def id_take_nth_drop [symmetric] flip: k(2))
    have len: "length ps = k"
      using k by (simp add: ps_def)
    have ps: "CHR ''%'' \<notin> set ps"
      using Some index_of_Some_D(3) [of "\<lambda>x. x = CHR ''%''" ys k]
      by (auto simp: find_char_def find_if_from_def ps_def)
    have pos: "find_char (CHR ''%'') ?str (length xs) = Some (length xs + length ps)"
      using Some by (simp add: find_char_suffix len)
    have chunk: "substr ?str (length xs) (length xs + length ps - length xs) = Inr ps"
      by (simp add: substr_def ys)
    have hex: "hex_escape ?str (length xs + length ps) = hex_escape (CHR ''%'' # zs) 0"
      using hex_escape_shift [of "xs @ ps" "CHR ''%'' # zs" 0] by (simp add: ys)
    show ?thesis
    proof (cases zs)
      case Nil
      with less.prems have "xs \<noteq> [] \<or> ps \<noteq> []"
        by (auto simp: ys)
      then have "size_sub (length ?str) 2 < length xs + length ps"
        by (cases xs; cases ps) (simp_all add: ys Nil)
      then show ?thesis
        using chunk by (simp add: unfold pos) (simp add: ys Nil unescape_ref_append [OF ps])
    next
      case (Cons a as)
      have ok: "\<not> size_sub (length ?str) 2 < length xs + length ps"
        by (simp add: ys Cons)
      have step: "url_unescape_loop ?str (length xs) out =
          rbind (hex_escape (CHR ''%'' # zs) 0) (\<lambda>val.
            url_unescape_loop ?str (length xs + length ps + 3) (out @ ps @ [char_of_int val]))"
        using ok chunk by (simp add: unfold pos hex)
      show ?thesis
      proof (cases "length zs \<le> 2")
        case True
        then show ?thesis
          by (simp only: step hex_escape_end rbind_Inl)
            (cases as; simp add: ys Cons unescape_ref_append [OF ps])
      next
        case False
        then obtain b z bs where as: "as = b # z # bs"
          using Cons by (cases as; cases "tl as") auto
        have IH: "url_unescape_loop ?str (length xs + length ps + 3) out' =
            rbind (unescape_ref (z # bs)) (\<lambda>r. Inr (out' @ r))" for out'
          using less.hyps [of "z # bs" "xs @ ps @ [CHR ''%'', a, b]" out']
          by (simp add: ys Cons as numeral_3_eq_3)
        show ?thesis
          by (simp only: step IH Cons as hex_escape_pair)
            (cases "hex_pair a b"; simp add: ys Cons as unescape_ref_append [OF ps] rbind_assoc)
      qed
    qed
  qed
qed

text \<open>A lone percent sign defeats the guard altogether: \<^verbatim>\<open>str.size()-2\<close> wraps around.\<close>

lemma url_unescape_percent: "url_unescape ''%'' = Inl (Undefined ''url_unescape'')"
  by (simp add: url_unescape_def url_unescape_loop.simps [of "''%''" 0] find_char_cons substr_def
      size_sub_def hex_escape_def)

lemma url_unescape_eq_ref: "s \<noteq> ''%'' \<Longrightarrow> url_unescape s = unescape_ref s"
  using url_unescape_loop_ref [of "[]" s "[]"] by (cases "unescape_ref s") (simp_all add: url_unescape_def)

lemma url_unescape_plain [simp]: "CHR ''%'' \<notin> set s \<Longrightarrow> url_unescape s = Inr s"
  by (subst url_unescape_eq_ref) (auto simp: unescape_ref_plain)

section \<open>Percent encoding\<close>

text \<open>
  A client's encoder: the characters that \<open>keep\<close> selects are sent as they are, all others
  (and the percent sign) as two upper-case hexadecimal digits.
\<close>

definition hex_digit :: "nat \<Rightarrow> char" where
  "hex_digit d = char_of (if d < 10 then 48 + d else 55 + d)"

definition pct_encode :: "(char \<Rightarrow> bool) \<Rightarrow> string \<Rightarrow> string" where
  "pct_encode keep s = concat (map (\<lambda>c.
     if keep c \<and> c \<noteq> CHR ''%'' then [c]
     else [CHR ''%'', hex_digit (of_char c div 16), hex_digit (of_char c mod 16)]) s)"

lemma digit_val_hex_digit: "d < 16 \<Longrightarrow> digit_val 16 (hex_digit d) = Some d"
  by (auto simp: digit_val_def hex_digit_def)

lemma hex_digit_not_minus: "d < 16 \<Longrightarrow> hex_digit d \<noteq> CHR ''-''"
  using digit_val_hex_digit [of d] by (auto simp: digit_val_def)

lemma hex_pair_encoded:
  "hex_pair (hex_digit (of_char c div 16)) (hex_digit (of_char c mod 16)) = Some (int (of_char c))"
proof -
  define n where "n = (of_char c :: nat)"
  have "n < 256"
    by (simp add: n_def)
  then have "n div 16 < 16"
    by (simp add: less_mult_imp_div_less)
  moreover have "16 * int (n div 16) + int (n mod 16) = int n"
    by (metis mult_div_mod_eq of_nat_add of_nat_mult of_nat_numeral)
  ultimately show ?thesis
    unfolding n_def [symmetric] by (simp add: hex_pair_def digit_val_hex_digit)
qed

lemma char_of_int_of_char: "char_of_int (int (of_char c)) = c"
proof -
  have "(of_char c :: nat) < 256"
    by simp
  then have "int (of_char c) mod 256 = int (of_char c)"
    by (simp only: of_nat_less_iff [where 'a = int, symmetric]) simp
  then show ?thesis
    by (simp add: char_of_int_def del: of_nat_of_char)
qed

text \<open>The text that is sent ends in a character that was not escaped (or is empty).\<close>

definition ends_plain :: "(char \<Rightarrow> bool) \<Rightarrow> string \<Rightarrow> bool" where
  "ends_plain keep s \<longleftrightarrow> s = [] \<or> keep (last s) \<and> last s \<noteq> CHR ''%''"

lemma pct_encode_Cons:
  "pct_encode keep (c # s) =
    (if keep c \<and> c \<noteq> CHR ''%'' then [c]
     else [CHR ''%'', hex_digit (of_char c div 16), hex_digit (of_char c mod 16)]) @ pct_encode keep s"
  by (simp add: pct_encode_def)

lemma unescape_pct_encode: "ends_plain keep s \<Longrightarrow> unescape_ref (pct_encode keep s) = Inr s"
proof (induction s)
  case Nil
  then show ?case by (simp add: pct_encode_def)
next
  case (Cons c s)
  show ?case
  proof (cases "keep c \<and> c \<noteq> CHR ''%''")
    case True
    with Cons show ?thesis
      by (auto simp: pct_encode_Cons ends_plain_def pct_encode_def split: if_splits)
  next
    case False
    with Cons.prems have "s \<noteq> []" and ends: "ends_plain keep s"
      by (auto simp: ends_plain_def split: if_splits)
    then have "pct_encode keep s \<noteq> []"
      by (cases s) (simp_all add: pct_encode_Cons)
    then obtain z zs where "pct_encode keep s = z # zs"
      by (cases "pct_encode keep s") auto
    with Cons.IH [OF ends] show ?thesis
      unfolding pct_encode_Cons if_not_P [OF False]
      by (simp add: hex_pair_encoded char_of_int_of_char del: of_nat_of_char unescape_ref.simps)
        (simp add: hex_pair_encoded char_of_int_of_char del: of_nat_of_char)
  qed
qed

lemma url_unescape_encoded:
  assumes "ends_plain keep s"
  shows "url_unescape (pct_encode keep s) = Inr s"
proof -
  have "pct_encode keep s \<noteq> ''%''"
    using unescape_pct_encode [OF assms] by (auto simp: bad_url_escaping_def)
  then show ?thesis
    by (simp add: url_unescape_eq_ref unescape_pct_encode [OF assms])
qed

section \<open>Properties\<close>

text \<open>
  Unescaping inverts percent encoding: whichever characters the client escapes, and
  whatever bytes the text holds, \<open>url_unescape\<close> returns the original text, as long as its last
  character was not escaped.
\<close>

lemma url_unescape_pct_encode: "ends_plain keep s \<Longrightarrow> url_unescape (pct_encode keep s) = Inr s"
  by (rule url_unescape_encoded)

text \<open>
  C32. What the index loop of \<open>url_unescape\<close> computes, on every input: the left-to-right
  recursion \<open>unescape_ref\<close> (which is undefined for an escape that ends the text), except that
  the one-character text \<open>%\<close> escapes the guard.
\<close>

theorem url_unescape_spec:
  "url_unescape s = (if s = ''%'' then Inl (Undefined ''url_unescape'') else unescape_ref s)"
  by (simp add: url_unescape_percent url_unescape_eq_ref)

text \<open>
  An escape at the end of the text, complete or cut off after its first digit, is not rejected:
  the guard \<^verbatim>\<open>pos > str.size()-2\<close> accepts it, and \<^verbatim>\<open>str[pos+3]\<close> is outside of the view.
\<close>

lemma url_unescape_at_end:
  assumes "CHR ''%'' \<notin> set s" and "length zs = 1 \<or> length zs = 2"
  shows "url_unescape (s @ CHR ''%'' # zs) = Inl (Undefined ''url_unescape'')"
proof -
  have "unescape_ref (CHR ''%'' # zs) = Inl (Undefined ''url_unescape'')"
    using assms(2) by (cases zs; cases "tl zs") auto
  moreover have "s @ CHR ''%'' # zs \<noteq> ''%''"
    using assms(2) by (cases s) auto
  ultimately show ?thesis
    by (simp add: url_unescape_eq_ref unescape_ref_append [OF assms(1)] del: unescape_ref.simps)
qed

end
