(* ===== verification/Field_Map.thy ===== *)
theory Field_Map
  imports Prelude "HOL-Library.Multiset" "HOL-Library.List_Lexorder" "HOL-Library.Char_ord"
begin

text \<open>
  The associative containers of the standard library that hold header fields:
  \<^verbatim>\<open>std::unordered_multimap\<close> (requests), \<^verbatim>\<open>std::multimap\<close> (responses) and
  \<^verbatim>\<open>std::map\<close> (cookies). The interface the parsers rely on is the locale
  \<open>multimap_spec\<close>; both multimaps are interpretations of it.
\<close>

section \<open>What the code relies on\<close>

text \<open>
  A multimap holds a multiset of entries; \<open>emplace\<close> adds one, \<open>find\<close> returns the value of
  some entry with the key (which one is not specified when there are several) and nothing only
  when no entry has the key.
\<close>

locale multimap_spec =
  fixes empty :: "'m"
    and emplace :: "'k \<Rightarrow> 'v \<Rightarrow> 'm \<Rightarrow> 'm"
    and find :: "'k \<Rightarrow> 'm \<Rightarrow> 'v option"
    and elems :: "'m \<Rightarrow> ('k \<times> 'v) multiset"
    and invar :: "'m \<Rightarrow> bool"
  assumes elems_empty: "elems empty = {#}"
    and elems_emplace: "invar m \<Longrightarrow> elems (emplace k v m) = add_mset (k, v) (elems m)"
    and find_Some: "invar m \<Longrightarrow> find k m = Some v \<Longrightarrow> (k, v) \<in># elems m"
    and find_None: "invar m \<Longrightarrow> find k m = None \<Longrightarrow> (k, v) \<notin># elems m"
    and invar_empty: "invar empty"
    and invar_emplace: "invar m \<Longrightarrow> invar (emplace k v m)"
begin

lemmas specs = elems_empty elems_emplace invar_empty invar_emplace

text \<open>The map built by emplacing a list of entries in order.\<close>

definition build :: "('k \<times> 'v) list \<Rightarrow> 'm" where
  "build kvs = foldl (\<lambda>m (k, v). emplace k v m) empty kvs"

lemma foldl_emplace:
  "invar m \<Longrightarrow> invar (foldl (\<lambda>m (k, v). emplace k v m) m kvs) \<and>
    elems (foldl (\<lambda>m (k, v). emplace k v m) m kvs) = elems m + mset kvs"
  by (induction kvs arbitrary: m) (auto simp: specs)

lemma invar_build: "invar (build kvs)" and elems_build: "elems (build kvs) = mset kvs"
  using foldl_emplace [OF invar_empty, of kvs] by (simp_all add: build_def specs)

lemma find_iff: "invar m \<Longrightarrow> find k m = None \<longleftrightarrow> (\<forall>v. (k, v) \<notin># elems m)"
  by (metis find_None find_Some option.exhaust)

lemma find_unique:
  assumes "invar m" and "(k, v) \<in># elems m" and "\<And>v'. (k, v') \<in># elems m \<Longrightarrow> v' = v"
  shows "find k m = Some v"
  using assms find_None find_Some by (metis option.exhaust)

lemma find_build_None: "find k (build kvs) = None \<longleftrightarrow> k \<notin> fst ` set kvs"
  unfolding find_iff [OF invar_build] elems_build by force

text \<open>
  When a key occurs once, every implementation of the interface finds the same value,
  whatever the order in which it keeps equal keys.
\<close>

lemma find_build_distinct:
  assumes "distinct (map fst kvs)"
  shows "find k (build kvs) = map_of kvs k"
proof (cases "map_of kvs k")
  case None
  then have "k \<notin> fst ` set kvs"
    by (simp add: map_of_eq_None_iff)
  with None show ?thesis
    by (simp add: find_build_None)
next
  case (Some v)
  then have mem: "(k, v) \<in># elems (build kvs)"
    by (simp add: elems_build map_of_SomeD)
  have uniq: "v' = v" if "(k, v') \<in># elems (build kvs)" for v'
  proof -
    from that have "(k, v') \<in> set kvs"
      by (simp add: elems_build)
    with assms have "map_of kvs k = Some v'"
      by simp
    with Some show ?thesis by simp
  qed
  from find_unique [OF invar_build mem uniq] Some show ?thesis
    by (simp only:)
qed

end

text \<open>An ordered multimap also fixes the order in which a loop meets the entries.\<close>

locale ordered_multimap_spec = multimap_spec empty emplace find elems invar
  for empty :: "'m" and emplace :: "'k::linorder \<Rightarrow> 'v \<Rightarrow> 'm \<Rightarrow> 'm"
    and find :: "'k \<Rightarrow> 'm \<Rightarrow> 'v option" and elems :: "'m \<Rightarrow> ('k \<times> 'v) multiset"
    and invar :: "'m \<Rightarrow> bool" +
  fixes entries :: "'m \<Rightarrow> ('k \<times> 'v) list"
    and erase :: "'k \<Rightarrow> 'm \<Rightarrow> 'm"
  assumes mset_entries: "mset (entries m) = elems m"
    and sorted_entries: "invar m \<Longrightarrow> sorted (map fst (entries m))"
    and elems_erase: "invar m \<Longrightarrow> elems (erase k m) = filter_mset (\<lambda>p. fst p \<noteq> k) (elems m)"
    and invar_erase: "invar m \<Longrightarrow> invar (erase k m)"
begin

lemma find_erase: "invar m \<Longrightarrow> find k (erase k m) = None"
  by (simp add: find_iff invar_erase elems_erase)

text \<open>Replacing a field: after erasing a key and emplacing it again, the value is found.\<close>

lemma find_replace: "invar m \<Longrightarrow> find k (emplace k v (erase k m)) = Some v"
  by (rule find_unique) (auto simp: invar_erase invar_emplace elems_emplace elems_erase)

lemma count_replace:
  "invar m \<Longrightarrow>
   filter_mset (\<lambda>p. fst p = k) (elems (emplace k v (erase k m))) = {#(k, v)#}"
  by (simp add: invar_erase elems_emplace elems_erase filter_filter_mset)

end

section \<open>std::unordered_multimap\<close>

text \<open>
  The model keeps the entries in the order of insertion, and \<open>find\<close> returns the first one;
  the standard leaves the order of equal keys open.
\<close>

type_synonym ('k, 'v) umultimap = "('k \<times> 'v) list"

definition umm_emplace :: "'k \<Rightarrow> 'v \<Rightarrow> ('k, 'v) umultimap \<Rightarrow> ('k, 'v) umultimap" where
  "umm_emplace k v m = m @ [(k, v)]"

definition umm_find :: "'k \<Rightarrow> ('k, 'v) umultimap \<Rightarrow> 'v option" where
  "umm_find k m = map_of m k"

definition umm_equal_range :: "'k \<Rightarrow> ('k, 'v) umultimap \<Rightarrow> 'v list" where
  "umm_equal_range k m = map snd (filter (\<lambda>p. fst p = k) m)"

interpretation umm: multimap_spec "[]" umm_emplace umm_find mset "\<lambda>_. True"
  by unfold_locales
    (auto simp: umm_emplace_def umm_find_def map_of_eq_None_iff dest: map_of_SomeD
      intro: rev_image_eqI)

lemma umm_equal_range_empty_iff: "umm_equal_range k m = [] \<longleftrightarrow> umm_find k m = None"
  by (auto simp: umm_equal_range_def umm_find_def map_of_eq_None_iff filter_empty_conv)

section \<open>std::multimap\<close>

text \<open>A sorted list; equal keys stay in the order of insertion.\<close>

type_synonym ('k, 'v) omultimap = "('k \<times> 'v) list"

fun omm_emplace :: "'k::linorder \<Rightarrow> 'v \<Rightarrow> ('k, 'v) omultimap \<Rightarrow> ('k, 'v) omultimap" where
  "omm_emplace k v [] = [(k, v)]"
| "omm_emplace k v ((k', v') # m) =
     (if k < k' then (k, v) # (k', v') # m else (k', v') # omm_emplace k v m)"

definition omm_find :: "'k \<Rightarrow> ('k, 'v) omultimap \<Rightarrow> 'v option" where
  "omm_find k m = map_of m k"

definition omm_erase :: "'k \<Rightarrow> ('k, 'v) omultimap \<Rightarrow> ('k, 'v) omultimap" where
  "omm_erase k m = filter (\<lambda>p. fst p \<noteq> k) m"

definition omm_sorted :: "('k::linorder, 'v) omultimap \<Rightarrow> bool" where
  "omm_sorted m \<longleftrightarrow> sorted (map fst m)"

lemma mset_omm_emplace: "mset (omm_emplace k v m) = add_mset (k, v) (mset m)"
  by (induction k v m rule: omm_emplace.induct) auto

lemma set_omm_emplace: "set (omm_emplace k v m) = insert (k, v) (set m)"
  by (simp add: mset_omm_emplace flip: set_mset_mset)

lemma sorted_omm_emplace: "omm_sorted m \<Longrightarrow> omm_sorted (omm_emplace k v m)"
  unfolding omm_sorted_def
  by (induction k v m rule: omm_emplace.induct) (auto simp: set_omm_emplace)

interpretation omm: ordered_multimap_spec "[]" omm_emplace omm_find mset omm_sorted "\<lambda>m. m" omm_erase
proof unfold_locales
  show "omm_sorted (omm_erase k m)" if "omm_sorted m" for k and m :: "('k::linorder, 'v) omultimap"
    using that by (auto simp: omm_sorted_def omm_erase_def intro: sorted_filter)
  show "sorted (map fst m)" if "omm_sorted m" for m :: "('k::linorder, 'v) omultimap"
    using that by (simp add: omm_sorted_def)
  show "omm_sorted []"
    by (simp add: omm_sorted_def)
qed (auto simp: mset_omm_emplace sorted_omm_emplace omm_find_def omm_erase_def
      map_of_eq_None_iff dest: map_of_SomeD intro: rev_image_eqI)

section \<open>std::map::insert\_or\_assign\<close>

fun insert_or_assign :: "'k \<Rightarrow> 'v \<Rightarrow> ('k \<times> 'v) list \<Rightarrow> ('k \<times> 'v) list" where
  "insert_or_assign k v [] = [(k, v)]"
| "insert_or_assign k v ((k', v') # m) =
     (if k = k' then (k, v) # m else (k', v') # insert_or_assign k v m)"

lemma map_of_insert_or_assign: "map_of (insert_or_assign k v m) = (map_of m)(k \<mapsto> v)"
  by (induction k v m rule: insert_or_assign.induct) (auto simp: fun_eq_iff)

lemma fst_insert_or_assign: "fst ` set (insert_or_assign k v m) = insert k (fst ` set m)"
  by (induction k v m rule: insert_or_assign.induct) auto

lemma distinct_insert_or_assign:
  "distinct (map fst m) \<Longrightarrow> distinct (map fst (insert_or_assign k v m))"
  by (induction k v m rule: insert_or_assign.induct) (auto simp: fst_insert_or_assign)

end
