(* ===== verification/Field_Values.thy ===== *)
theory Field_Values
  imports Url Field_Map
begin

text \<open>
  Request.cpp, \<open>extractFieldVals\<close> (lists of values such as \<^verbatim>\<open>a=b; c\<close>) and \<open>parse_fields\<close>
  (header lines). Their positions are \<^verbatim>\<open>unsigned int\<close> variables, so \<^verbatim>\<open>npos\<close> becomes
  \<open>npos32\<close> when it is stored in one. The loops carry fuel, since the 32-bit position would start
  again from 0 on a text of 4 GB; below that the fuel the functions are called with is enough
  (\<open>extractFieldVals_fuel\<close>, \<open>parse_fields_fuel\<close>).
\<close>

section \<open>extractFieldVals\<close>

text \<open>\<^verbatim>\<open>using FieldVal = std::variant<std::string, KV_Pair>\<close>.\<close>

datatype field_val = Single string | KV string string

definition npos32 :: nat where
  "npos32 = 2 ^ 32 - 1"

definition spaces :: string where
  "spaces = [CHR '' '', CHR 0x09]"

definition remove_quots :: "string \<Rightarrow> string" where
  "remove_quots v =
     (if v \<noteq> [] \<and> v ! 0 = CHR 0x22 \<and> v ! (length v - 1) = CHR 0x22
      then take (size_sub (length v) 2) (drop 1 v) else v)"

definition field_of_chunk :: "string \<Rightarrow> field_val result" where
  "field_of_chunk chunk =
     (case find_char (CHR ''='') chunk 0 of
        Some eq_sign \<Rightarrow>
          rbind (url_unescape (remove_quots (take eq_sign chunk))) (\<lambda>k.
          rbind (url_unescape (remove_quots (drop (eq_sign + 1) chunk))) (\<lambda>v. Inr (KV k v)))
      | None \<Rightarrow> rbind (url_unescape (remove_quots chunk)) (\<lambda>s. Inr (Single s)))"

fun extract_loop :: "nat \<Rightarrow> string \<Rightarrow> string \<Rightarrow> nat \<Rightarrow> field_val list \<Rightarrow> (field_val list) result" where
  "extract_loop 0 str delimiters start fields = Inl Out_of_fuel"
| "extract_loop (Suc fuel) str delimiters start fields =
     (let start = (case find_first_not_of spaces str start of None \<Rightarrow> npos32 | Some p \<Rightarrow> to_uint32 p);
          end = find_first_of delimiters str start
      in rbind (substr_to str start end) (\<lambda>chunk.
         if chunk = [] then Inr fields
         else let chunk = take (case find_last_not_of spaces chunk of None \<Rightarrow> 0 | Some i \<Rightarrow> i + 1) chunk
              in if chunk = [] then Inr fields
                 else rbind (field_of_chunk chunk) (\<lambda>f.
                   case end of
                     None \<Rightarrow> Inr (fields @ [f])
                   | Some p \<Rightarrow> extract_loop fuel str delimiters (to_uint32 (p + 1)) (fields @ [f]))))"

definition extractFieldVals :: "string \<Rightarrow> string \<Rightarrow> (field_val list) result" where
  "extractFieldVals str delimiters =
     (if str = [] then Inr [] else extract_loop (Suc (length str)) str delimiters 0 [])"

text \<open>The default argument of \<^verbatim>\<open>delimiter\<close>.\<close>

definition default_delimiters :: string where
  "default_delimiters = '';,''"

section \<open>parse\_fields\<close>

type_synonym field_map = "(string, string) umultimap"

definition illegal_chars :: string where
  "illegal_chars = [CHR '' '', CHR 0x09, CHR 0x0D, CHR 0x0A]"

definition crlf :: string where
  "crlf = [CHR 0x0D, CHR 0x0A]"

definition invalid_request_line :: fault where
  "invalid_request_line = Http_error 400 ''invalid Request-Line''"

text \<open>The body of the loop: one line, without its line end.\<close>

definition parse_field_line :: "string \<Rightarrow> (string \<times> string) result" where
  "parse_field_line line =
     (case find_char (CHR '':'') line 0 of
        None \<Rightarrow> Inl (Http_error 400 ''invalid header field'')
      | Some colon_idx \<Rightarrow>
          if colon_idx = 0 then Inl (Http_error 400 ''invalid header field'')
          else let field_name = to_lower (take colon_idx line)
               in if find_first_of illegal_chars field_name 0 \<noteq> None then Inl invalid_request_line
                  else case find_first_not_of illegal_chars line (colon_idx + 1) of
                         None \<Rightarrow> Inl invalid_request_line
                       | Some field_val_beg \<Rightarrow>
                           (case find_last_not_of illegal_chars line of
                              None \<Rightarrow> Inl invalid_request_line
                            | Some field_val_end \<Rightarrow>
                                if field_val_end < field_val_beg then Inl invalid_request_line
                                else let field_value =
                                       take (field_val_end - field_val_beg + 1) (drop field_val_beg line)
                                     in rbind (url_unescape field_name) (\<lambda>n.
                                        rbind (url_unescape field_value) (\<lambda>v. Inr (n, v)))))"

fun parse_fields_loop :: "nat \<Rightarrow> string \<Rightarrow> nat \<Rightarrow> field_map \<Rightarrow> field_map result" where
  "parse_fields_loop 0 fields pos fields_map = Inl Out_of_fuel"
| "parse_fields_loop (Suc fuel) fields pos fields_map =
     (if pos < length fields
      then case find_sub crlf fields pos of
             None \<Rightarrow> Inr fields_map
           | Some eol \<Rightarrow>
               rbind (substr fields pos (eol - pos)) (\<lambda>line.
               rbind (parse_field_line line) (\<lambda>(n, v).
                 parse_fields_loop fuel fields (to_uint32 (eol + 2)) (umm_emplace n v fields_map)))
      else Inr fields_map)"

definition parse_fields :: "string \<Rightarrow> field_map result" where
  "parse_fields fields = parse_fields_loop (Suc (length fields)) fields 0 []"

declare extract_loop.simps(2) [simp del] parse_fields_loop.simps(2) [simp del]

section \<open>Searching behind a prefix\<close>

lemma find_if_from_suffix:
  "find_if_from P (xs @ ys) (length xs) = map_option (\<lambda>i. length xs + i) (index_of P ys)"
  by (simp add: find_if_from_def)

lemma find_if_from_skip:
  assumes "\<forall>x \<in> set sp. \<not> P x" and "P y"
  shows "find_if_from P (xs @ sp @ y # zs) (length xs) = Some (length xs + length sp)"
  using assms by (simp add: find_if_from_suffix index_of_first)

lemma find_if_from_skip_all:
  assumes "\<forall>x \<in> set sp. \<not> P x"
  shows "find_if_from P (xs @ sp) (length xs) = None"
  using assms by (simp add: find_if_from_suffix index_of_None)

lemma find_if_from_beyond: "length s \<le> start \<Longrightarrow> find_if_from P s start = None"
  by (simp add: find_if_from_def)

lemma find_last_not_of_append:
  assumes "set sp \<subseteq> set cs" and "y \<notin> set cs"
  shows "find_last_not_of cs (xs @ y # sp) = Some (length xs)"
proof -
  have "index_of (\<lambda>x. x \<notin> set cs) (rev sp @ y # rev xs) = Some (length sp)"
    using assms by (subst index_of_first) auto
  then show ?thesis
    by (simp add: find_last_not_of_def)
qed

section \<open>One value of a list\<close>

text \<open>A value is not empty, holds no delimiter and neither starts nor ends with a blank.\<close>

definition plain_value :: "string \<Rightarrow> string \<Rightarrow> bool" where
  "plain_value delimiters tok \<longleftrightarrow>
     tok \<noteq> [] \<and> hd tok \<notin> set spaces \<and> last tok \<notin> set spaces \<and> set tok \<inter> set delimiters = {}"

lemma extract_loop_step:
  assumes tok: "plain_value delimiters tok"
    and sp: "set sp \<subseteq> set spaces" and sp2: "set sp2 \<subseteq> set spaces" "set sp2 \<inter> set delimiters = {}"
    and len: "length (xs @ sp @ tok @ sp2 @ rest) < npos32"
    and rest: "rest = [] \<or> hd rest \<in> set delimiters"
  shows "extract_loop (Suc fuel) (xs @ sp @ tok @ sp2 @ rest) delimiters (length xs) acc =
    rbind (field_of_chunk tok) (\<lambda>f.
      case rest of
        [] \<Rightarrow> Inr (acc @ [f])
      | d # ys \<Rightarrow> extract_loop fuel ((xs @ sp @ tok @ sp2 @ [d]) @ ys) delimiters
                  (length (xs @ sp @ tok @ sp2 @ [d])) (acc @ [f]))"
proof -
  let ?str = "xs @ sp @ tok @ sp2 @ rest"
  let ?start = "length (xs @ sp)"
  obtain t ts where t: "tok = t # ts" and "t \<notin> set spaces"
    using tok by (cases tok) (auto simp: plain_value_def)
  then have "find_first_not_of spaces ?str (length xs) = Some (length xs + length sp)"
    using sp by (auto simp: find_first_not_of_def intro!: find_if_from_skip [of sp _ t xs "ts @ sp2 @ rest"])
  moreover have "to_uint32 (length xs + length sp) = ?start"
    using len by (simp add: npos32_def)
  ultimately have start: "(case find_first_not_of spaces ?str (length xs) of
      None \<Rightarrow> npos32 | Some p \<Rightarrow> to_uint32 p) = ?start"
    by simp
  have no_delim: "\<forall>x \<in> set (tok @ sp2). x \<notin> set delimiters"
    using tok sp2(2) by (auto simp: plain_value_def)
  have fin: "find_first_of delimiters ?str ?start =
      (case rest of [] \<Rightarrow> None | d # ys \<Rightarrow> Some (?start + length (tok @ sp2)))"
  proof (cases rest)
    case Nil
    then show ?thesis
      using find_if_from_skip_all [of "tok @ sp2" "\<lambda>x. x \<in> set delimiters" "xs @ sp"] no_delim
      by (simp add: find_first_of_def)
  next
    case (Cons d ys)
    with rest find_if_from_skip [of "tok @ sp2" "\<lambda>x. x \<in> set delimiters" d "xs @ sp" ys] no_delim
    show ?thesis by (simp add: find_first_of_def)
  qed
  have chunk: "substr_to ?str ?start
      (case rest of [] \<Rightarrow> None | d # ys \<Rightarrow> Some (?start + length (tok @ sp2))) = Inr (tok @ sp2)"
    by (cases rest) (simp_all add: substr_to_def substr_def substr_from_def)
  obtain us u where u: "tok = us @ [u]" and "u \<notin> set spaces"
    using tok by (cases tok rule: rev_cases) (auto simp: plain_value_def)
  then have trim: "take (case find_last_not_of spaces (tok @ sp2) of None \<Rightarrow> 0 | Some i \<Rightarrow> i + 1) (tok @ sp2) = tok"
    using find_last_not_of_append [OF sp2(1), of u us] by simp
  have next_pos: "to_uint32 (?start + length (tok @ sp2) + 1) = length (xs @ sp @ tok @ sp2 @ [d])"
    if "rest = d # ys" for d ys
    using len that by (simp add: npos32_def)
  show ?thesis
    unfolding extract_loop.simps(2) Let_def start fin chunk rbind_Inr trim
    using tok next_pos by (cases rest) (simp_all add: plain_value_def)
qed

text \<open>Blanks up to the end of the text: \<^verbatim>\<open>npos\<close> is cut to 32 bits and \<^verbatim>\<open>substr\<close> throws.\<close>

lemma extract_loop_blank:
  assumes "set sp \<subseteq> set spaces" and "length (xs @ sp) < npos32"
  shows "extract_loop (Suc fuel) (xs @ sp) delimiters (length xs) acc = Inl out_of_range"
proof -
  have "find_first_not_of spaces (xs @ sp) (length xs) = None"
    using assms(1) by (auto simp: find_first_not_of_def intro!: find_if_from_skip_all)
  moreover have "find_first_of delimiters (xs @ sp) npos32 = None"
    using assms(2) by (simp add: find_first_of_def find_if_from_beyond)
  ultimately show ?thesis
    using assms(2) by (simp add: extract_loop.simps(2) substr_to_def substr_from_def)
qed

section \<open>Lists of values\<close>

text \<open>The values of a list, read one after the other; the first fault ends the reading.\<close>

fun read_values :: "string list \<Rightarrow> (field_val list) result" where
  "read_values [] = Inr []"
| "read_values (t # ts) = rbind (field_of_chunk t) (\<lambda>f. rbind (read_values ts) (\<lambda>fs. Inr (f # fs)))"

text \<open>A list written with one delimiter and any blanks behind it.\<close>

fun join_values :: "string \<Rightarrow> string list \<Rightarrow> string" where
  "join_values sep [] = []"
| "join_values sep [t] = t"
| "join_values sep (t # ts) = t @ sep @ join_values sep ts"

lemma join_values_cons: "ts \<noteq> [] \<Longrightarrow> join_values sep (t # ts) = t @ sep @ join_values sep ts"
  by (cases ts) simp_all

lemma extract_loop_list:
  assumes "toks \<noteq> []" and "\<forall>t \<in> set toks. plain_value delimiters t"
    and "d \<in> set delimiters" and "set sp \<subseteq> set spaces" and "set pre \<subseteq> set spaces"
    and "length (xs @ pre @ join_values (d # sp) toks @ tail) < npos32"
    and "tail = [] \<or> tail = [d]" and "length toks < fuel"
  shows "extract_loop fuel (xs @ pre @ join_values (d # sp) toks @ tail) delimiters (length xs) acc =
    rbind (read_values toks) (\<lambda>fs. if tail = [] then Inr (acc @ fs) else Inl out_of_range)"
  using assms
proof (induction toks arbitrary: xs pre acc fuel rule: list_nonempty_induct)
  case (single t)
  then obtain f1 where f1: "fuel = Suc (Suc f1)"
    by (cases fuel; cases "fuel - 1") auto
  have plain: "plain_value delimiters t" and len: "length (xs @ pre @ t @ tail) < npos32"
    using single.prems by simp_all
  consider "tail = []" | "tail = [d]"
    using single.prems by blast
  then show ?case
  proof cases
    case 1
    with extract_loop_step [OF plain, of pre "[]" xs tail "Suc f1" acc] single.prems len f1
    show ?thesis by (simp add: rbind_assoc)
  next
    case 2
    have "extract_loop (Suc f1) (xs @ pre @ t @ [d]) delimiters (length (xs @ pre @ t @ [d])) a =
        Inl out_of_range" for a
      using extract_loop_blank [of "[]" "xs @ pre @ t @ [d]"] len 2 by simp
    with extract_loop_step [OF plain, of pre "[]" xs tail "Suc f1" acc] single.prems len f1 2
    show ?thesis by (simp add: rbind_assoc)
  qed
next
  case (cons t ts)
  then obtain f1 where f1: "fuel = Suc f1"
    by (cases fuel) auto
  let ?rest = "join_values (d # sp) ts @ tail"
  have "extract_loop fuel (xs @ pre @ t @ d # sp @ ?rest) delimiters (length xs) acc =
      rbind (field_of_chunk t) (\<lambda>f. extract_loop f1 ((xs @ pre @ t @ [d]) @ sp @ ?rest) delimiters
        (length (xs @ pre @ t @ [d])) (acc @ [f]))"
    using extract_loop_step [of delimiters t pre "[]" xs "d # sp @ ?rest" f1 acc] cons.prems cons.hyps f1
    by (simp add: join_values_cons)
  also have "\<dots> = rbind (field_of_chunk t) (\<lambda>f. rbind (read_values ts)
      (\<lambda>fs. if tail = [] then Inr ((acc @ [f]) @ fs) else Inl out_of_range))"
  proof (rule rbind_cong [OF refl])
    fix f
    show "extract_loop f1 ((xs @ pre @ t @ [d]) @ sp @ ?rest) delimiters
        (length (xs @ pre @ t @ [d])) (acc @ [f]) =
      rbind (read_values ts) (\<lambda>fs. if tail = [] then Inr ((acc @ [f]) @ fs) else Inl out_of_range)"
      by (rule cons.IH) (use cons.prems cons.hyps f1 in \<open>auto simp: join_values_cons\<close>)
  qed
  finally show ?case
    using cons.hyps by (simp add: rbind_assoc join_values_cons cong: if_cong)
qed

lemma length_join_values: "\<forall>t \<in> set toks. t \<noteq> [] \<Longrightarrow> length toks \<le> length (join_values sep toks)"
proof (induction sep toks rule: join_values.induct)
  case (3 sep t u us)
  then have "1 \<le> length t" and "length (u # us) \<le> length (join_values sep (u # us))"
    by (simp_all add: Suc_le_eq)
  then have "length (t # u # us) \<le> length t + length (join_values sep (u # us))"
    by simp
  then show ?case by simp
qed (auto simp: Suc_le_eq)

lemma extractFieldVals_list:
  assumes "toks \<noteq> []" and "\<forall>t \<in> set toks. plain_value delimiters t"
    and "d \<in> set delimiters" and "set sp \<subseteq> set spaces"
    and "length (join_values (d # sp) toks @ tail) < npos32" and "tail = [] \<or> tail = [d]"
  shows "extractFieldVals (join_values (d # sp) toks @ tail) delimiters =
    rbind (read_values toks) (\<lambda>fs. if tail = [] then Inr fs else Inl out_of_range)"
proof -
  have len: "length toks \<le> length (join_values (d # sp) toks)"
    using assms(2) by (intro length_join_values) (auto simp: plain_value_def)
  with assms(1) have "join_values (d # sp) toks \<noteq> []"
    by (cases toks) auto
  with extract_loop_list [of toks delimiters d sp "[]" "[]" tail _ "[]"] assms len show ?thesis
    by (simp add: extractFieldVals_def cong: if_cong)
qed

text \<open>The values a client writes: names and values without escapes, quotes or equal signs.\<close>

definition value_text :: "field_val \<Rightarrow> string" where
  "value_text f = (case f of Single s \<Rightarrow> s | KV k v \<Rightarrow> k @ CHR ''='' # v)"

definition clean_text :: "string \<Rightarrow> bool" where
  "clean_text s \<longleftrightarrow> set s \<inter> {CHR ''%'', CHR ''='', CHR 0x22} = {}"

definition clean_value :: "string \<Rightarrow> field_val \<Rightarrow> bool" where
  "clean_value delimiters f \<longleftrightarrow> plain_value delimiters (value_text f) \<and>
     (case f of Single s \<Rightarrow> clean_text s | KV k v \<Rightarrow> clean_text k \<and> clean_text v)"

lemma remove_quots_clean: "clean_text s \<Longrightarrow> remove_quots s = s"
  by (cases s) (auto simp: remove_quots_def clean_text_def)

lemma unescape_clean: "clean_text s \<Longrightarrow> url_unescape (remove_quots s) = Inr s"
  by (simp add: remove_quots_clean) (simp add: clean_text_def)

lemma field_of_clean_value: "clean_value delimiters f \<Longrightarrow> field_of_chunk (value_text f) = Inr f"
proof (cases f)
  case (Single s)
  assume "clean_value delimiters f"
  with Single have clean: "clean_text s"
    by (simp add: clean_value_def)
  then have "find_char CHR ''='' s 0 = None"
    by (intro find_char_none) (auto simp: clean_text_def)
  with clean Single show ?thesis
    by (simp add: value_text_def field_of_chunk_def unescape_clean)
next
  case (KV k v)
  assume "clean_value delimiters f"
  with KV have clean: "clean_text k" "clean_text v"
    by (simp_all add: clean_value_def)
  then have "find_char CHR ''='' (k @ CHR ''='' # v) 0 = Some (length k)"
    by (intro find_char_at) (auto simp: clean_text_def)
  with clean KV show ?thesis
    by (simp add: value_text_def field_of_chunk_def unescape_clean)
qed

lemma read_clean_values:
  "\<forall>f \<in> set fs. clean_value delimiters f \<Longrightarrow> read_values (map value_text fs) = Inr fs"
  by (induction fs) (auto simp: field_of_clean_value)

subsection \<open>Quoted values\<close>

text \<open>
  A client may put a value (the text behind the equal sign, if there is one) in quotes, as in
  \<^verbatim>\<open>name="a"\<close>; it may then hold equal signs, quotes and outer blanks, but no delimiter, since
  the search for the next delimiter does not look at quotes.
\<close>

definition in_quotes :: "string \<Rightarrow> string" where
  "in_quotes s = CHR 0x22 # s @ [CHR 0x22]"

definition written_text :: "bool \<times> field_val \<Rightarrow> string" where
  "written_text w =
     (if fst w then case snd w of Single s \<Rightarrow> in_quotes s | KV k v \<Rightarrow> k @ CHR ''='' # in_quotes v
      else value_text (snd w))"

definition clean_written :: "string \<Rightarrow> bool \<times> field_val \<Rightarrow> bool" where
  "clean_written delimiters w \<longleftrightarrow>
     plain_value delimiters (written_text w) \<and>
     (if fst w then case snd w of Single s \<Rightarrow> set s \<inter> {CHR ''%'', CHR ''=''} = {}
                              | KV k v \<Rightarrow> clean_text k \<and> CHR ''%'' \<notin> set v
      else clean_value delimiters (snd w))"

lemma remove_quots_in_quotes: "remove_quots (in_quotes s) = s"
  by (simp add: remove_quots_def in_quotes_def nth_append)

lemma field_of_written: "clean_written delimiters w \<Longrightarrow> field_of_chunk (written_text w) = Inr (snd w)"
proof (cases "fst w")
  case False
  then show "clean_written delimiters w \<Longrightarrow> ?thesis"
    by (auto simp: clean_written_def written_text_def intro: field_of_clean_value)
next
  case True
  assume clean: "clean_written delimiters w"
  show ?thesis
  proof (cases "snd w")
    case (Single s)
    with True clean have "find_char CHR ''='' (in_quotes s) 0 = None"
      by (intro find_char_none) (auto simp: clean_written_def in_quotes_def)
    with True Single clean show ?thesis
      by (simp add: clean_written_def written_text_def field_of_chunk_def remove_quots_in_quotes)
  next
    case (KV k v)
    with True clean have k: "clean_text k" "CHR ''%'' \<notin> set v"
      by (simp_all add: clean_written_def)
    then have "find_char CHR ''='' (k @ CHR ''='' # in_quotes v) 0 = Some (length k)"
      by (intro find_char_at) (auto simp: clean_text_def)
    with True KV k show ?thesis
      by (simp add: written_text_def field_of_chunk_def remove_quots_in_quotes unescape_clean)
  qed
qed

lemma read_written_values:
  "\<forall>w \<in> set ws. clean_written delimiters w \<Longrightarrow> read_values (map written_text ws) = Inr (map snd ws)"
  by (induction ws) (auto simp: field_of_written)

text \<open>A delimiter in the quotes ends the value: its first part keeps the opening quote.\<close>

lemma extractFieldVals_quoted_delimiter:
  assumes "plain_value delimiters (k @ CHR ''='' # CHR 0x22 # a)" and "plain_value delimiters (b @ [CHR 0x22])"
    and "clean_text k" and "clean_text a" and "a \<noteq> []" and "clean_text b" and "b \<noteq> []"
    and "d \<in> set delimiters" and "length (k @ CHR ''='' # in_quotes (a @ d # b)) < npos32"
  shows "extractFieldVals (k @ CHR ''='' # in_quotes (a @ d # b)) delimiters =
    Inr [KV k (CHR 0x22 # a), Single (b @ [CHR 0x22])]"
proof -
  have "last a \<noteq> CHR 0x22" "hd b \<noteq> CHR 0x22"
    using assms(4-7) hd_in_set [of b] last_in_set [of a] by (metis clean_text_def disjoint_insert(1))+
  then have "remove_quots (CHR 0x22 # a) = CHR 0x22 # a" "remove_quots (b @ [CHR 0x22]) = b @ [CHR 0x22]"
    using assms(5,7) by (auto simp: remove_quots_def nth_append last_conv_nth hd_conv_nth)
  moreover have "find_char CHR ''='' (k @ CHR ''='' # CHR 0x22 # a) 0 = Some (length k)"
    using assms(3) by (intro find_char_at) (auto simp: clean_text_def)
  moreover have "find_char CHR ''='' (b @ [CHR 0x22]) 0 = None"
    using assms(6) by (intro find_char_none) (auto simp: clean_text_def)
  ultimately have "read_values [k @ CHR ''='' # CHR 0x22 # a, b @ [CHR 0x22]] =
      Inr [KV k (CHR 0x22 # a), Single (b @ [CHR 0x22])]"
    using assms(3,4,6) by (simp add: field_of_chunk_def unescape_clean) (simp add: clean_text_def)
  moreover have "join_values [d] [k @ CHR ''='' # CHR 0x22 # a, b @ [CHR 0x22]] =
      k @ CHR ''='' # in_quotes (a @ d # b)"
    by (simp add: in_quotes_def)
  ultimately show ?thesis
    using extractFieldVals_list [of "[k @ CHR ''='' # CHR 0x22 # a, b @ [CHR 0x22]]" delimiters d "[]" "[]"]
      assms(1,2,8,9) by simp
qed

section \<open>Termination: the fuel is enough\<close>

lemma hex_escape_fuel: "hex_escape s pos \<noteq> Inl Out_of_fuel"
  by (auto simp: hex_escape_def bad_url_escaping_def split: prod.splits errc.splits)

lemma unescape_ref_fuel: "unescape_ref s \<noteq> Inl Out_of_fuel"
proof (induction s rule: length_induct)
  case (1 s)
  show ?case
  proof (cases s)
    case (Cons c cs)
    with 1 have "unescape_ref cs \<noteq> Inl Out_of_fuel"
      and "\<And>a b z zs. cs = a # b # z # zs \<Longrightarrow> unescape_ref (z # zs) \<noteq> Inl Out_of_fuel"
      by (simp_all del: unescape_ref.simps)
    then show ?thesis
      unfolding Cons unescape_ref.simps(2) [of c cs]
      by (auto simp: rbind_eq_Inl_iff bad_url_escaping_def simp del: unescape_ref.simps
          split: list.splits option.splits)
  qed simp
qed

lemma url_unescape_fuel: "url_unescape s \<noteq> Inl Out_of_fuel"
  by (cases "s = ''%''") (simp_all add: url_unescape_percent url_unescape_eq_ref unescape_ref_fuel)

lemma field_of_chunk_fuel: "field_of_chunk t \<noteq> Inl Out_of_fuel"
  by (auto simp: field_of_chunk_def rbind_eq_Inl_iff url_unescape_fuel split: option.splits)

lemma extract_loop_fuel:
  "length str < npos32 \<Longrightarrow> start \<le> length str \<Longrightarrow> length str - start < fuel \<Longrightarrow>
   extract_loop fuel str delimiters start acc \<noteq> Inl Out_of_fuel"
proof (induction fuel arbitrary: start acc)
  case 0
  then show ?case by simp
next
  case (Suc fuel)
  define s1 where "s1 = (case find_first_not_of spaces str start of None \<Rightarrow> npos32 | Some p \<Rightarrow> to_uint32 p)"
  define e where "e = find_first_of delimiters str s1"
  have later: "extract_loop fuel str delimiters (to_uint32 (p + 1)) a \<noteq> Inl Out_of_fuel"
    if "e = Some p" for p a
  proof -
    from that have p: "s1 \<le> p" "p < length str"
      by (auto simp: e_def dest: find_first_of_bounds)
    with Suc.prems(1) have "start \<le> s1"
      by (auto simp: s1_def npos32_def split: option.splits dest: find_first_not_of_bounds)
    moreover have "to_uint32 (p + 1) = p + 1"
      using p Suc.prems(1) by (simp add: npos32_def)
    ultimately show ?thesis
      using Suc.IH [of "p + 1"] p Suc.prems by simp
  qed
  have sub: "substr_to str s1 e \<noteq> Inl Out_of_fuel"
    by (auto simp: substr_to_def substr_def substr_from_def out_of_range_def split: option.splits)
  show ?case
    unfolding extract_loop.simps(2) Let_def s1_def [symmetric] e_def [symmetric]
    using later sub by (auto simp: rbind_eq_Inl_iff field_of_chunk_fuel split: option.splits if_splits)
qed

lemma extractFieldVals_fuel:
  "length str < npos32 \<Longrightarrow> extractFieldVals str delimiters \<noteq> Inl Out_of_fuel"
  by (simp add: extractFieldVals_def extract_loop_fuel)

text \<open>More fuel does not change an outcome.\<close>

lemma extract_loop_more_fuel:
  "extract_loop fuel str delimiters start acc \<noteq> Inl Out_of_fuel \<Longrightarrow>
   extract_loop (Suc fuel) str delimiters start acc = extract_loop fuel str delimiters start acc"
proof (induction fuel arbitrary: start acc)
  case 0
  then show ?case by simp
next
  case (Suc fuel)
  from Suc.prems show ?case
    unfolding extract_loop.simps(2) [of "Suc fuel" str delimiters start acc]
      extract_loop.simps(2) [of fuel str delimiters start acc] Let_def
    by (intro rbind_cong refl if_cong option.case_cong Suc.IH) (auto simp: rbind_eq_Inl_iff)
qed

lemma parse_field_line_fuel: "parse_field_line line \<noteq> Inl Out_of_fuel"
  by (auto simp: parse_field_line_def rbind_eq_Inl_iff url_unescape_fuel invalid_request_line_def Let_def
      split: option.splits)

lemma parse_fields_loop_fuel:
  "length fields < npos32 \<Longrightarrow> length fields - pos < fuel \<Longrightarrow>
   parse_fields_loop fuel fields pos m \<noteq> Inl Out_of_fuel"
proof (induction fuel arbitrary: pos m)
  case 0
  then show ?case by simp
next
  case (Suc fuel)
  have "parse_fields_loop fuel fields (to_uint32 (eol + 2)) m' \<noteq> Inl Out_of_fuel"
    if "find_sub crlf fields pos = Some eol" and "pos < length fields" for eol m'
  proof -
    from that have eol: "pos \<le> eol" "eol + 2 \<le> length fields"
      by (auto dest: find_sub_bounds simp: crlf_def)
    with Suc.prems(1) have "to_uint32 (eol + 2) = eol + 2"
      by (simp add: npos32_def)
    with eol that Suc.prems show ?thesis
      by (simp add: Suc.IH)
  qed
  then show ?case
    by (auto simp: parse_fields_loop.simps(2) rbind_eq_Inl_iff parse_field_line_fuel substr_def
        out_of_range_def split: option.splits if_splits)
qed

lemma parse_fields_fuel: "length fields < npos32 \<Longrightarrow> parse_fields fields \<noteq> Inl Out_of_fuel"
  by (simp add: parse_fields_def parse_fields_loop_fuel)

section \<open>Values are no longer than their source\<close>

lemma length_unescape_ref: "unescape_ref s = Inr r \<Longrightarrow> length r \<le> length s"
proof (induction s arbitrary: r rule: length_induct)
  case (1 s)
  show ?case
  proof (cases s)
    case (Cons c cs)
    have plain: "length r' \<le> length cs" if "unescape_ref cs = Inr r'" for r'
      using 1 that by (simp add: Cons del: unescape_ref.simps)
    have escape: "length r' \<le> length (z # zs)"
      if "cs = a # b # z # zs" "unescape_ref (z # zs) = Inr r'" for a b z zs r'
      using 1(1) [rule_format, of "z # zs"] that by (simp add: Cons del: unescape_ref.simps)
    from 1(2) show ?thesis
      unfolding Cons unescape_ref.simps(2) [of c cs]
      by (auto simp: rbind_eq_Inr_iff simp del: unescape_ref.simps split: if_splits list.splits option.splits
          dest!: plain escape)
  qed (use 1 in simp)
qed

lemma length_url_unescape: "url_unescape s = Inr r \<Longrightarrow> length r \<le> length s"
  by (cases "s = ''%''") (simp_all add: url_unescape_percent url_unescape_eq_ref length_unescape_ref)

lemma length_parse_field_line: "parse_field_line line = Inr (n, v) \<Longrightarrow> length v \<le> length line"
  by (auto simp: parse_field_line_def rbind_eq_Inr_iff Let_def split: option.splits if_splits
      dest!: length_url_unescape)

definition small_values :: "nat \<Rightarrow> field_map \<Rightarrow> bool" where
  "small_values n m \<longleftrightarrow> (\<forall>kv \<in> set m. length (snd kv) \<le> n)"

lemma parse_fields_loop_small:
  "parse_fields_loop fuel fields pos m = Inr m' \<Longrightarrow> small_values (length fields) m \<Longrightarrow>
   small_values (length fields) m'"
proof (induction fuel arbitrary: pos m)
  case (Suc fuel)
  show ?case
  proof (cases "pos < length fields \<and> find_sub crlf fields pos \<noteq> None")
    case False
    with Suc.prems show ?thesis
      by (auto simp: parse_fields_loop.simps(2) split: if_splits option.splits)
  next
    case True
    then obtain eol where "find_sub crlf fields pos = Some eol" "pos < length fields"
      by auto
    with Suc.prems(1) obtain line n v where line: "substr fields pos (eol - pos) = Inr line"
      "parse_field_line line = Inr (n, v)"
      "parse_fields_loop fuel fields (to_uint32 (eol + 2)) (umm_emplace n v m) = Inr m'"
      by (auto simp: parse_fields_loop.simps(2) rbind_eq_Inr_iff)
    have "length v \<le> length fields"
      using length_parse_field_line [OF line(2)] line(1) by (auto simp: substr_def split: if_splits)
    with Suc.prems(2) have "small_values (length fields) (umm_emplace n v m)"
      by (auto simp: small_values_def umm_emplace_def)
    from Suc.IH [OF line(3) this] show ?thesis .
  qed
qed simp

lemma parse_fields_small: "parse_fields fields = Inr m \<Longrightarrow> small_values (length fields) m"
  unfolding parse_fields_def by (erule parse_fields_loop_small) (simp add: small_values_def)

lemma small_values_find: "small_values n m \<Longrightarrow> umm_find k m = Some v \<Longrightarrow> length v \<le> n"
  by (force simp: small_values_def umm_find_def dest!: map_of_SomeD)

lemma small_values_range: "small_values n m \<Longrightarrow> v \<in> set (umm_equal_range k m) \<Longrightarrow> length v \<le> n"
  by (auto simp: small_values_def umm_equal_range_def)

section \<open>Header lines\<close>

lemma index_sub_first:
  "c \<notin> set xs \<Longrightarrow> index_sub (c # pat) (xs @ c # pat @ ys) = Some (length xs)"
proof (induction xs)
  case Nil
  then show ?case by simp
next
  case (Cons x xs)
  then show ?case by auto
qed

lemma index_sub_none: "c \<notin> set xs \<Longrightarrow> index_sub (c # pat) xs = None"
  by (induction xs) auto

lemma find_sub_suffix:
  "find_sub pat (xs @ ys) (length xs) = map_option (\<lambda>i. length xs + i) (index_sub pat ys)"
  by (simp add: find_sub_def)

lemma parse_fields_loop_line:
  assumes "CHR 0x0D \<notin> set line" and "length (xs @ line @ crlf @ rest) < npos32"
  shows "parse_fields_loop (Suc fuel) (xs @ line @ crlf @ rest) (length xs) m =
    rbind (parse_field_line line) (\<lambda>(n, v).
      parse_fields_loop fuel ((xs @ line @ crlf) @ rest) (length (xs @ line @ crlf)) (umm_emplace n v m))"
proof -
  have "index_sub crlf (line @ crlf @ rest) = Some (length line)"
    using index_sub_first [OF assms(1), of "[CHR 0x0A]" rest] by (simp add: crlf_def)
  then have "find_sub crlf (xs @ line @ crlf @ rest) (length xs) = Some (length xs + length line)"
    by (simp add: find_sub_suffix)
  moreover have "to_uint32 (length xs + length line + 2) = length (xs @ line @ crlf)"
    using assms(2) by (simp add: npos32_def crlf_def)
  moreover have "length xs < length (xs @ line @ crlf @ rest)"
    by (simp add: crlf_def)
  ultimately show ?thesis
    by (simp add: parse_fields_loop.simps(2) substr_def)
qed

fun read_lines :: "string list \<Rightarrow> field_map result" where
  "read_lines [] = Inr []"
| "read_lines (l # ls) = rbind (parse_field_line l) (\<lambda>nv. rbind (read_lines ls) (\<lambda>r. Inr (nv # r)))"

lemma parse_fields_loop_lines:
  "\<forall>l \<in> set lines. CHR 0x0D \<notin> set l \<Longrightarrow> CHR 0x0D \<notin> set tail \<Longrightarrow>
   length (xs @ concat (map (\<lambda>l. l @ crlf) lines) @ tail) < npos32 \<Longrightarrow> length lines < fuel \<Longrightarrow>
   parse_fields_loop fuel (xs @ concat (map (\<lambda>l. l @ crlf) lines) @ tail) (length xs) m =
     rbind (read_lines lines) (\<lambda>r. Inr (m @ r))"
proof (induction lines arbitrary: xs m fuel)
  case Nil
  then obtain f where "fuel = Suc f"
    by (cases fuel) auto
  moreover have "index_sub crlf tail = None"
    using Nil by (simp add: crlf_def index_sub_none)
  ultimately show ?case
    by (simp add: parse_fields_loop.simps(2) find_sub_suffix)
next
  case (Cons l ls)
  then obtain f where f: "fuel = Suc f"
    by (cases fuel) auto
  let ?rest = "concat (map (\<lambda>l. l @ crlf) ls) @ tail"
  have "parse_fields_loop f ((xs @ l @ crlf) @ ?rest) (length (xs @ l @ crlf)) m' =
      rbind (read_lines ls) (\<lambda>r. Inr (m' @ r))" for m'
    by (rule Cons.IH) (use Cons.prems f in auto)
  then show ?case
    using Cons.prems f parse_fields_loop_line [of l xs ?rest f m]
    by (simp add: umm_emplace_def rbind_assoc split_def)
qed

text \<open>A block of lines is read line by line; what follows the last line end is ignored.\<close>

lemma parse_fields_lines:
  assumes "\<forall>l \<in> set lines. CHR 0x0D \<notin> set l" and "CHR 0x0D \<notin> set tail"
    and "length (concat (map (\<lambda>l. l @ crlf) lines) @ tail) < npos32"
  shows "parse_fields (concat (map (\<lambda>l. l @ crlf) lines) @ tail) = read_lines lines"
proof -
  have "length lines \<le> length (concat (map (\<lambda>l. l @ crlf) lines))"
    by (induction lines) (auto simp: crlf_def)
  with parse_fields_loop_lines [of lines tail "[]" _ "[]"] assms show ?thesis
    by (cases "read_lines lines") (simp_all add: parse_fields_def)
qed

text \<open>The line \<^verbatim>\<open>name: value\<close> of a well-formed field.\<close>

definition field_line :: "string \<times> string \<Rightarrow> string" where
  "field_line nv = fst nv @ '': '' @ snd nv"

definition clean_field :: "string \<times> string \<Rightarrow> bool" where
  "clean_field nv \<longleftrightarrow>
     fst nv \<noteq> [] \<and> set (fst nv) \<inter> ({CHR '':'', CHR ''%''} \<union> set illegal_chars) = {} \<and>
     snd nv \<noteq> [] \<and> hd (snd nv) \<notin> set illegal_chars \<and> last (snd nv) \<notin> set illegal_chars \<and>
     set (snd nv) \<inter> {CHR ''%'', CHR 0x0D} = {}"

lemma tolower_special:
  "c \<in> insert CHR ''%'' (set illegal_chars) \<Longrightarrow> tolower x = c \<Longrightarrow> x = c"
  by (auto simp: tolower_def illegal_chars_def Let_def split: if_splits)
    (auto dest!: arg_cong [of _ _ "of_char :: char \<Rightarrow> nat"])

lemma parse_clean_field:
  assumes "clean_field nv"
  shows "parse_field_line (field_line nv) = Inr (to_lower (fst nv), snd nv)"
proof -
  obtain n v where nv: "nv = (n, v)"
    by (cases nv)
  note clean = assms [unfolded nv clean_field_def fst_conv snd_conv]
  obtain h t where v: "v = h # t" and h: "h \<notin> set illegal_chars"
    using clean by (cases v) auto
  obtain us u where v': "v = us @ [u]" and u: "u \<notin> set illegal_chars"
    using clean by (cases v rule: rev_cases) auto
  let ?line = "n @ CHR '':'' # CHR '' '' # v"
  have colon: "find_char CHR '':'' ?line 0 = Some (length n)"
    using clean by (intro find_char_at) auto
  have name: "x \<notin> insert CHR ''%'' (set illegal_chars)" if "x \<in> set (to_lower n)" for x
  proof
    assume special: "x \<in> insert CHR ''%'' (set illegal_chars)"
    from that obtain y where y: "y \<in> set n" "tolower y = x"
      by (auto simp: to_lower_def)
    from special y(2) have "y = x"
      by (rule tolower_special)
    with y special clean show False
      by auto
  qed
  then have illegal: "find_first_of illegal_chars (to_lower n) 0 = None"
    by (auto simp: find_first_of_def find_if_from_None)
  have beg: "find_first_not_of illegal_chars ?line (Suc (length n)) = Some (length n + 2)"
    using find_if_from_skip [of "[CHR '' '']" "\<lambda>x. x \<notin> set illegal_chars" h "n @ '':''" t] h
    by (simp add: find_first_not_of_def v) (simp add: illegal_chars_def)
  have fin: "find_last_not_of illegal_chars ?line = Some (Suc (length n + length v))"
    using find_last_not_of_append [of "[]" illegal_chars u "n @ '': '' @ us"] u by (simp add: v')
  have "url_unescape (to_lower n) = Inr (to_lower n)" and "url_unescape v = Inr v"
    using name clean by (auto intro!: url_unescape_plain)
  moreover have "take (Suc (length n + length v) - (length n + 2) + 1) v = v"
    using v by simp
  ultimately show ?thesis
    using clean by (simp add: nv field_line_def parse_field_line_def colon illegal beg fin Let_def)
qed

lemma clean_value_plain: "clean_value delimiters f \<Longrightarrow> plain_value delimiters (value_text f)"
  by (simp add: clean_value_def)

lemma read_clean_fields:
  "\<forall>nv \<in> set fs. clean_field nv \<Longrightarrow>
   read_lines (map field_line fs) = Inr (map (\<lambda>nv. (to_lower (fst nv), snd nv)) fs)"
  by (induction fs) (auto simp: parse_clean_field)

lemma field_line_no_cr: "clean_field nv \<Longrightarrow> CHR 0x0D \<notin> set (field_line nv)"
  by (auto simp: clean_field_def field_line_def illegal_chars_def)

lemma parse_fields_clean:
  assumes "\<forall>nv \<in> set fs. clean_field nv" and "CHR 0x0D \<notin> set tail"
    and "length (concat (map (\<lambda>nv. field_line nv @ crlf) fs) @ tail) < npos32"
  shows "parse_fields (concat (map (\<lambda>nv. field_line nv @ crlf) fs) @ tail) =
    Inr (map (\<lambda>nv. (to_lower (fst nv), snd nv)) fs)"
  using parse_fields_lines [of "map field_line fs" tail] assms
  by (simp add: field_line_no_cr read_clean_fields comp_def)

section \<open>Blocks of lines\<close>

lemma index_sub_append: "index_sub pat xs = Some i \<Longrightarrow> index_sub pat (xs @ ys) = Some i"
proof (induction xs arbitrary: i)
  case Nil
  then show ?case by (cases ys) (auto split: if_splits)
next
  case (Cons x xs)
  show ?case
  proof (cases "take (length pat) (x # xs) = pat")
    case True
    then have "length pat \<le> length (x # xs)"
      by (metis length_take min.cobounded1)
    with True Cons.prems show ?thesis
      by (simp del: take_Suc_Cons add: take_append) (cases pat; simp)
  next
    case False
    with Cons.prems obtain k where k: "index_sub pat xs = Some k" "i = Suc k"
      by auto
    then have "length pat \<le> length (x # xs)"
      using index_sub_bound [OF k(1)] by simp
    then have "take (length pat) (x # xs @ ys) = take (length pat) (x # xs)"
      using take_append [of "length pat" "x # xs" ys] by simp
    with False k Cons.IH show ?thesis by simp
  qed
qed

lemma index_sub_skip:
  "c \<notin> set xs \<Longrightarrow> index_sub (c # pat) (xs @ ys) = map_option (\<lambda>i. length xs + i) (index_sub (c # pat) ys)"
  by (induction xs; cases "index_sub (c # pat) ys") auto

text \<open>The empty line that ends the headers of a part.\<close>

lemma index_empty_line:
  assumes "lines \<noteq> []" and "\<forall>l \<in> set lines. l \<noteq> [] \<and> CHR 0x0D \<notin> set l"
  shows "index_sub (crlf @ crlf) (concat (map (\<lambda>l. l @ crlf) lines) @ crlf @ content) =
    Some (length (concat (map (\<lambda>l. l @ crlf) lines)) - 2)"
  using assms
proof (induction lines rule: list_nonempty_induct)
  case (single l)
  then show ?case
    using index_sub_skip [of "CHR 0x0D" l "[CHR 0x0A, CHR 0x0D, CHR 0x0A]"] by (simp add: crlf_def)
next
  case (cons l ls)
  let ?rest = "concat (map (\<lambda>l. l @ crlf) ls) @ crlf @ content"
  obtain x xs ls' where ls: "ls = (x # xs) # ls'" and "x \<noteq> CHR 0x0D"
    using cons.hyps cons.prems by (cases ls; cases "hd ls") auto
  then have "index_sub (crlf @ crlf) (crlf @ ?rest) = map_option (\<lambda>i. 2 + i) (index_sub (crlf @ crlf) ?rest)"
    by (simp add: crlf_def option.map_comp comp_def)
  moreover have "2 \<le> length (concat (map (\<lambda>l. l @ crlf) ls))"
    by (simp add: ls crlf_def)
  moreover have "index_sub (crlf @ crlf) (l @ crlf @ ?rest) =
      map_option (\<lambda>i. length l + i) (index_sub (crlf @ crlf) (crlf @ ?rest))"
    using index_sub_skip [of "CHR 0x0D" l] cons.prems by (simp add: crlf_def)
  ultimately show ?case
    using cons.IH cons.prems by (simp add: crlf_def)
qed

definition lower_names :: "(string \<times> string) list \<Rightarrow> field_map" where
  "lower_names fs = map (\<lambda>nv. (to_lower (fst nv), snd nv)) fs"

lemma field_line_nonempty [simp]: "field_line nv \<noteq> []"
  by (simp add: field_line_def)

section \<open>Properties\<close>

text \<open>
  Values a client lists with one delimiter and any blanks behind it are read back in
  order, names and values apart: \<open>extractFieldVals\<close> inverts that notation.
\<close>

lemma extractFieldVals_roundtrip:
  assumes "fs \<noteq> []" and "\<forall>f \<in> set fs. clean_value delimiters f"
    and "d \<in> set delimiters" and "set sp \<subseteq> set spaces"
    and "length (join_values (d # sp) (map value_text fs)) < npos32"
  shows "extractFieldVals (join_values (d # sp) (map value_text fs)) delimiters = Inr fs"
  using extractFieldVals_list [of "map value_text fs" delimiters d sp "[]"] assms
    read_clean_values [OF assms(2)]
  by (simp add: clean_value_plain)

text \<open>
  A delimiter behind the last value is not accepted but raises \<^verbatim>\<open>std::out_of_range\<close>: the
  failed search stores \<^verbatim>\<open>npos\<close>, cut to 32 bits, as the start of the next value.
\<close>

lemma extractFieldVals_trailing_delimiter:
  assumes "fs \<noteq> []" and "\<forall>f \<in> set fs. clean_value delimiters f"
    and "d \<in> set delimiters" and "set sp \<subseteq> set spaces"
    and "length (join_values (d # sp) (map value_text fs) @ [d]) < npos32"
  shows "extractFieldVals (join_values (d # sp) (map value_text fs) @ [d]) delimiters = Inl out_of_range"
  using extractFieldVals_list [of "map value_text fs" delimiters d sp "[d]"] assms
    read_clean_values [OF assms(2)]
  by (simp add: clean_value_plain)

text \<open>
  On every text shorter than \<^verbatim>\<open>2^32-1\<close> characters the loop of \<open>extractFieldVals\<close> ends:
  it returns a list or throws.
\<close>

lemma extractFieldVals_terminates:
  assumes "length str < npos32"
  shows "extractFieldVals str delimiters \<noteq> Inl Out_of_fuel"
  using assms by (rule extractFieldVals_fuel)

text \<open>
  Header fields a client writes as \<^verbatim>\<open>Name: value\<close> lines are read back in order, with the
  names in lower case; text behind the last line end is ignored.
\<close>

lemma parse_fields_roundtrip:
  assumes "\<forall>nv \<in> set fs. clean_field nv" and "CHR 0x0D \<notin> set tail"
    and "length (concat (map (\<lambda>nv. field_line nv @ crlf) fs) @ tail) < npos32"
  shows "parse_fields (concat (map (\<lambda>nv. field_line nv @ crlf) fs) @ tail) =
    Inr (map (\<lambda>nv. (to_lower (fst nv), snd nv)) fs)"
  using assms by (rule parse_fields_clean)

end
