(* ===== verification/Request.thy ===== *)
theory Request
  imports Field_Values
begin

text \<open>
  Request.h and Request.cpp: the request header, \<open>parse_header\<close> (request line, URL arguments,
  header fields, content length, cookies) and \<open>readMultipartBody\<close>. \<^verbatim>\<open>parse_header\<close> is one
  function in the code; here its sections are functions of their own, called in the order of the
  code, so that each has its lemmas.
\<close>

section \<open>Data\<close>

record body_arg =
  ba_fields :: field_map
  ba_content :: bytes

type_synonym body_arg_map = "(string, body_arg) umultimap"

record header =
  h_method :: string
  h_resource :: string
  h_url :: string
  h_version :: string
  h_cookies :: "(string \<times> string) list"
  h_fields :: field_map
  h_url_args :: field_map
  h_body_args :: body_arg_map
  h_content_length :: nat

record request =
  rq_header :: header
  rq_message_body :: bytes

text \<open>\<^verbatim>\<open>s.substr(0, s.find(c))\<close>.\<close>

definition take_until :: "char \<Rightarrow> string \<Rightarrow> string" where
  "take_until c s = (case find_char c s 0 of None \<Rightarrow> s | Some i \<Rightarrow> take i s)"

section \<open>parse\_header\<close>

text \<open>The visitor over the URL's arguments: names and values are unescaped (again).\<close>

fun add_url_args :: "field_val list \<Rightarrow> field_map \<Rightarrow> field_map result" where
  "add_url_args [] url_args = Inr url_args"
| "add_url_args (KV k v # fs) url_args =
     rbind (url_unescape k) (\<lambda>k'. rbind (url_unescape v) (\<lambda>v'.
       add_url_args fs (umm_emplace k' v' url_args)))"
| "add_url_args (Single s # fs) url_args =
     rbind (url_unescape s) (\<lambda>s'. add_url_args fs (umm_emplace s' [] url_args))"

definition read_url_args :: "string \<Rightarrow> field_map result" where
  "read_url_args raw_url =
     (case find_char CHR ''?'' raw_url 0 of
        None \<Rightarrow> Inr []
      | Some trailer_idx \<Rightarrow>
          if trailer_idx + 1 < length raw_url
          then rbind (extractFieldVals (take_until CHR ''#'' (drop (trailer_idx + 1) raw_url)) ''&'')
                 (\<lambda>fs. add_url_args fs [])
          else Inr [])"

definition read_content_length :: "field_map \<Rightarrow> nat result" where
  "read_content_length field_map =
     (case umm_find ''content-length'' field_map of
        None \<Rightarrow> Inr 0
      | Some sv \<Rightarrow>
          (case from_chars_unsigned size_max 10 sv 0 of
             (Errc_invalid_argument, _, _) \<Rightarrow> Inl (Http_error 400 ''invalid content-length'')
           | (_, n, _) \<Rightarrow> Inr n))"

fun add_cookies :: "field_val list \<Rightarrow> (string \<times> string) list \<Rightarrow> (string \<times> string) list" where
  "add_cookies [] cookies = cookies"
| "add_cookies (KV k v # fs) cookies = add_cookies fs (insert_or_assign k v cookies)"
| "add_cookies (Single s # fs) cookies = add_cookies fs cookies"

fun read_cookies :: "string list \<Rightarrow> (string \<times> string) list \<Rightarrow> ((string \<times> string) list) result" where
  "read_cookies [] cookies = Inr cookies"
| "read_cookies (c # cs) cookies =
     rbind (extractFieldVals c default_delimiters) (\<lambda>extracted.
       read_cookies cs (add_cookies extracted cookies))"

definition parse_header :: "string \<Rightarrow> header result" where
  "parse_header request =
     (case find_sub crlf request 0 of
        None \<Rightarrow> Inl invalid_request_line
      | Some first_line_end \<Rightarrow>
     (case find_char CHR '' '' request 0 of
        None \<Rightarrow> Inl invalid_request_line
      | Some method_end \<Rightarrow>
     (case find_char CHR '' '' request (method_end + 1) of
        None \<Rightarrow> Inl invalid_request_line
      | Some URL_end \<Rightarrow>
          let raw_url = take (URL_end - method_end - 1) (drop (method_end + 1) request)
          in rbind (url_unescape raw_url) (\<lambda>url.
             rbind (substr request (URL_end + 1) (size_sub first_line_end (URL_end + 1))) (\<lambda>version.
             rbind (read_url_args raw_url) (\<lambda>url_args.
             rbind (rbind (substr_from request (first_line_end + 2)) parse_fields) (\<lambda>field_map.
             rbind (read_content_length field_map) (\<lambda>content_length.
             rbind (read_cookies (umm_equal_range ''cookie'' field_map) []) (\<lambda>cookies.
               Inr \<lparr>h_method = take method_end request,
                    h_resource = take_until CHR ''?'' url,
                    h_url = url,
                    h_version = version,
                    h_cookies = cookies,
                    h_fields = field_map,
                    h_url_args = url_args,
                    h_body_args = [],
                    h_content_length = content_length\<rparr>)))))))))"

section \<open>readMultipartBody\<close>

fun find_name :: "field_val list \<Rightarrow> string option" where
  "find_name [] = None"
| "find_name (KV k v # fs) = (if k = ''name'' then Some v else find_name fs)"
| "find_name (Single s # fs) = find_name fs"

definition entry_of_value :: "field_val \<Rightarrow> string \<times> string" where
  "entry_of_value f = (case f of Single s \<Rightarrow> (s, []) | KV k v \<Rightarrow> (k, v))"

text \<open>One part: its name and its argument.\<close>

definition read_part :: "string \<Rightarrow> (string \<times> body_arg) result" where
  "read_part content =
     (case find_sub (crlf @ crlf) content 0 of
        None \<Rightarrow> Inl (Http_error 400 ''missing header information in multipart body'')
      | Some header_end \<Rightarrow>
          rbind (parse_fields (take (header_end + 2) content)) (\<lambda>field_map.
          case umm_find ''content-disposition'' field_map of
            None \<Rightarrow> Inl (Http_error 400 ''missing content-disposition header in multipart body'')
          | Some cd \<Rightarrow>
              rbind (extractFieldVals cd default_delimiters) (\<lambda>cd_split.
              case find_name cd_split of
                None \<Rightarrow> Inl (Http_error 400 ''missing name field in content-disposition'')
              | Some name \<Rightarrow>
                  rbind (substr_from content (header_end + 4)) (\<lambda>body_content.
                    Inr (name, \<lparr>ba_fields = map entry_of_value cd_split @ field_map,
                                ba_content = bytes_of_string body_content\<rparr>)))))"

function multipart_loop :: "string \<Rightarrow> string \<Rightarrow> nat option \<Rightarrow> body_arg_map \<Rightarrow> body_arg_map result" where
  "multipart_loop body boundary None body_args = Inr body_args"
| "multipart_loop body boundary (Some start) body_args =
     (let start = start + length boundary
      in rbind (substr body start 2) (\<lambda>after.
         if after = ''--'' then Inr body_args
         else if after \<noteq> crlf then Inl (Http_error 400 ''missing CRLF after boundary'')
         else let start = start + 2
              in case find_sub boundary body start of
                   None \<Rightarrow> Inr body_args
                 | Some body_end \<Rightarrow>
                     if body_end < start + 4 then Inr body_args
                     else rbind (substr body (body_end - 4) 4) (\<lambda>term.
                       if term \<noteq> crlf @ ''--''
                       then Inl (Http_error 400 ''invalid termination of multipart body'')
                       else rbind (substr body start (body_end - start - 4)) (\<lambda>content.
                            rbind (read_part content) (\<lambda>(name, ba).
                              multipart_loop body boundary (find_sub boundary body start)
                                (umm_emplace name ba body_args))))))"
  by pat_completeness auto
termination
  by (relation "measure (\<lambda>(body, boundary, start, args).
        case start of None \<Rightarrow> 0 | Some s \<Rightarrow> Suc (Suc (length body) - s))")
    (auto dest: find_sub_bounds)

definition readMultipartBody :: "string \<Rightarrow> string \<Rightarrow> body_arg_map result" where
  "readMultipartBody body boundary = multipart_loop body boundary (find_sub boundary body 0) []"

declare multipart_loop.simps(2) [simp del]

lemma substr_from_append: "substr_from (xs @ ys) (length xs) = Inr ys"
  by (simp add: substr_from_def)

section \<open>The request line\<close>

definition target :: "string \<Rightarrow> field_val list \<Rightarrow> string" where
  "target path query =
     path @ (if query = [] then [] else CHR ''?'' # join_values ''&'' (map value_text query))"

definition clean_query :: "field_val list \<Rightarrow> bool" where
  "clean_query query \<longleftrightarrow>
     (\<forall>f \<in> set query. clean_value ''&'' f \<and> set (value_text f) \<inter> {CHR ''#'', CHR '' '', CHR 0x0D} = {})"

lemma set_join_values: "set (join_values sep ts) \<subseteq> set sep \<union> \<Union> (set ` set ts)"
  by (induction sep ts rule: join_values.induct) auto

lemma add_clean_args:
  "\<forall>f \<in> set fs. clean_value d f \<Longrightarrow> add_url_args fs args = Inr (args @ map entry_of_value fs)"
proof (induction fs arbitrary: args)
  case Nil
  then show ?case by simp
next
  case (Cons f fs)
  then show ?case
    by (cases f) (auto simp: clean_value_def clean_text_def umm_emplace_def entry_of_value_def)
qed

lemma take_until_none: "c \<notin> set s \<Longrightarrow> take_until c s = s"
  by (simp add: take_until_def find_char_none)

lemma take_until_at: "c \<notin> set xs \<Longrightarrow> take_until c (xs @ c # ys) = xs"
  by (simp add: take_until_def find_char_at)

lemma join_nonempty: "\<forall>t \<in> set ts. t \<noteq> [] \<Longrightarrow> ts \<noteq> [] \<Longrightarrow> join_values sep ts \<noteq> []"
  using length_join_values [of ts sep] by auto

lemma clean_query_join:
  assumes "clean_query query"
  shows "set (join_values ''&'' (map value_text query)) \<inter> {CHR ''%'', CHR ''#'', CHR '' '', CHR 0x0D} = {}"
proof -
  have "set (value_text f) \<inter> {CHR ''%'', CHR ''#'', CHR '' '', CHR 0x0D} = {}" if "f \<in> set query" for f
    using assms that
    by (cases f) (auto simp: clean_query_def clean_value_def clean_text_def value_text_def)
  then show ?thesis
    using set_join_values [of "''&''" "map value_text query"] by fastforce
qed

lemma read_url_args_target:
  assumes "CHR ''?'' \<notin> set path" and "clean_query query"
    and "length (join_values ''&'' (map value_text query)) < npos32"
  shows "read_url_args (target path query) = Inr (map entry_of_value query)"
proof (cases "query = []")
  case True
  with assms(1) show ?thesis
    by (simp add: target_def read_url_args_def find_char_none)
next
  case False
  let ?args = "join_values ''&'' (map value_text query)"
  have clean: "\<forall>f \<in> set query. clean_value ''&'' f"
    using assms(2) by (simp add: clean_query_def)
  then have "?args \<noteq> []"
    using False by (intro join_nonempty) (auto simp: plain_value_def dest!: clean_value_plain)
  moreover have "take_until CHR ''#'' ?args = ?args"
    using clean_query_join [OF assms(2)] by (intro take_until_none) auto
  moreover have "extractFieldVals ?args ''&'' = Inr query"
    using extractFieldVals_list [of "map value_text query" "''&''" "CHR ''&''" "[]" "[]"]
      read_clean_values [OF clean] clean assms(3) False by (simp add: clean_value_plain)
  ultimately show ?thesis
    using assms(1) False
    by (simp add: target_def read_url_args_def find_char_at add_clean_args [OF clean])
qed

section \<open>Whole requests\<close>

text \<open>The text a client sends: request line and header lines, each with its line end.\<close>

definition request_text :: "string \<Rightarrow> string \<Rightarrow> string \<Rightarrow> (string \<times> string) list \<Rightarrow> string" where
  "request_text m raw_url v fs =
     m @ '' '' @ raw_url @ '' '' @ v @ crlf @ concat (map (\<lambda>nv. field_line nv @ crlf) fs)"

definition clean_word :: "string \<Rightarrow> bool" where
  "clean_word s \<longleftrightarrow> set s \<inter> {CHR '' '', CHR 0x0D} = {}"

lemma parse_header_text:
  assumes "clean_word m" and "clean_word raw_url" and "CHR 0x0D \<notin> set v"
    and "\<forall>nv \<in> set fs. clean_field nv" and "length (request_text m raw_url v fs) < npos32"
  shows "parse_header (request_text m raw_url v fs) =
    rbind (url_unescape raw_url) (\<lambda>url.
    rbind (read_url_args raw_url) (\<lambda>url_args.
    rbind (read_content_length (lower_names fs)) (\<lambda>content_length.
    rbind (read_cookies (umm_equal_range ''cookie'' (lower_names fs)) []) (\<lambda>cookies.
      Inr \<lparr>h_method = m, h_resource = take_until CHR ''?'' url, h_url = url, h_version = v,
           h_cookies = cookies, h_fields = lower_names fs, h_url_args = url_args,
           h_body_args = [], h_content_length = content_length\<rparr>))))"
proof -
  let ?lines = "concat (map (\<lambda>nv. field_line nv @ crlf) fs)"
  let ?line = "m @ '' '' @ raw_url @ '' '' @ v"
  let ?text = "request_text m raw_url v fs"
  have split: "?text = ?line @ crlf @ ?lines"
    by (simp add: request_text_def)
  have "CHR 0x0D \<notin> set ?line"
    using assms(1-3) by (auto simp: clean_word_def)
  then have eol: "find_sub crlf ?text 0 = Some (length ?line)"
    using index_sub_first [of "CHR 0x0D" ?line "[CHR 0x0A]" ?lines] find_sub_suffix [of crlf "[]"]
    by (simp add: split crlf_def)
  have sp1: "find_char CHR '' '' ?text 0 = Some (length m)"
    using assms(1) by (auto simp: request_text_def clean_word_def intro: find_char_at)
  have "find_char CHR '' '' (raw_url @ '' '' @ v @ crlf @ ?lines) 0 = Some (length raw_url)"
    using assms(2) by (auto simp: clean_word_def intro: find_char_at)
  then have sp2: "find_char CHR '' '' ?text (length m + 1) = Some (length m + 1 + length raw_url)"
    using find_char_suffix [of "CHR '' ''" "m @ '' ''" "raw_url @ '' '' @ v @ crlf @ ?lines"]
    by (simp add: request_text_def)
  have raw: "take (length m + 1 + length raw_url - length m - 1) (drop (length m + 1) ?text) = raw_url"
    by (simp add: request_text_def)
  have version: "substr ?text (length m + 1 + length raw_url + 1)
      (size_sub (length ?line) (length m + 1 + length raw_url + 1)) = Inr v"
    by (simp add: substr_def request_text_def)
  have "substr_from ?text (length ?line + 2) = Inr ?lines"
    using substr_from_append [of "?line @ crlf" ?lines] by (simp add: split crlf_def)
  moreover have "parse_fields ?lines = Inr (lower_names fs)"
    using parse_fields_clean [OF assms(4), of "[]"] assms(5) by (simp add: split lower_names_def)
  ultimately have lines: "rbind (substr_from ?text (length ?line + 2)) parse_fields = Inr (lower_names fs)"
    by (simp only: rbind_Inr)
  have m: "take (length m) ?text = m"
    by (simp add: request_text_def)
  show ?thesis
    unfolding parse_header_def eol sp1 sp2 option.case Let_def raw version lines m rbind_Inr ..
qed

text \<open>Cookies: each \<^verbatim>\<open>Cookie\<close> field lists names and values; later ones overwrite earlier ones.\<close>

definition cookie_text :: "field_val list \<Rightarrow> string" where
  "cookie_text cs = join_values ''; '' (map value_text cs)"

definition clean_cookies :: "field_val list \<Rightarrow> bool" where
  "clean_cookies cs \<longleftrightarrow> cs \<noteq> [] \<and> (\<forall>c \<in> set cs. clean_value default_delimiters c)"

lemma extract_cookies:
  assumes "clean_cookies cs" and "length (cookie_text cs) < npos32"
  shows "extractFieldVals (cookie_text cs) default_delimiters = Inr cs"
  using extractFieldVals_list [of "map value_text cs" default_delimiters "CHR '';''" "'' ''" "[]"]
    assms read_clean_values [of cs default_delimiters]
  by (simp add: clean_cookies_def cookie_text_def clean_value_plain default_delimiters_def spaces_def)

lemma add_cookies_append: "add_cookies (xs @ ys) m = add_cookies ys (add_cookies xs m)"
  by (induction xs m rule: add_cookies.induct) auto

lemma read_clean_cookies:
  "\<forall>cs \<in> set css. clean_cookies cs \<and> length (cookie_text cs) < npos32 \<Longrightarrow>
   read_cookies (map cookie_text css) m = Inr (add_cookies (concat css) m)"
  by (induction css arbitrary: m) (auto simp: extract_cookies add_cookies_append)

lemma map_of_add_cookies:
  "map_of (add_cookies fs m) = map_of m ++ map_of (rev (map entry_of_value (filter (\<lambda>f. \<exists>k v. f = KV k v) fs)))"
  by (induction fs m rule: add_cookies.induct)
    (auto simp: map_of_insert_or_assign entry_of_value_def map_add_def fun_eq_iff split: option.splits)

lemma read_content_length_decimal:
  assumes "umm_find ''content-length'' fm = Some (nat_to_string n)"
  shows "read_content_length fm = Inr (if n \<le> size_max then n else 0)"
proof (cases "n \<le> size_max")
  case True
  with from_chars_nat_to_string [of n size_max "[]"] assms show ?thesis
    by (simp add: read_content_length_def)
next
  case False
  with assms show ?thesis
    by (simp add: read_content_length_def from_chars_unsigned_def scan_nat_to_string)
qed

lemma field_value_length:
  "nv \<in> set fs \<Longrightarrow> length (snd nv) \<le> length (concat (map (\<lambda>nv. field_line nv @ crlf) fs))"
  by (induction fs) (auto simp: field_line_def)

lemma equal_range_lower:
  "v \<in> set (umm_equal_range k (lower_names fs)) \<Longrightarrow> \<exists>nv \<in> set fs. v = snd nv"
  by (force simp: umm_equal_range_def lower_names_def)

text \<open>The header of a request as its parts.\<close>

definition expected_header ::
    "string \<Rightarrow> string \<Rightarrow> field_val list \<Rightarrow> string \<Rightarrow> (string \<times> string) list \<Rightarrow> field_val list list \<Rightarrow>
     nat option \<Rightarrow> header" where
  "expected_header m path query v fs css len =
     \<lparr>h_method = m, h_resource = path, h_url = target path query, h_version = v,
      h_cookies = add_cookies (concat css) [], h_fields = lower_names fs,
      h_url_args = map entry_of_value query, h_body_args = [],
      h_content_length = (case len of None \<Rightarrow> 0 | Some n \<Rightarrow> n)\<rparr>"

definition clean_path :: "string \<Rightarrow> bool" where
  "clean_path path \<longleftrightarrow> set path \<inter> {CHR ''?'', CHR ''%'', CHR '' '', CHR 0x0D} = {}"

lemma target_clean:
  assumes "clean_path path" and "clean_query query"
  shows "clean_word (target path query)" and "CHR ''%'' \<notin> set (target path query)"
    and "take_until CHR ''?'' (target path query) = path"
  using assms(1) clean_query_join [OF assms(2)]
  by (auto simp: target_def clean_path_def clean_word_def take_until_at take_until_none)

lemma parse_expected_header:
  assumes "clean_word m" and "clean_path path" and "clean_query query" and "CHR 0x0D \<notin> set v"
    and "\<forall>nv \<in> set fs. clean_field nv"
    and cookies: "umm_equal_range ''cookie'' (lower_names fs) = map cookie_text css"
      "\<forall>cs \<in> set css. clean_cookies cs"
    and len: "umm_find ''content-length'' (lower_names fs) = map_option nat_to_string len"
      "case len of None \<Rightarrow> True | Some n \<Rightarrow> n \<le> size_max"
    and short: "length (request_text m (target path query) v fs) < npos32"
  shows "parse_header (request_text m (target path query) v fs) =
    Inr (expected_header m path query v fs css len)"
proof -
  note t = target_clean [OF assms(2,3)]
  have "length (join_values ''&'' (map value_text query)) < npos32"
    using short by (cases "query = []") (simp_all add: request_text_def target_def npos32_def)
  then have args: "read_url_args (target path query) = Inr (map entry_of_value query)"
    using assms(2,3) by (intro read_url_args_target) (auto simp: clean_path_def)
  have "length (cookie_text cs) < npos32" if "cs \<in> set css" for cs
  proof -
    from that cookies(1) have "cookie_text cs \<in> set (umm_equal_range ''cookie'' (lower_names fs))"
      by simp
    then obtain nv where "nv \<in> set fs" and "cookie_text cs = snd nv"
      using equal_range_lower by metis
    with field_value_length short show ?thesis
      by (fastforce simp: request_text_def)
  qed
  with cookies have read: "read_cookies (umm_equal_range ''cookie'' (lower_names fs)) [] =
      Inr (add_cookies (concat css) [])"
    by (simp add: read_clean_cookies)
  have "read_content_length (lower_names fs) = Inr (case len of None \<Rightarrow> 0 | Some n \<Rightarrow> n)"
    using len read_content_length_decimal [of "lower_names fs"]
    by (cases len) (simp_all add: read_content_length_def)
  with parse_header_text [OF assms(1) t(1) assms(4,5) short] args read t(2,3) show ?thesis
    by (simp add: expected_header_def)
qed

section \<open>Multipart bodies\<close>

text \<open>One part as a client writes it: header lines, an empty line, the content.\<close>

definition part_text :: "(string \<times> string) list \<Rightarrow> string \<Rightarrow> string" where
  "part_text fs content = concat (map (\<lambda>nv. field_line nv @ crlf) fs) @ crlf @ content"

text \<open>
  The value of its \<^verbatim>\<open>Content-Disposition\<close>, such as \<^verbatim>\<open>form-data; name="a"\<close>: values with or
  without quotes.
\<close>

definition disposition_text :: "(bool \<times> field_val) list \<Rightarrow> string" where
  "disposition_text ws = join_values ''; '' (map written_text ws)"

definition clean_disposition :: "(bool \<times> field_val) list \<Rightarrow> bool" where
  "clean_disposition ws \<longleftrightarrow> ws \<noteq> [] \<and> (\<forall>w \<in> set ws. clean_written default_delimiters w)"

lemma extract_disposition:
  assumes "clean_disposition ws" and "length (disposition_text ws) < npos32"
  shows "extractFieldVals (disposition_text ws) default_delimiters = Inr (map snd ws)"
  using extractFieldVals_list [of "map written_text ws" default_delimiters "CHR '';''" "'' ''" "[]"]
    assms read_written_values [of ws default_delimiters]
  by (simp add: clean_disposition_def disposition_text_def clean_written_def default_delimiters_def spaces_def)

definition clean_part :: "(string \<times> string) list \<Rightarrow> (bool \<times> field_val) list \<Rightarrow> string \<Rightarrow> bool" where
  "clean_part fs disposition name \<longleftrightarrow>
     fs \<noteq> [] \<and> (\<forall>nv \<in> set fs. clean_field nv) \<and> clean_disposition disposition \<and>
     umm_find ''content-disposition'' (lower_names fs) = Some (disposition_text disposition) \<and>
     find_name (map snd disposition) = Some name"

definition expected_part :: "(string \<times> string) list \<Rightarrow> (bool \<times> field_val) list \<Rightarrow> string \<Rightarrow> body_arg" where
  "expected_part fs disposition content =
     \<lparr>ba_fields = map entry_of_value (map snd disposition) @ lower_names fs, ba_content = bytes_of_string content\<rparr>"

lemma read_clean_part:
  assumes "clean_part fs disposition name" and "length (part_text fs content) < npos32"
  shows "read_part (part_text fs content) = Inr (name, expected_part fs disposition content)"
proof -
  let ?lines = "concat (map (\<lambda>nv. field_line nv @ crlf) fs)"
  note clean = assms(1) [unfolded clean_part_def]
  have "index_sub (crlf @ crlf) (concat (map (\<lambda>l. l @ crlf) (map field_line fs)) @ crlf @ content) =
      Some (length (concat (map (\<lambda>l. l @ crlf) (map field_line fs))) - 2)"
    using clean by (intro index_empty_line) (auto simp: field_line_no_cr)
  then have idx: "find_sub (crlf @ crlf) (part_text fs content) 0 = Some (length ?lines - 2)"
    by (simp add: find_sub_def part_text_def comp_def)
  obtain nv fs' where "fs = nv # fs'"
    using clean by (cases fs) auto
  then have two: "2 \<le> length ?lines"
    by (simp add: crlf_def)
  then have head: "take (length ?lines - 2 + 2) (part_text fs content) = ?lines"
    by (simp add: part_text_def)
  have fields: "parse_fields ?lines = Inr (lower_names fs)"
    using parse_fields_clean [of fs "[]"] clean assms(2) by (simp add: part_text_def lower_names_def)
  obtain nv where "nv \<in> set fs" and "disposition_text disposition = snd nv"
    using clean map_of_SomeD [of "lower_names fs" "''content-disposition''"]
    by (fastforce simp: umm_find_def lower_names_def)
  then have "length (disposition_text disposition) < npos32"
    using field_value_length [of nv fs] assms(2) by (simp add: part_text_def)
  then have disp: "extractFieldVals (disposition_text disposition) default_delimiters = Inr (map snd disposition)"
    using clean by (simp add: extract_disposition)
  have "substr_from (part_text fs content) (length ?lines - 2 + 4) = Inr content"
    using substr_from_append [of "?lines @ crlf" content] two by (simp add: part_text_def crlf_def)
  then show ?thesis
    using clean unfolding read_part_def idx option.case head fields rbind_Inr
    by (simp add: disp expected_part_def)
qed

text \<open>The loop on one part, and on the closing delimiter.\<close>

lemma multipart_loop_part:
  assumes "index_sub boundary (pt @ crlf @ ''--'' @ boundary) = Some (length pt + 4)"
  shows "multipart_loop (pre @ boundary @ crlf @ pt @ crlf @ ''--'' @ boundary @ rest) boundary (Some (length pre)) args =
    rbind (read_part pt) (\<lambda>(name, ba).
      multipart_loop ((pre @ boundary @ crlf @ pt @ crlf @ ''--'') @ boundary @ rest) boundary
        (Some (length (pre @ boundary @ crlf @ pt @ crlf @ ''--''))) (umm_emplace name ba args))"
proof -
  let ?body = "pre @ boundary @ crlf @ pt @ crlf @ ''--'' @ boundary @ rest"
  let ?start = "length pre + length boundary + 2"
  have after: "substr ?body (length pre + length boundary) 2 = Inr crlf"
    by (simp add: substr_def crlf_def)
  have "index_sub boundary ((pt @ crlf @ ''--'' @ boundary) @ rest) = Some (length pt + 4)"
    using assms by (rule index_sub_append)
  then have body_end: "find_sub boundary ?body ?start = Some (?start + (length pt + 4))"
    using find_sub_suffix [of boundary "pre @ boundary @ crlf" "pt @ crlf @ ''--'' @ boundary @ rest"]
    by (simp add: crlf_def)
  have "drop (?start + length pt) ?body = crlf @ ''--'' @ boundary @ rest"
    by (simp add: crlf_def)
  then have term_ok: "substr ?body (?start + (length pt + 4) - 4) 4 = Inr (crlf @ ''--'')"
    by (simp add: substr_def crlf_def)
  have content: "substr ?body ?start (?start + (length pt + 4) - ?start - 4) = Inr pt"
    by (simp add: substr_def crlf_def)
  have pos: "?start + (length pt + 4) = length (pre @ boundary @ crlf @ pt @ crlf @ ''--'')"
    by (simp add: crlf_def)
  have ok: "\<not> ?start + (length pt + 4) < ?start + 4" "crlf \<noteq> ''--''"
    by (simp_all add: crlf_def)
  show ?thesis
    unfolding multipart_loop.simps(2) [of ?body boundary "length pre" args] Let_def after rbind_Inr
      body_end option.case term_ok content
    by (simp only: ok if_False not_True_eq_False simp_thms) (simp only: pos append_assoc)
qed

lemma multipart_loop_close:
  "multipart_loop (pre @ boundary @ ''--'' @ rest) boundary (Some (length pre)) args = Inr args"
  by (simp add: multipart_loop.simps(2) substr_def)

text \<open>A body as a client writes it; the text behind the first boundary, part by part.\<close>

type_synonym part = "(string \<times> string) list \<times> (bool \<times> field_val) list \<times> string \<times> string"

fun parts_text :: "string \<Rightarrow> part list \<Rightarrow> string \<Rightarrow> string" where
  "parts_text boundary [] epilogue = ''--'' @ epilogue"
| "parts_text boundary ((fs, disposition, name, content) # ps) epilogue =
     crlf @ part_text fs content @ crlf @ ''--'' @ boundary @ parts_text boundary ps epilogue"

definition body_text :: "string \<Rightarrow> part list \<Rightarrow> string \<Rightarrow> string" where
  "body_text boundary ps epilogue = ''--'' @ boundary @ parts_text boundary ps epilogue"

text \<open>Searching the boundary finds the delimiter behind the part and nothing before it.\<close>

definition bounded_part :: "string \<Rightarrow> part \<Rightarrow> bool" where
  "bounded_part boundary p = (case p of (fs, disposition, name, content) \<Rightarrow>
     clean_part fs disposition name \<and>
     index_sub boundary (part_text fs content @ crlf @ ''--'' @ boundary) =
       Some (length (part_text fs content) + 4))"

lemma multipart_loop_parts:
  "\<forall>p \<in> set ps. bounded_part boundary p \<Longrightarrow>
   length (pre @ boundary @ parts_text boundary ps epilogue) < npos32 \<Longrightarrow>
   multipart_loop (pre @ boundary @ parts_text boundary ps epilogue) boundary (Some (length pre)) args =
     Inr (args @ map (\<lambda>(fs, disposition, name, content). (name, expected_part fs disposition content)) ps)"
proof (induction ps arbitrary: pre args)
  case Nil
  then show ?case
    using multipart_loop_close [of pre boundary epilogue] by simp
next
  case (Cons p ps)
  obtain fs disposition name content where p: "p = (fs, disposition, name, content)"
    by (cases p)
  let ?pt = "part_text fs content"
  let ?pre = "pre @ boundary @ crlf @ ?pt @ crlf @ ''--''"
  have "index_sub boundary (?pt @ crlf @ ''--'' @ boundary) = Some (length ?pt + 4)"
    and "read_part ?pt = Inr (name, expected_part fs disposition content)"
    using Cons.prems by (auto simp: p bounded_part_def intro!: read_clean_part)
  moreover have "multipart_loop (?pre @ boundary @ parts_text boundary ps epilogue) boundary (Some (length ?pre)) a =
      Inr (a @ map (\<lambda>(fs, disposition, name, content). (name, expected_part fs disposition content)) ps)" for a
    by (rule Cons.IH) (use Cons.prems in \<open>auto simp: p\<close>)
  ultimately show ?case
    using multipart_loop_part [of boundary ?pt pre "parts_text boundary ps epilogue" args]
    by (simp add: p umm_emplace_def)
qed

section \<open>URL arguments are unescaped twice\<close>

lemma hex_digit_plain:
  assumes "d < 16" and "digit_val 16 c = None"
  shows "hex_digit d \<noteq> c"
  using digit_val_hex_digit [OF assms(1)] assms(2) by auto

lemma pct_encode_set:
  assumes "c \<noteq> CHR ''%''" and "digit_val 16 c = None" and "\<not> keep c"
  shows "c \<notin> set (pct_encode keep s)"
proof (induction s)
  case Nil
  then show ?case by (simp add: pct_encode_def)
next
  case (Cons x s)
  have "(of_char x :: nat) < 256"
    by simp
  then have "(of_char x :: nat) div 16 < 16"
    by (simp add: less_mult_imp_div_less)
  then have "hex_digit (of_char x div 16) \<noteq> c" and "hex_digit (of_char x mod 16) \<noteq> c"
    using hex_digit_plain [OF _ assms(2)] by simp_all
  with assms(1,3) Cons.IH show ?case
    by (auto simp: pct_encode_Cons simp del: of_nat_of_char)
qed

lemma read_url_args_encoded:
  assumes "clean_value ''&'' (KV k [])" and "CHR ''#'' \<notin> set k" and "CHR ''?'' \<notin> set path"
    and "\<forall>c \<in> {CHR ''#'', CHR 0x22, CHR ''&'', CHR '' '', CHR 0x09}. \<not> keep c" and "ends_plain keep w"
    and "length (k @ CHR ''='' # pct_encode keep w) < npos32"
  shows "read_url_args (path @ CHR ''?'' # k @ CHR ''='' # pct_encode keep w) =
    rbind (url_unescape w) (\<lambda>v. Inr [(k, v)])"
proof -
  let ?enc = "pct_encode keep w"
  let ?arg = "k @ CHR ''='' # ?enc"
  have enc: "c \<notin> set ?enc" if "c \<in> {CHR ''#'', CHR 0x22, CHR ''&'', CHR '' '', CHR 0x09}" for c
    using that assms(4) by (intro pct_encode_set) (auto simp: digit_val_def)
  have k: "clean_text k" "plain_value ''&'' (k @ ''='')"
    using assms(1) by (simp_all add: clean_value_def value_text_def)
  have until: "take_until CHR ''#'' ?arg = ?arg"
    using assms(2) enc by (intro take_until_none) auto
  have last: "last ?arg \<notin> set spaces"
  proof (cases "?enc = []")
    case False
    then have "last ?enc \<in> set ?enc"
      by simp
    then have "last ?enc \<noteq> CHR '' ''" and "last ?enc \<noteq> CHR 0x09"
      using enc [of "CHR '' ''"] enc [of "CHR 0x09"] by (metis insertCI)+
    with False show ?thesis
      by (simp add: spaces_def)
  qed (simp add: spaces_def)
  have "hd ?arg = hd (k @ ''='')" and "set ?arg = set (k @ ''='') \<union> set ?enc"
    by (cases k; simp)+
  moreover have "set ?enc \<inter> set ''&'' = {}"
    using enc [of "CHR ''&''"] by simp
  ultimately have "plain_value ''&'' ?arg"
    using k(2) last unfolding plain_value_def by (simp only: Int_Un_distrib2) simp
  moreover have "field_of_chunk ?arg = Inr (KV k w)"
  proof -
    have "find_char CHR ''='' ?arg 0 = Some (length k)"
      using k(1) by (intro find_char_at) (auto simp: clean_text_def)
    moreover have "remove_quots ?enc = ?enc"
      using enc [of "CHR 0x22"] by (cases ?enc) (auto simp: remove_quots_def)
    ultimately show ?thesis
      using k(1) by (simp add: field_of_chunk_def unescape_clean url_unescape_encoded [OF assms(5)])
  qed
  ultimately have "extractFieldVals ?arg ''&'' = Inr [KV k w]"
    using extractFieldVals_list [of "[?arg]" "''&''" "CHR ''&''" "[]" "[]"] assms(6) by simp
  moreover have "url_unescape k = Inr k"
    using k(1) by (simp add: clean_text_def)
  ultimately show ?thesis
    using assms(3) until by (simp add: read_url_args_def find_char_at umm_emplace_def)
qed

section \<open>Termination\<close>

lemma add_url_args_fuel: "add_url_args fs m \<noteq> Inl Out_of_fuel"
  by (induction fs m rule: add_url_args.induct) (auto simp: rbind_eq_Inl_iff url_unescape_fuel)

lemma length_take_until: "length (take_until c s) \<le> length s"
  by (simp add: take_until_def split: option.split)

lemma read_url_args_fuel: "length url < npos32 \<Longrightarrow> read_url_args url \<noteq> Inl Out_of_fuel"
proof -
  assume "length url < npos32"
  then have "length (take_until CHR ''#'' (drop n url)) < npos32" for n
    using length_take_until [of "CHR ''#''" "drop n url"] by simp
  then show ?thesis
    by (auto simp: read_url_args_def rbind_eq_Inl_iff extractFieldVals_fuel add_url_args_fuel split: option.splits)
qed

lemma read_cookies_fuel:
  "\<forall>c \<in> set cs. length c < npos32 \<Longrightarrow> read_cookies cs m \<noteq> Inl Out_of_fuel"
  by (induction cs m rule: read_cookies.induct) (auto simp: rbind_eq_Inl_iff extractFieldVals_fuel)

lemma read_content_length_fuel: "read_content_length m \<noteq> Inl Out_of_fuel"
  by (auto simp: read_content_length_def split: option.splits prod.splits errc.splits)

lemma parse_header_fuel:
  assumes "length text < npos32"
  shows "parse_header text \<noteq> Inl Out_of_fuel"
proof -
  have url: "read_url_args (take i (drop j text)) \<noteq> Inl Out_of_fuel" for i j
    using assms by (intro read_url_args_fuel) simp
  have parsed: "rbind (substr_from text n) parse_fields \<noteq> Inl Out_of_fuel" for n
    using assms by (auto simp: substr_from_def out_of_range_def parse_fields_fuel)
  have cookies: "read_cookies (umm_equal_range k m) [] \<noteq> Inl Out_of_fuel"
    if "rbind (substr_from text n) parse_fields = Inr m" for k n m
  proof (rule read_cookies_fuel, intro ballI)
    fix c
    assume c: "c \<in> set (umm_equal_range k m)"
    from that have "parse_fields (drop n text) = Inr m"
      by (auto simp: substr_from_def split: if_splits)
    from small_values_range [OF parse_fields_small [OF this] c] show "length c < npos32"
      using assms by simp
  qed
  show ?thesis
    using url parsed cookies
    by (auto simp: parse_header_def Let_def rbind_eq_Inl_iff url_unescape_fuel invalid_request_line_def substr_def
        out_of_range_def read_content_length_fuel split: option.splits)
qed

lemma parse_header_small: "parse_header text = Inr hdr \<Longrightarrow> small_values (length text) (h_fields hdr)"
proof -
  assume "parse_header text = Inr hdr"
  then obtain n where "parse_fields (drop n text) = Inr (h_fields hdr)"
    by (auto simp: parse_header_def Let_def rbind_eq_Inr_iff substr_from_def split: option.splits if_splits)
  from parse_fields_small [OF this] show ?thesis
    by (auto simp: small_values_def)
qed

lemma read_part_fuel:
  assumes "length content < npos32"
  shows "read_part content \<noteq> Inl Out_of_fuel"
proof -
  have parsed: "parse_fields (take n content) \<noteq> Inl Out_of_fuel" for n
    using assms by (intro parse_fields_fuel) simp
  have "extractFieldVals v default_delimiters \<noteq> Inl Out_of_fuel"
    if "parse_fields (take n content) = Inr m" "umm_find k m = Some v" for n m k v
    using small_values_find [OF parse_fields_small [OF that(1)] that(2)] assms
    by (intro extractFieldVals_fuel) simp
  with parsed show ?thesis
    by (auto simp: read_part_def rbind_eq_Inl_iff substr_from_def out_of_range_def split: option.splits if_splits)
qed

lemma multipart_loop_fuel:
  "length body < npos32 \<Longrightarrow> multipart_loop body boundary start args \<noteq> Inl Out_of_fuel"
proof (induction body boundary start args rule: multipart_loop.induct)
  case (2 body boundary start args)
  have "read_part (take n (drop k body)) \<noteq> Inl Out_of_fuel" for n k
    using 2(2) by (intro read_part_fuel) simp
  with 2 show ?case
    unfolding multipart_loop.simps(2) Let_def
    by (auto simp: rbind_eq_Inl_iff substr_def out_of_range_def split: option.splits if_splits)
qed simp

lemma readMultipartBody_fuel: "length body < npos32 \<Longrightarrow> readMultipartBody body boundary \<noteq> Inl Out_of_fuel"
  by (simp add: readMultipartBody_def multipart_loop_fuel)

section \<open>Properties\<close>

text \<open>
  C3. A request as a client writes it is read back completely: method, path, URL arguments,
  version, header fields (names in lower case), cookies and content length.
\<close>

theorem parse_header_roundtrip:
  assumes "clean_word m" and "clean_path path" and "clean_query query" and "CHR 0x0D \<notin> set v"
    and "\<forall>nv \<in> set fs. clean_field nv"
    and "umm_equal_range ''cookie'' (lower_names fs) = map cookie_text css"
    and "\<forall>cs \<in> set css. clean_cookies cs"
    and "umm_find ''content-length'' (lower_names fs) = map_option nat_to_string len"
    and "case len of None \<Rightarrow> True | Some n \<Rightarrow> n \<le> size_max"
    and "length (request_text m (target path query) v fs) < npos32"
  shows "parse_header (request_text m (target path query) v fs) =
    Inr (expected_header m path query v fs css len)"
  using assms by (rule parse_expected_header)

lemmas clean_defs = clean_word_def clean_path_def clean_query_def clean_value_def clean_text_def
  clean_field_def clean_cookies_def plain_value_def value_text_def illegal_chars_def spaces_def
  default_delimiters_def

lemmas text_defs = request_text_def target_def field_line_def cookie_text_def value_text_def crlf_def

theorem parse_header_roundtrip_witness:
  "parse_header (request_text ''GET'' (target ''/s'' [KV ''q'' ''1'', Single ''x'']) ''HTTP/1.1''
     [(''Host'', ''h''), (''Cookie'', ''a=1; b=2''), (''Content-Length'', nat_to_string 5)]) =
   Inr (expected_header ''GET'' ''/s'' [KV ''q'' ''1'', Single ''x''] ''HTTP/1.1''
     [(''Host'', ''h''), (''Cookie'', ''a=1; b=2''), (''Content-Length'', nat_to_string 5)]
     [[KV ''a'' ''1'', KV ''b'' ''2'']] (Some 5))"
  by (rule parse_header_roundtrip)
    (simp_all add: clean_defs text_defs npos32_def size_max_def nat_to_string.simps digit_char_def
      umm_equal_range_def umm_find_def lower_names_def to_lower_def tolower_def char_of_def bit_0)

text \<open>
  A \<^verbatim>\<open>Content-Length\<close> that does not fit into \<^verbatim>\<open>std::size_t\<close> is neither rejected nor
  capped: the unchecked \<^verbatim>\<open>result_out_of_range\<close> leaves the content length at 0.
\<close>

lemma content_length_overflow:
  assumes "umm_find ''content-length'' fm = Some (nat_to_string n)" and "size_max < n"
  shows "read_content_length fm = Inr 0"
  using assms by (simp add: read_content_length_decimal)

text \<open>
  C31. A multipart body as a client writes it, with the values of the dispositions in quotes or
  not, is read back part by part: the names (without their quotes), the disposition values, the
  headers and the contents, whatever follows the closing delimiter.
\<close>

theorem readMultipartBody_roundtrip:
  assumes "index_sub boundary (''--'' @ boundary) = Some 2"
    and "\<forall>p \<in> set ps. bounded_part boundary p"
    and "length (body_text boundary ps epilogue) < npos32"
  shows "readMultipartBody (body_text boundary ps epilogue) boundary =
    Inr (map (\<lambda>(fs, disposition, name, content). (name, expected_part fs disposition content)) ps)"
proof -
  have "find_sub boundary (body_text boundary ps epilogue) 0 = Some (length ''--'')"
    using index_sub_append [OF assms(1), of "parts_text boundary ps epilogue"]
    by (simp add: find_sub_def body_text_def)
  then show ?thesis
    using multipart_loop_parts [OF assms(2), of "''--''" epilogue "[]"] assms(3)
    by (simp add: readMultipartBody_def body_text_def)
qed

theorem readMultipartBody_roundtrip_witness:
  "readMultipartBody (body_text ''X7''
     [([(''Content-Disposition'', ''form-data; name='' @ in_quotes ''a'')],
       [(False, Single ''form-data''), (True, KV ''name'' ''a'')], ''a'', ''hi'')]
     crlf) ''X7'' =
   Inr (map (\<lambda>(fs, disposition, name, content). (name, expected_part fs disposition content))
     [([(''Content-Disposition'', ''form-data; name='' @ in_quotes ''a'')],
       [(False, Single ''form-data''), (True, KV ''name'' ''a'')], ''a'', ''hi'')])"
  by (rule readMultipartBody_roundtrip)
    (simp_all add: bounded_part_def clean_part_def clean_disposition_def clean_written_def written_text_def
      disposition_text_def in_quotes_def clean_defs part_text_def body_text_def text_defs npos32_def
      umm_find_def lower_names_def to_lower_def tolower_def char_of_def bit_0)

text \<open>
  An argument's value that the client escaped once is unescaped twice: the value the
  application sees is the unescaping of the value that was sent, so a value that holds a
  percent sign is changed or rejected.
\<close>

lemma url_args_unescaped_twice:
  assumes "clean_value ''&'' (KV k [])" and "CHR ''#'' \<notin> set k" and "CHR ''?'' \<notin> set path"
    and "\<forall>c \<in> {CHR ''#'', CHR 0x22, CHR ''&'', CHR '' '', CHR 0x09}. \<not> keep c" and "ends_plain keep w"
    and "length (k @ CHR ''='' # pct_encode keep w) < npos32"
  shows "read_url_args (path @ CHR ''?'' # k @ CHR ''='' # pct_encode keep w) =
    rbind (url_unescape w) (\<lambda>v. Inr [(k, v)])"
  using assms by (rule read_url_args_encoded)

end
