(* ===== verification/DateStr.thy ===== *)
theory DateStr
  imports Charconv
begin

text \<open>
  DateStrHelper.cpp, \<open>mkdatestr\<close> of a broken-down time: \<^verbatim>\<open>strftime\<close> with the format
  \<^verbatim>\<open>%a, %d %b %Y %H:%M:%S %Z\<close> in the C locale. The time zone conversion of the other
  overload (\<^verbatim>\<open>localtime_r\<close>) depends on the host and is an argument of the code that uses it.
\<close>

section \<open>Broken-down time\<close>

text \<open>The fields of \<^verbatim>\<open>struct tm\<close> that the format prints.\<close>

record tm =
  tm_sec :: nat
  tm_min :: nat
  tm_hour :: nat
  tm_mday :: nat
  tm_mon :: nat
  tm_year :: int
  tm_wday :: nat
  tm_zone :: string

definition day_names :: "string list" where
  "day_names = [''Sun'', ''Mon'', ''Tue'', ''Wed'', ''Thu'', ''Fri'', ''Sat'']"

definition month_names :: "string list" where
  "month_names = [''Jan'', ''Feb'', ''Mar'', ''Apr'', ''May'', ''Jun'',
                  ''Jul'', ''Aug'', ''Sep'', ''Oct'', ''Nov'', ''Dec'']"

text \<open>A name of a table; \<^verbatim>\<open>strftime\<close> prints a question mark for a number outside it.\<close>

definition name_of :: "string list \<Rightarrow> nat \<Rightarrow> string" where
  "name_of names i = (if i < length names then names ! i else ''?'')"

definition two_digits :: "nat \<Rightarrow> string" where
  "two_digits n = (if n < 10 then CHR ''0'' # nat_to_string n else nat_to_string n)"

definition mkdatestr :: "tm \<Rightarrow> string" where
  "mkdatestr t =
     name_of day_names (tm_wday t) @ '', '' @ two_digits (tm_mday t) @ '' '' @
     name_of month_names (tm_mon t) @ '' '' @ int_to_string (tm_year t + 1900) @ '' '' @
     two_digits (tm_hour t) @ '':'' @ two_digits (tm_min t) @ '':'' @ two_digits (tm_sec t) @ '' '' @
     tm_zone t"

section \<open>Lemmas\<close>

definition valid_tm :: "tm \<Rightarrow> bool" where
  "valid_tm t \<longleftrightarrow> tm_sec t \<le> 60 \<and> tm_min t < 60 \<and> tm_hour t < 24 \<and> tm_mday t \<in> {1..31} \<and>
     tm_mon t < 12 \<and> tm_wday t < 7 \<and> -900 \<le> tm_year t \<and> tm_year t < 8100"

lemma length_name_of:
  "i < 7 \<Longrightarrow> length (name_of day_names i) = 3"
  "i < 12 \<Longrightarrow> length (name_of month_names i) = 3"
  by (auto simp: name_of_def day_names_def month_names_def nth_Cons' numeral_eq_Suc less_Suc_eq)

lemma length_two_digits: "n < 100 \<Longrightarrow> length (two_digits n) = 2"
  by (auto simp: two_digits_def nat_to_string.simps [of n] nat_to_string.simps [of "n div 10"]
      div_less_iff_less_mult)

lemma length_four_digits: "1000 \<le> n \<Longrightarrow> n < 10000 \<Longrightarrow> length (nat_to_string n) = 4"
  by (simp add: nat_to_string.simps div_less_iff_less_mult not_less less_eq_div_iff_mult_less_eq
      flip: div_mult2_eq)

text \<open>
  The date of a header has the fixed width of RFC 7231, up to the zone. It fits into the buffer of 128
  characters that the code gives to \<^verbatim>\<open>strftime\<close> (\<open>mkdatestr_fits\<close>), which the definition therefore
  does not have.
\<close>

lemma length_mkdatestr:
  assumes "valid_tm t"
  shows "length (mkdatestr t) = 26 + length (tm_zone t)"
proof -
  have "length (int_to_string (tm_year t + 1900)) = 4"
    using assms by (simp add: int_to_string_def valid_tm_def length_four_digits nat_less_iff le_nat_iff)
  with assms show ?thesis
    by (simp add: mkdatestr_def valid_tm_def length_name_of length_two_digits)
qed

lemma mkdatestr_fits: "valid_tm t \<Longrightarrow> length (tm_zone t) \<le> 101 \<Longrightarrow> length (mkdatestr t) + 1 \<le> 128"
  by (simp add: length_mkdatestr)

end
