(* ===== verification/Response.thy ===== *)
theory Response
  imports DateStr Field_Values
begin

text \<open>
  Response.h and Response.cpp: the response record, its cookies and content type, the
  error responses, and \<open>serialize\<close>.
\<close>

section \<open>Tables\<close>

definition code2reason :: "(int \<times> string) list" where
  "code2reason =
    [(101, ''Switching Protocols''),
     (200, ''OK''),
     (201, ''Created''),
     (202, ''Accepted''),
     (203, ''Non-Authoritative Information''),
     (204, ''No Content''),
     (205, ''Reset Content''),
     (206, ''Partial Content''),
     (207, ''Multi-Status''),
     (208, ''Already Reported''),
     (226, ''IM Used''),
     (300, ''Multiple Choices''),
     (301, ''Moved Permanently''),
     (302, ''Found''),
     (303, ''See Other''),
     (304, ''Not Modified''),
     (305, ''Use Proxy''),
     (306, ''Switch Proxy''),
     (307, ''Temporary Redirect''),
     (308, ''Permanent Redirect''),
     (400, ''Bad Request''),
     (401, ''Unauthorized''),
     (402, ''Payment Required''),
     (403, ''Forbidden''),
     (404, ''Not Found''),
     (405, ''Method Not Allowed''),
     (406, ''Not Acceptable''),
     (407, ''Proxy Authentication Required''),
     (408, ''Request Timeout''),
     (409, ''Conflict''),
     (410, ''Gone''),
     (411, ''Length Required''),
     (412, ''Precondition Failed''),
     (413, ''Payload Too Large''),
     (414, ''URI Too Long''),
     (415, ''Unsupported Media Type''),
     (416, ''Range Not Satisfiable''),
     (417, ''Expectation Failed''),
     (418, ''I'' @ [CHR 0x27] @ ''m a teapot''),
     (421, ''Misdirected Request''),
     (422, ''Unprocessable Entity''),
     (423, ''Locked''),
     (424, ''Failed Dependency''),
     (425, ''Too Early''),
     (426, ''Upgrade Required''),
     (428, ''Precondition Required''),
     (429, ''Too Many Requests''),
     (431, ''Request Header Fields Too Large''),
     (451, ''Unavailable For Legal Reasons''),
     (500, ''Internal Server Error''),
     (501, ''Not Implemented''),
     (502, ''Bad Gateway''),
     (503, ''Service Unavailable''),
     (504, ''Gateway Timeout''),
     (505, ''HTTP Version Not Supported''),
     (506, ''Variant Also Negotiates''),
     (507, ''Insufficient Storage''),
     (508, ''Loop Detected''),
     (510, ''Not Extended''),
     (511, ''Network Authentication Required'')]"

definition extension_lookup_table :: "(string \<times> string) list" where
  "extension_lookup_table =
    [(''html'', ''text/html''),
     (''htm'', ''text/html''),
     (''shtml'', ''text/html''),
     (''css'', ''text/css''),
     (''xml'', ''text/xml''),
     (''gif'', ''image/gif''),
     (''jpeg'', ''image/jpeg''),
     (''jpg'', ''image/jpeg''),
     (''js'', ''application/javascript''),
     (''atom'', ''application/atom+xml''),
     (''rss'', ''application/rss+xml''),
     (''mml'', ''text/mathml''),
     (''txt'', ''text/plain''),
     (''jad'', ''text/vnd.sun.jme.app-descriptor''),
     (''wml'', ''text/vnd.wap.wml''),
     (''htc'', ''text/x-component''),
     (''png'', ''image/png''),
     (''svg'', ''image/svg+xml''),
     (''svgz'', ''image/svg+xml''),
     (''tif'', ''image/tiff''),
     (''tiff'', ''image/tiff''),
     (''wbmp'', ''image/vnd.wap.wbmp''),
     (''webp'', ''image/webp''),
     (''ico'', ''image/x-icon''),
     (''jng'', ''image/x-jng''),
     (''bmp'', ''image/x-ms-bmp''),
     (''woff'', ''font/woff''),
     (''woff2'', ''font/woff2''),
     (''jar'', ''application/java-archive''),
     (''war'', ''application/java-archive''),
     (''ear'', ''application/java-archive''),
     (''json'', ''application/json''),
     (''hqx'', ''application/mac-binhex40''),
     (''doc'', ''application/msword''),
     (''pdf'', ''application/pdf''),
     (''ps'', ''application/postscript''),
     (''eps'', ''application/postscript''),
     (''ai'', ''application/postscript''),
     (''rtf'', ''application/rtf''),
     (''m3u8'', ''application/vnd.apple.mpegurl''),
     (''kml'', ''application/vnd.google-earth.kml+xml''),
     (''kmz'', ''application/vnd.google-earth.kmz''),
     (''xls'', ''application/vnd.ms-excel''),
     (''eot'', ''application/vnd.ms-fontobject''),
     (''ppt'', ''application/vnd.ms-powerpoint''),
     (''odg'', ''application/vnd.oasis.opendocument.graphics''),
     (''odp'', ''application/vnd.oasis.opendocument.presentation''),
     (''ods'', ''application/vnd.oasis.opendocument.spreadsheet''),
     (''odt'', ''application/vnd.oasis.opendocument.text''),
     (''wmlc'', ''application/vnd.wap.wmlc''),
     (''7z'', ''application/x-7z-compressed''),
     (''cco'', ''application/x-cocoa''),
     (''jardiff'', ''application/x-java-archive-diff''),
     (''jnlp'', ''application/x-java-jnlp-file''),
     (''run'', ''application/x-makeself''),
     (''pl'', ''application/x-perl''),
     (''pm'', ''application/x-perl''),
     (''prc'', ''application/x-pilot''),
     (''pdb'', ''application/x-pilot''),
     (''rar'', ''application/x-rar-compressed''),
     (''rpm'', ''application/x-redhat-package-manager''),
     (''sea'', ''application/x-sea''),
     (''swf'', ''application/x-shockwave-flash''),
     (''sit'', ''application/x-stuffit''),
     (''tcl'', ''application/x-tcl''),
     (''tk'', ''application/x-tcl''),
     (''der'', ''application/x-x509-ca-cert''),
     (''pem'', ''application/x-x509-ca-cert''),
     (''crt'', ''application/x-x509-ca-cert''),
     (''xpi'', ''application/x-xpinstall''),
     (''xhtml'', ''application/xhtml+xml''),
     (''xspf'', ''application/xspf+xml''),
     (''zip'', ''application/zip''),
     (''bin'', ''application/octet-stream''),
     (''exe'', ''application/octet-stream''),
     (''dll'', ''application/octet-stream''),
     (''deb'', ''application/octet-stream''),
     (''dmg'', ''application/octet-stream''),
     (''iso'', ''application/octet-stream''),
     (''img'', ''application/octet-stream''),
     (''msi'', ''application/octet-stream''),
     (''msp'', ''application/octet-stream''),
     (''msm'', ''application/octet-stream''),
     (''mid'', ''audio/midi''),
     (''midi'', ''audio/midi''),
     (''kar'', ''audio/midi''),
     (''mp3'', ''audio/mpeg''),
     (''ogg'', ''audio/ogg''),
     (''m4a'', ''audio/x-m4a''),
     (''ra'', ''audio/x-realaudio''),
     (''3gpp'', ''video/3gpp''),
     (''3gp'', ''video/3gpp''),
     (''ts'', ''video/mp2t''),
     (''mp4'', ''video/mp4''),
     (''mpeg'', ''video/mpeg''),
     (''mpg'', ''video/mpeg''),
     (''mov'', ''video/quicktime''),
     (''webm'', ''video/webm''),
     (''flv'', ''video/x-flv''),
     (''m4v'', ''video/x-m4v''),
     (''mng'', ''video/x-mng''),
     (''asx'', ''video/x-ms-asf''),
     (''asf'', ''video/x-ms-asf''),
     (''wmv'', ''video/x-ms-wmv''),
     (''avi'', ''video/x-msvideo''),
     (''wasm'', ''application/wasm'')]"

section \<open>Data\<close>

datatype lifetime = Session | Expires tm | Max_age int

record cookie_attributes =
  ca_lifetime :: lifetime
  ca_http_only :: bool
  ca_secure :: bool
  ca_path :: "string option"
  ca_domain :: "string option"

definition default_cookie_attributes :: cookie_attributes where
  "default_cookie_attributes =
     \<lparr>ca_lifetime = Session, ca_http_only = False, ca_secure = True, ca_path = None, ca_domain = None\<rparr>"

record response =
  rs_version :: string
  rs_status_code :: int
  rs_reason_phrase :: string
  rs_fields :: "(string, string) omultimap"
  rs_message_body :: "bytes option"

type_synonym error_body_generator = "(int \<Rightarrow> string \<Rightarrow> string) option"

definition default_response :: response where
  "default_response =
     \<lparr>rs_version = ''HTTP/1.1'', rs_status_code = 200, rs_reason_phrase = [],
      rs_fields = [(''Content-Type'', ''text/html, charset=utf-8'')], rs_message_body = None\<rparr>"

section \<open>Operations\<close>

text \<open>\<^verbatim>\<open>Response(Error const&, ErrorBodyGenerator)\<close>; an error is its code and its message.\<close>

definition response_of_error :: "int \<Rightarrow> string \<Rightarrow> error_body_generator \<Rightarrow> response" where
  "response_of_error code what generator =
     default_response\<lparr>rs_status_code := code,
       rs_message_body := Some (bytes_of_string (case generator of Some g \<Rightarrow> g code what | None \<Rightarrow> what))\<rparr>"

definition response_of_body :: "bytes \<Rightarrow> response" where
  "response_of_body body = default_response\<lparr>rs_message_body := Some body\<rparr>"

definition cookie_value :: "string \<Rightarrow> string \<Rightarrow> cookie_attributes \<Rightarrow> string" where
  "cookie_value name val attributes =
     name @ ''='' @ val
     @ (case ca_lifetime attributes of Expires t \<Rightarrow> ''; Expires='' @ mkdatestr t | _ \<Rightarrow> [])
     @ (case ca_lifetime attributes of Max_age s \<Rightarrow> ''; Max-Age='' @ int_to_string s @ ''s'' | _ \<Rightarrow> [])
     @ (if ca_secure attributes then ''; Secure'' else [])
     @ (if ca_http_only attributes then ''; HttpOnly'' else [])
     @ (case ca_path attributes of Some p \<Rightarrow> ''; Path='' @ p | None \<Rightarrow> [])
     @ (case ca_domain attributes of Some d \<Rightarrow> ''; Domain='' @ d | None \<Rightarrow> [])"

definition setCookie :: "string \<Rightarrow> string \<Rightarrow> cookie_attributes \<Rightarrow> response \<Rightarrow> response" where
  "setCookie name val attributes r =
     r\<lparr>rs_fields := omm_emplace ''Set-Cookie'' (cookie_value name val attributes) (rs_fields r)\<rparr>"

definition contentTypeLookup :: "string \<Rightarrow> string" where
  "contentTypeLookup extension =
     (let extension = (if length extension > 0 \<and> extension ! 0 = CHR ''.'' then drop 1 extension else extension)
      in case map_of extension_lookup_table extension of None \<Rightarrow> ''text/plain'' | Some t \<Rightarrow> t)"

definition setContentTypeFromExtension :: "string \<Rightarrow> response \<Rightarrow> response" where
  "setContentTypeFromExtension extension r =
     r\<lparr>rs_fields := omm_emplace ''Content-Type'' (contentTypeLookup extension)
         (omm_erase ''Content-Type'' (rs_fields r))\<rparr>"

fun serialize_fields :: "(string \<times> string) list \<Rightarrow> bytes" where
  "serialize_fields [] = []"
| "serialize_fields ((name, val) # fs) =
     bytes_of_string name @ bytes_of_string '': '' @ bytes_of_string val @ bytes_of_string crlf
     @ serialize_fields fs"

text \<open>\<^verbatim>\<open>code2reason.at\<close> throws for a code that is not in the table.\<close>

definition serialize :: "response \<Rightarrow> bytes result" where
  "serialize r =
     rbind (if rs_reason_phrase r = []
            then case map_of code2reason (rs_status_code r) of
                   None \<Rightarrow> Inl out_of_range | Some reason \<Rightarrow> Inr reason
            else Inr (rs_reason_phrase r)) (\<lambda>reason.
     Inr (bytes_of_string (rs_version r) @ bytes_of_string '' ''
          @ bytes_of_string (int_to_string (rs_status_code r)) @ bytes_of_string '' ''
          @ bytes_of_string reason @ bytes_of_string crlf
          @ serialize_fields (rs_fields r)
          @ (case rs_message_body r of
               Some body \<Rightarrow>
                 if omm_find ''Content-Length'' (rs_fields r) = None
                 then bytes_of_string ''Content-Length: '' @ bytes_of_string (nat_to_string (length body))
                      @ bytes_of_string crlf
                 else []
             | None \<Rightarrow> [])
          @ bytes_of_string crlf
          @ (case rs_message_body r of Some body \<Rightarrow> body | None \<Rightarrow> [])))"

section \<open>Invariant: the fields stay sorted\<close>

lemma sorted_default: "omm_sorted (rs_fields default_response)"
  by (simp add: default_response_def omm_sorted_def)

lemma sorted_error: "omm_sorted (rs_fields (response_of_error code what gen))"
  by (simp add: response_of_error_def sorted_default)

lemma sorted_setCookie: "omm_sorted (rs_fields r) \<Longrightarrow> omm_sorted (rs_fields (setCookie n v a r))"
  by (simp add: setCookie_def omm.invar_emplace)

lemma sorted_setContentType:
  "omm_sorted (rs_fields r) \<Longrightarrow> omm_sorted (rs_fields (setContentTypeFromExtension e r))"
  by (simp add: setContentTypeFromExtension_def omm.invar_emplace omm.invar_erase)

section \<open>The text of a response\<close>

text \<open>The fields a serialized response carries.\<close>

definition sent_fields :: "response \<Rightarrow> (string \<times> string) list" where
  "sent_fields r = rs_fields r @
     (case rs_message_body r of
        Some body \<Rightarrow> if omm_find ''Content-Length'' (rs_fields r) = None
                     then [(''Content-Length'', nat_to_string (length body))] else []
      | None \<Rightarrow> [])"

definition reason_of :: "response \<Rightarrow> string option" where
  "reason_of r = (if rs_reason_phrase r = [] then map_of code2reason (rs_status_code r)
                  else Some (rs_reason_phrase r))"

definition status_line :: "response \<Rightarrow> string \<Rightarrow> string" where
  "status_line r reason = rs_version r @ '' '' @ int_to_string (rs_status_code r) @ '' '' @ reason"

lemma serialize_fields_lines:
  "serialize_fields fs = bytes_of_string (concat (map (\<lambda>nv. field_line nv @ crlf) fs))"
  by (induction fs rule: serialize_fields.induct) (simp_all add: field_line_def)

lemma serialize_fields_append: "serialize_fields (fs @ gs) = serialize_fields fs @ serialize_fields gs"
  by (induction fs rule: serialize_fields.induct) simp_all

lemma serialize_text:
  "serialize r = (case reason_of r of
     None \<Rightarrow> Inl out_of_range
   | Some reason \<Rightarrow>
       Inr (bytes_of_string (status_line r reason @ crlf
              @ concat (map (\<lambda>nv. field_line nv @ crlf) (sent_fields r)) @ crlf)
            @ (case rs_message_body r of Some body \<Rightarrow> body | None \<Rightarrow> [])))"
  by (auto simp: serialize_def reason_of_def status_line_def sent_fields_def serialize_fields_lines
      field_line_def split: option.splits)

section \<open>Reading a response back\<close>

text \<open>A client: the status line, the fields up to the first empty line, the rest is the body.\<close>

definition client_read :: "bytes \<Rightarrow> (string \<times> field_map \<times> bytes) option" where
  "client_read out =
     (case find_sub (crlf @ crlf) (string_of_bytes out) 0 of
        None \<Rightarrow> None
      | Some header_end \<Rightarrow>
          let head = take (header_end + 2) (string_of_bytes out)
          in case find_sub crlf head 0 of
               None \<Rightarrow> None
             | Some eol \<Rightarrow>
                 (case parse_fields (drop (eol + 2) head) of
                    Inl _ \<Rightarrow> None
                  | Inr fs \<Rightarrow> Some (take eol head, fs, drop (header_end + 4) out)))"

definition clean_line :: "string \<Rightarrow> bool" where
  "clean_line s \<longleftrightarrow> s \<noteq> [] \<and> CHR 0x0D \<notin> set s"

lemma drop_prefix: "length xs = n \<Longrightarrow> drop n (xs @ ys) = ys"
  by simp

lemma client_read_text:
  assumes "clean_line line" and "\<forall>nv \<in> set fs. clean_field nv"
    and "length (concat (map (\<lambda>nv. field_line nv @ crlf) fs)) < npos32"
  shows "client_read (bytes_of_string (line @ crlf @ concat (map (\<lambda>nv. field_line nv @ crlf) fs) @ crlf) @ body) =
    Some (line, lower_names fs, body)"
proof -
  let ?lines = "concat (map (\<lambda>nv. field_line nv @ crlf) fs)"
  let ?head = "line @ crlf @ ?lines"
  let ?text = "?head @ crlf @ string_of_bytes body"
  have all: "string_of_bytes (bytes_of_string (line @ crlf @ ?lines @ crlf) @ body) = ?text"
    by (simp add: comp_def)
  have "index_sub (crlf @ crlf) (concat (map (\<lambda>l. l @ crlf) (line # map field_line fs)) @ crlf @ string_of_bytes body) =
      Some (length (concat (map (\<lambda>l. l @ crlf) (line # map field_line fs))) - 2)"
    using assms(1,2) by (intro index_empty_line) (auto simp: clean_line_def field_line_no_cr)
  then have idx: "find_sub (crlf @ crlf) ?text 0 = Some (length ?head - 2)"
    by (simp add: find_sub_def comp_def)
  have two: "length ?head - 2 + 2 = length ?head" "length ?head - 2 + 4 = length (?head @ crlf)"
    by (simp_all add: crlf_def)
  then have head: "take (length ?head - 2 + 2) ?text = ?head"
    by simp
  have "index_sub crlf ?head = Some (length line)"
    using assms(1) index_sub_first [of "CHR 0x0D" line "[CHR 0x0A]" ?lines] by (simp add: clean_line_def crlf_def)
  then have eol: "find_sub crlf ?head 0 = Some (length line)"
    by (simp add: find_sub_def)
  have rest: "drop (length line + 2) ?head = ?lines"
    by (simp add: crlf_def)
  have fields: "parse_fields ?lines = Inr (lower_names fs)"
    using parse_fields_clean [OF assms(2), of "[]"] assms(3) by (simp add: lower_names_def)
  have body: "drop (length ?head - 2 + 4) (bytes_of_string (line @ crlf @ ?lines @ crlf) @ body) = body"
    unfolding two(2) by (rule drop_prefix) simp
  show ?thesis
    unfolding client_read_def all idx option.case Let_def head eol rest fields sum.case body
    by simp
qed

lemma clean_content_length: "clean_field (''Content-Length'', nat_to_string n)"
proof -
  have "c \<notin> set illegal_chars \<and> c \<noteq> CHR ''%'' \<and> c \<noteq> CHR 0x0D" if "c \<in> set (nat_to_string n)" for c
    using that nat_to_string_digit_vals [of n] by (auto simp: illegal_chars_def digit_val_def)
  moreover have "hd (nat_to_string n) \<in> set (nat_to_string n)" "last (nat_to_string n) \<in> set (nat_to_string n)"
    by simp_all
  ultimately show ?thesis
    unfolding clean_field_def by (fastforce simp: illegal_chars_def)
qed

lemma clean_sent_fields:
  "\<forall>nv \<in> set (rs_fields r). clean_field nv \<Longrightarrow> \<forall>nv \<in> set (sent_fields r). clean_field nv"
  by (auto simp: sent_fields_def clean_content_length split: option.splits)


section \<open>The responses the operations build\<close>

text \<open>
  The constructors, and the changes a handler makes to a response: its status, its body, one
  more field, a cookie, the content type.
\<close>

inductive built :: "response \<Rightarrow> bool" where
  built_default: "built default_response"
| built_error: "built (response_of_error code what generator)"
| built_body: "built (response_of_body body)"
| built_status: "built r \<Longrightarrow> built (r\<lparr>rs_status_code := code, rs_reason_phrase := reason\<rparr>)"
| built_message_body: "built r \<Longrightarrow> built (r\<lparr>rs_message_body := b\<rparr>)"
| built_field: "built r \<Longrightarrow> built (r\<lparr>rs_fields := omm_emplace name val (rs_fields r)\<rparr>)"
| built_cookie: "built r \<Longrightarrow> built (setCookie name val attributes r)"
| built_content_type: "built r \<Longrightarrow> built (setContentTypeFromExtension extension r)"

lemma sorted_built: "built r \<Longrightarrow> omm_sorted (rs_fields r)"
  by (induction rule: built.induct)
    (simp_all add: sorted_default sorted_error sorted_setCookie sorted_setContentType
      response_of_body_def omm.invar_emplace)

lemma filter_omm_emplace:
  assumes "omm_sorted m"
  shows "filter (\<lambda>p. fst p = k) (omm_emplace k' v m) =
    filter (\<lambda>p. fst p = k) m @ (if k' = k then [(k, v)] else [])"
  using assms
proof (induction k' v m rule: omm_emplace.induct)
  case (2 a v a' v' m)
  have "filter (\<lambda>p. fst p = k) m = []" if "a < a'" "a = k"
    using 2(2) that by (auto simp: omm_sorted_def filter_empty_conv)
  with 2 show ?case
    by (auto simp: omm_sorted_def)
qed simp

lemma filter_not_omm_emplace:
  "filter (\<lambda>p. fst p \<noteq> k) (omm_emplace k v m) = filter (\<lambda>p. fst p \<noteq> k) m"
  by (induction k v m rule: omm_emplace.induct) auto

section \<open>Error responses\<close>

lemma code2reason_clean:
  "map_of code2reason code = Some reason \<Longrightarrow> CHR 0x0D \<notin> set reason"
  by (drule map_of_SomeD) (auto simp: code2reason_def)

lemma code2reason_positive: "map_of code2reason code = Some reason \<Longrightarrow> 0 \<le> code"
  by (drule map_of_SomeD) (auto simp: code2reason_def)

lemma nat_to_string_no_cr: "CHR 0x0D \<notin> set (nat_to_string n)"
  using nat_to_string_digit_vals [of n] by (auto simp: digit_val_def)

lemma clean_default_field: "clean_field (''Content-Type'', ''text/html, charset=utf-8'')"
  by (simp add: clean_field_def illegal_chars_def)

lemma sent_error_fields:
  "sent_fields (response_of_error code what g) =
   [(''Content-Type'', ''text/html, charset=utf-8''),
    (''Content-Length'', nat_to_string (length (case g of Some g \<Rightarrow> g code what | None \<Rightarrow> what)))]"
  by (simp add: sent_fields_def response_of_error_def default_response_def omm_find_def)

section \<open>Properties\<close>

text \<open>
  C23. What a client reads from a serialized response is the status line, every field with
  the value that was set (the names in lower case, in the order of the map), the content length
  the code adds for a body without one, and the body, byte for byte.
\<close>

theorem serialize_roundtrip:
  assumes "reason_of r = Some reason" and "clean_line (status_line r reason)"
    and "\<forall>nv \<in> set (rs_fields r). clean_field nv"
    and "length (concat (map (\<lambda>nv. field_line nv @ crlf) (sent_fields r))) < npos32"
  shows "\<exists>out. serialize r = Inr out \<and>
    client_read out = Some (status_line r reason, lower_names (sent_fields r),
      (case rs_message_body r of Some body \<Rightarrow> body | None \<Rightarrow> []))"
  using client_read_text [OF assms(2) clean_sent_fields [OF assms(3)] assms(4)] assms(1)
  by (simp add: serialize_text)

theorem serialize_roundtrip_witness:
  "\<exists>out. serialize (response_of_body (bytes_of_string ''hi'')) = Inr out \<and>
    client_read out = Some (''HTTP/1.1 200 OK'',
      [(''content-type'', ''text/html, charset=utf-8''), (''content-length'', ''2'')], bytes_of_string ''hi'')"
  using serialize_roundtrip [of "response_of_body (bytes_of_string ''hi'')" "''OK''"]
  by (simp add: response_of_body_def default_response_def reason_of_def code2reason_def
      clean_line_def status_line_def int_to_string_def nat_to_string.simps digit_char_def
      sent_fields_def omm_find_def clean_field_def illegal_chars_def field_line_def crlf_def
      npos32_def lower_names_def to_lower_def tolower_def char_of_def bit_0)

text \<open>
  The response the server makes of an error reaches the client with the error's code and
  its standard reason, the default content type, and a body that is what the error body
  generator made of the error (its message when there is no generator), whatever the message is.
\<close>

lemma error_response_roundtrip:
  assumes "map_of code2reason code = Some reason"
    and "body = bytes_of_string (case g of Some g \<Rightarrow> g code what | None \<Rightarrow> what)"
    and "length body \<le> size_max"
  shows "\<exists>out. serialize (response_of_error code what g) = Inr out \<and>
    client_read out = Some (''HTTP/1.1 '' @ int_to_string code @ '' '' @ reason,
      [(''content-type'', ''text/html, charset=utf-8''), (''content-length'', nat_to_string (length body))], body)"
proof -
  let ?r = "response_of_error code what g"
  have reason: "reason_of ?r = Some reason"
    using assms(1) by (simp add: reason_of_def response_of_error_def default_response_def)
  have line: "status_line ?r reason = ''HTTP/1.1 '' @ int_to_string code @ '' '' @ reason"
    by (simp add: status_line_def response_of_error_def default_response_def)
  have clean: "clean_line (status_line ?r reason)"
    using code2reason_clean [OF assms(1)] code2reason_positive [OF assms(1)]
    by (simp add: line clean_line_def int_to_string_def nat_to_string_no_cr)
  have length: "length body < 10 ^ 20"
    using assms(3) by (simp add: size_max_def)
  have sent_clean: "clean_field nv" if "nv \<in> set (sent_fields ?r)" for nv
    using that clean_default_field clean_content_length by (auto simp: sent_error_fields)
  have sent: "sent_fields ?r =
    [(''Content-Type'', ''text/html, charset=utf-8''), (''Content-Length'', nat_to_string (length body))]"
    using assms(2) by (simp add: sent_error_fields)
  have bound: "length (concat (map (\<lambda>nv. field_line nv @ crlf) (sent_fields ?r))) < npos32"
    using length_nat_to_string [OF length] by (simp add: sent field_line_def crlf_def npos32_def)
  have "client_read (bytes_of_string (status_line ?r reason @ crlf @
      concat (map (\<lambda>nv. field_line nv @ crlf) (sent_fields ?r)) @ crlf) @ body) =
    Some (status_line ?r reason, lower_names (sent_fields ?r), body)"
    using sent_clean by (intro client_read_text [OF clean _ bound]) blast
  moreover have "(case rs_message_body ?r of Some b \<Rightarrow> b | None \<Rightarrow> []) = body"
    using assms(2) by (simp add: response_of_error_def)
  ultimately have "\<exists>out. serialize ?r = Inr out \<and>
    client_read out = Some (status_line ?r reason, lower_names (sent_fields ?r), body)"
    using reason by (simp add: serialize_text)
  moreover have "lower_names (sent_fields ?r) =
    [(''content-type'', ''text/html, charset=utf-8''), (''content-length'', nat_to_string (length body))]"
    by (simp add: sent lower_names_def to_lower_def tolower_def char_of_def bit_0)
  ultimately show ?thesis
    by (simp only: line)
qed

text \<open>
  \<^verbatim>\<open>serialize\<close> throws exactly for a response that has no reason phrase of its own
  and a status code that is not in the table.
\<close>

lemma serialize_throws_iff:
  "(serialize r = Inl out_of_range \<longleftrightarrow>
      rs_reason_phrase r = [] \<and> rs_status_code r \<notin> fst ` set code2reason) \<and>
   ((\<exists>out. serialize r = Inr out) \<longleftrightarrow>
      \<not> (rs_reason_phrase r = [] \<and> rs_status_code r \<notin> fst ` set code2reason))"
  unfolding serialize_text reason_of_def map_of_eq_None_iff [symmetric]
  by (auto split: option.splits)

text \<open>
  Setting the content type replaces it: however the response was built, it then has
  exactly one \<^verbatim>\<open>Content-Type\<close>, and every other field is kept, in order.
\<close>

lemma setContentType_single:
  assumes "built r"
  shows "filter (\<lambda>p. fst p = ''Content-Type'') (rs_fields (setContentTypeFromExtension e r)) =
      [(''Content-Type'', contentTypeLookup e)] \<and>
    filter (\<lambda>p. fst p \<noteq> ''Content-Type'') (rs_fields (setContentTypeFromExtension e r)) =
      filter (\<lambda>p. fst p \<noteq> ''Content-Type'') (rs_fields r)"
  using omm.invar_erase [OF sorted_built [OF assms], of "''Content-Type''"]
  by (simp add: setContentTypeFromExtension_def filter_omm_emplace filter_not_omm_emplace)
    (simp add: omm_erase_def)

end
