(* ===== verification/Routing.thy ===== *)
theory Routing
  imports Request Response
begin

text \<open>
  Extractor.h, Route.h, WSRoute.h and Dispatcher.cpp: the routes an application registers and the
  choice of one of them for a request. A route's regular expression is a parameter of the model:
  the function from a resource to the captured groups (\<open>None\<close> when the resource does not match; a
  group that took no part in the match is empty) and the number of its groups. The functions of
  the application that a route calls are parameters too.
\<close>

section \<open>Extractor\<close>

datatype arg_type = Type_string_view | Type_string | Type_int

datatype arg = String_arg string | Int_arg int

text \<open>
  \<^verbatim>\<open>Extractor<T>::extract\<close>: \<open>None\<close> for false. The parameters start out value-initialized, an
  \<^verbatim>\<open>int\<close> that \<^verbatim>\<open>from_chars\<close> does not store is 0.
\<close>

definition extract_arg :: "arg_type \<Rightarrow> string \<Rightarrow> arg option" where
  "extract_arg t cap =
     (case t of
        Type_int \<Rightarrow>
          (let (ec, v, ptr) = from_chars_int 10 cap 0
           in if ptr \<noteq> length cap \<or> ec = Errc_invalid_argument then None else Some (Int_arg v))
      | _ \<Rightarrow> Some (String_arg cap))"

text \<open>\<^verbatim>\<open>match_results[i + 1]\<close>: the group, an unmatched (empty) one when there are not as many.\<close>

definition sub_match :: "string list \<Rightarrow> nat \<Rightarrow> string" where
  "sub_match caps i = (if i < length caps then caps ! i else [])"

fun extract_args :: "nat \<Rightarrow> string list \<Rightarrow> arg_type list \<Rightarrow> arg list option" where
  "extract_args idx caps [] = Some []"
| "extract_args idx caps (t # ts) =
     (case extract_arg t (sub_match caps idx) of
        None \<Rightarrow> None
      | Some a \<Rightarrow> map_option ((#) a) (extract_args (Suc idx) caps ts))"

section \<open>Route\<close>

record route =
  rt_address :: nat
  rt_pattern :: "string \<Rightarrow> string list option"
  rt_methods :: "string list"
  rt_types :: "arg_type list"
  rt_ftor :: "request \<Rightarrow> arg list \<Rightarrow> response option result"

text \<open>The constructor rejects a pattern with another number of groups than the function has
  arguments.\<close>

definition bad_pattern :: "nat \<Rightarrow> nat \<Rightarrow> fault" where
  "bad_pattern args marks =
     Logic_error (''got invalid pattern; expected '' @ nat_to_string args @ '' markers but got ''
       @ nat_to_string marks)"

definition make_route ::
  "nat \<Rightarrow> (string \<Rightarrow> string list option) \<Rightarrow> nat \<Rightarrow> string list \<Rightarrow> arg_type list \<Rightarrow>
   (request \<Rightarrow> arg list \<Rightarrow> response option result) \<Rightarrow> route result" where
  "make_route address pattern mark_count methods types ftor =
     (if length types \<noteq> mark_count then Inl (bad_pattern (length types) mark_count)
      else Inr \<lparr>rt_address = address, rt_pattern = pattern, rt_methods = methods,
                rt_types = types, rt_ftor = ftor\<rparr>)"

text \<open>The parameters as the arguments of the call, by index: \<^verbatim>\<open>std::get<indexes>(params)...\<close>\<close>

definition unpack :: "nat \<Rightarrow> arg list \<Rightarrow> arg list" where
  "unpack n params = map (\<lambda>i. params ! i) [0..<n]"

definition invoke_route :: "route \<Rightarrow> request \<Rightarrow> arg list \<Rightarrow> response option result" where
  "invoke_route r req params = rt_ftor r req (unpack (length (rt_types r)) params)"

definition match_route :: "route \<Rightarrow> request \<Rightarrow> string list option" where
  "match_route r req = rt_pattern r (h_resource (rq_header req))"

definition call_route :: "route \<Rightarrow> request \<Rightarrow> string list \<Rightarrow> response option result" where
  "call_route r req caps =
     (if h_method (rq_header req) \<notin> set (rt_methods r) then Inl (Http_error 405 [])
      else case extract_args 0 caps (rt_types r) of
             Some args \<Rightarrow> invoke_route r req args
           | None \<Rightarrow> Inl (Http_error 500 []))"

section \<open>WSRoute\<close>

text \<open>
  The handler's \<open>canOpen\<close> and \<open>onOpen\<close> are optional members; each has its own argument types.
  The handler itself is of any type \<^typ>\<open>'h\<close>.
  \<^typ>\<open>'ws\<close> is the state of the websocket that \<open>onOpen\<close> works on.
\<close>

record ('ws, 'h) ws_route =
  wr_address :: nat
  wr_pattern :: "string \<Rightarrow> string list option"
  wr_canOpen :: "(arg_type list \<times> (request \<Rightarrow> arg list \<Rightarrow> bool result)) option"
  wr_onOpen :: "(arg_type list \<times> (request \<Rightarrow> 'ws \<Rightarrow> arg list \<Rightarrow> 'ws \<times> unit result)) option"
  wr_handler :: 'h

text \<open>
  The constructors. Unlike \<^const>\<open>make_route\<close> they do not look at the number of groups:
  \<^verbatim>\<open>ArgExtractorDetail::check\<close> would, but nothing calls it.
\<close>

definition make_ws_route ::
  "nat \<Rightarrow> (string \<Rightarrow> string list option) \<Rightarrow>
   (arg_type list \<times> (request \<Rightarrow> arg list \<Rightarrow> bool result)) option \<Rightarrow>
   (arg_type list \<times> (request \<Rightarrow> 'ws \<Rightarrow> arg list \<Rightarrow> 'ws \<times> unit result)) option \<Rightarrow> 'h \<Rightarrow> ('ws, 'h) ws_route" where
  "make_ws_route address pattern can_open on_open handler =
     \<lparr>wr_address = address, wr_pattern = pattern, wr_canOpen = can_open, wr_onOpen = on_open, wr_handler = handler\<rparr>"

definition ws_check :: "arg_type list \<Rightarrow> nat \<Rightarrow> unit result" where
  "ws_check types mark_count =
     (if length types \<noteq> mark_count then Inl (bad_pattern (length types) mark_count) else Inr ())"

text \<open>\<^verbatim>\<open>ArgExtractorDetail::extract\<close> repeats the one of \<^verbatim>\<open>Route\<close>.\<close>

fun ws_extract :: "nat \<Rightarrow> string list \<Rightarrow> arg_type list \<Rightarrow> arg list option" where
  "ws_extract idx caps [] = Some []"
| "ws_extract idx caps (t # ts) =
     (case extract_arg t (sub_match caps idx) of
        None \<Rightarrow> None
      | Some a \<Rightarrow> map_option ((#) a) (ws_extract (Suc idx) caps ts))"

definition invoke_canOpen ::
  "arg_type list \<Rightarrow> (request \<Rightarrow> arg list \<Rightarrow> bool result) \<Rightarrow> request \<Rightarrow> arg list \<Rightarrow> bool result" where
  "invoke_canOpen types handler req params = handler req (unpack (length types) params)"

definition invoke_onOpen ::
  "arg_type list \<Rightarrow> (request \<Rightarrow> 'ws \<Rightarrow> arg list \<Rightarrow> 'ws \<times> unit result) \<Rightarrow> request \<Rightarrow> 'ws \<Rightarrow> arg list \<Rightarrow>
   'ws \<times> unit result" where
  "invoke_onOpen types handler req ws params = handler req ws (unpack (length types) params)"

definition getHandler :: "('ws, 'h) ws_route \<Rightarrow> 'h" where
  "getHandler r = wr_handler r"

definition canOpen :: "('ws, 'h) ws_route \<Rightarrow> request \<Rightarrow> bool result" where
  "canOpen r req =
     (case wr_pattern r (h_resource (rq_header req)) of
        None \<Rightarrow> Inr False
      | Some caps \<Rightarrow>
          (case wr_canOpen r of
             None \<Rightarrow> Inr True
           | Some (types, handler) \<Rightarrow>
               (case ws_extract 0 caps types of
                  Some args \<Rightarrow> invoke_canOpen types handler req args
                | None \<Rightarrow> Inr True)))"

definition incorrect_request :: fault where
  "incorrect_request = Logic_error ''cannot call onOpen with incorrect request''"

definition onOpen :: "('ws, 'h) ws_route \<Rightarrow> request \<Rightarrow> 'ws \<Rightarrow> 'ws \<times> unit result" where
  "onOpen r req ws =
     (case wr_pattern r (h_resource (rq_header req)) of
        None \<Rightarrow> (ws, Inl incorrect_request)
      | Some caps \<Rightarrow>
          (case wr_onOpen r of
             None \<Rightarrow> (ws, Inr ())
           | Some (types, handler) \<Rightarrow>
               (case ws_extract 0 caps types of
                  Some args \<Rightarrow> invoke_onOpen types handler req ws args
                | None \<Rightarrow> (ws, Inr ()))))"

section \<open>Dispatcher\<close>

record ('ws, 'h) dispatcher =
  dp_error_body_generator :: error_body_generator
  dp_routes :: "route list"
  dp_ws_routes :: "('ws, 'h) ws_route list"

definition make_dispatcher :: "error_body_generator \<Rightarrow> ('ws, 'h) dispatcher" where
  "make_dispatcher generator =
     \<lparr>dp_error_body_generator = generator, dp_routes = [], dp_ws_routes = []\<rparr>"

text \<open>\<^verbatim>\<open>routes.erase(std::find(...))\<close>: erasing the end iterator is undefined.\<close>

fun erase_address :: "('r \<Rightarrow> nat) \<Rightarrow> nat \<Rightarrow> 'r list \<Rightarrow> 'r list result" where
  "erase_address address a [] = Inl (Undefined ''erase of the end iterator'')"
| "erase_address address a (r # rs) =
     (if address r = a then Inr rs
      else rbind (erase_address address a rs) (\<lambda>rs'. Inr (r # rs')))"

definition addRoute :: "route \<Rightarrow> ('ws, 'h) dispatcher \<Rightarrow> ('ws, 'h) dispatcher" where
  "addRoute r d = d\<lparr>dp_routes := dp_routes d @ [r]\<rparr>"

definition removeRoute :: "nat \<Rightarrow> ('ws, 'h) dispatcher \<Rightarrow> ('ws, 'h) dispatcher result" where
  "removeRoute a d =
     rbind (erase_address rt_address a (dp_routes d)) (\<lambda>rs. Inr (d\<lparr>dp_routes := rs\<rparr>))"

definition addRouteWS :: "('ws, 'h) ws_route \<Rightarrow> ('ws, 'h) dispatcher \<Rightarrow> ('ws, 'h) dispatcher" where
  "addRouteWS r d = d\<lparr>dp_ws_routes := dp_ws_routes d @ [r]\<rparr>"

definition removeRouteWS :: "nat \<Rightarrow> ('ws, 'h) dispatcher \<Rightarrow> ('ws, 'h) dispatcher result" where
  "removeRouteWS a d =
     rbind (erase_address wr_address a (dp_ws_routes d)) (\<lambda>rs. Inr (d\<lparr>dp_ws_routes := rs\<rparr>))"

record url_match_info =
  mi_match :: "string list"
  mi_route :: route
  mi_score :: int

text \<open>The score of a match: the characters of the resource that no group captured, as an
  \<^verbatim>\<open>int\<close>.\<close>

definition match_score :: "string \<Rightarrow> string list \<Rightarrow> int" where
  "match_score resource caps =
     foldl (\<lambda>score sub_m. to_int32 (score - int (length sub_m))) (to_int32 (int (length resource))) caps"

fun collect_matches :: "request \<Rightarrow> route list \<Rightarrow> url_match_info list" where
  "collect_matches req [] = []"
| "collect_matches req (r # rs) =
     (case match_route r req of
        None \<Rightarrow> collect_matches req rs
      | Some caps \<Rightarrow>
          \<lparr>mi_match = caps, mi_route = r,
           mi_score = match_score (h_resource (rq_header req)) caps\<rparr> # collect_matches req rs)"

text \<open>\<^verbatim>\<open>std::max_element\<close>: the first of the largest elements.\<close>

fun max_element_from :: "('a \<Rightarrow> 'a \<Rightarrow> bool) \<Rightarrow> 'a \<Rightarrow> 'a list \<Rightarrow> 'a" where
  "max_element_from lt largest [] = largest"
| "max_element_from lt largest (x # xs) =
     max_element_from lt (if lt largest x then x else largest) xs"

definition max_element :: "('a \<Rightarrow> 'a \<Rightarrow> bool) \<Rightarrow> 'a list \<Rightarrow> 'a option" where
  "max_element lt xs = (case xs of [] \<Rightarrow> None | x # xs \<Rightarrow> Some (max_element_from lt x xs))"

text \<open>The handlers of the try block around a route's call.\<close>

definition response_of_outcome ::
  "error_body_generator \<Rightarrow> response option result \<Rightarrow> response result" where
  "response_of_outcome generator outcome =
     (case outcome of
        Inr (Some resp) \<Rightarrow> Inr resp
      | Inr None \<Rightarrow> Inr (response_of_error 404 [] generator)
      | Inl (Http_error code what) \<Rightarrow> Inr (response_of_error code what generator)
      | Inl (Runtime_error what) \<Rightarrow> Inr (response_of_error 500 what None)
      | Inl (Logic_error what) \<Rightarrow> Inr (response_of_error 500 what None)
      | Inl Other_throw \<Rightarrow> Inr (response_of_error 500 ''uncaught error'' None)
      | Inl (Undefined what) \<Rightarrow> Inl (Undefined what)
      | Inl Out_of_fuel \<Rightarrow> Inl Out_of_fuel)"

definition route_request :: "('ws, 'h) dispatcher \<Rightarrow> request \<Rightarrow> response result" where
  "route_request d req =
     (case max_element (\<lambda>l r. mi_score l < mi_score r) (collect_matches req (dp_routes d)) of
        None \<Rightarrow> Inr (response_of_error 404 [] (dp_error_body_generator d))
      | Some best \<Rightarrow>
          response_of_outcome (dp_error_body_generator d)
            (call_route (mi_route best) req (mi_match best)))"

fun first_open :: "request \<Rightarrow> ('ws, 'h) ws_route list \<Rightarrow> ('ws, 'h) ws_route result" where
  "first_open req [] = Inl (Http_error 404 [])"
| "first_open req (r # rs) =
     rbind (canOpen r req) (\<lambda>accept. if accept then Inr r else first_open req rs)"

definition routeWS :: "('ws, 'h) dispatcher \<Rightarrow> request \<Rightarrow> ('ws, 'h) ws_route result" where
  "routeWS d req = first_open req (dp_ws_routes d)"

section \<open>Extracting arguments\<close>

fun arg_text :: "arg \<Rightarrow> string" where
  "arg_text (String_arg s) = s"
| "arg_text (Int_arg i) = int_to_string i"

fun arg_fits :: "arg_type \<Rightarrow> arg \<Rightarrow> bool" where
  "arg_fits Type_int (Int_arg i) \<longleftrightarrow> - (2 ^ 31) \<le> i \<and> i < 2 ^ 31"
| "arg_fits Type_int (String_arg s) \<longleftrightarrow> False"
| "arg_fits t (String_arg s) \<longleftrightarrow> True"
| "arg_fits t (Int_arg i) \<longleftrightarrow> False"

lemma from_chars_int_to_string:
  "from_chars_int 10 (int_to_string i) old =
   (if - (2 ^ 31) \<le> i \<and> i < 2 ^ 31 then (Errc_ok, i, length (int_to_string i))
    else (Errc_out_of_range, old, length (int_to_string i)))"
proof -
  have "digit_val 10 CHR ''-'' = None"
    by (simp add: digit_val_def)
  then have "hd (nat_to_string n) \<noteq> CHR ''-''" for n
    using nat_to_string_digit_vals [of n] hd_in_set [OF nat_to_string_nonempty [of n]] by metis
  then show ?thesis
    by (simp add: from_chars_int_def int_to_string_def scan_nat_to_string)
qed

lemma extract_int_text:
  "extract_arg Type_int (int_to_string i) =
     Some (Int_arg (if - (2 ^ 31) \<le> i \<and> i < 2 ^ 31 then i else 0))"
  by (simp add: extract_arg_def from_chars_int_to_string)

lemma extract_fitting: "arg_fits t a \<Longrightarrow> extract_arg t (arg_text a) = Some a"
  by (cases t; cases a) (simp_all add: extract_int_text, simp_all add: extract_arg_def)

lemma from_chars_int_range:
  "from_chars_int base s 0 = (ec, v, ptr) \<Longrightarrow> - (2 ^ 31) \<le> v \<and> v < 2 ^ 31"
  by (auto simp: from_chars_int_def Let_def split: prod.splits if_splits)

lemma extract_arg_fits: "extract_arg t cap = Some a \<Longrightarrow> arg_fits t a"
  using from_chars_int_range by (cases t) (auto simp: extract_arg_def split: prod.splits if_splits)

lemma extract_args_fit: "extract_args i caps ts = Some as \<Longrightarrow> list_all2 arg_fits ts as"
  by (induction ts arbitrary: i as) (auto split: option.splits simp: extract_arg_fits)

lemma extract_args_fitting:
  assumes "list_all2 arg_fits ts as"
  shows "extract_args (length pre) (pre @ map arg_text as) ts = Some as"
  using assms
proof (induction ts as arbitrary: pre rule: list_all2_induct)
  case (Cons t ts a as)
  then show ?case
    using Cons.IH [of "pre @ [arg_text a]"] by (simp add: sub_match_def extract_fitting)
qed simp

text \<open>The functions are called with the parameters as they were extracted.\<close>

lemma unpack_all: "length params = n \<Longrightarrow> unpack n params = params"
  by (auto simp: unpack_def map_nth)

lemma ws_extract_eq: "ws_extract idx caps types = extract_args idx caps types"
  by (induction types arbitrary: idx) (simp_all split: option.split)

lemma length_extract_args: "extract_args i caps ts = Some as \<Longrightarrow> length as = length ts"
  by (metis extract_args_fit list_all2_lengthD)

lemma call_route_eq:
  "call_route r req caps =
     (if h_method (rq_header req) \<notin> set (rt_methods r) then Inl (Http_error 405 [])
      else case extract_args 0 caps (rt_types r) of
             Some args \<Rightarrow> rt_ftor r req args
           | None \<Rightarrow> Inl (Http_error 500 []))"
  by (auto simp: call_route_def invoke_route_def unpack_all length_extract_args split: option.split)

lemma canOpen_eq:
  "canOpen r req =
     (case wr_pattern r (h_resource (rq_header req)) of
        None \<Rightarrow> Inr False
      | Some caps \<Rightarrow>
          (case wr_canOpen r of
             None \<Rightarrow> Inr True
           | Some (types, handler) \<Rightarrow>
               (case extract_args 0 caps types of
                  Some args \<Rightarrow> handler req args
                | None \<Rightarrow> Inr True)))"
  by (auto simp: canOpen_def invoke_canOpen_def ws_extract_eq unpack_all length_extract_args split: option.split)

lemma onOpen_eq:
  "onOpen r req ws =
     (case wr_pattern r (h_resource (rq_header req)) of
        None \<Rightarrow> (ws, Inl incorrect_request)
      | Some caps \<Rightarrow>
          (case wr_onOpen r of
             None \<Rightarrow> (ws, Inr ())
           | Some (types, handler) \<Rightarrow>
               (case extract_args 0 caps types of
                  Some args \<Rightarrow> handler req ws args
                | None \<Rightarrow> (ws, Inr ()))))"
  by (auto simp: onOpen_def invoke_onOpen_def ws_extract_eq unpack_all length_extract_args split: option.split)

section \<open>The best match\<close>

definition literal_length :: "string \<Rightarrow> string list \<Rightarrow> int" where
  "literal_length resource caps = int (length resource) - int (sum_list (map length caps))"

definition scores_fit :: "string \<Rightarrow> string list \<Rightarrow> bool" where
  "scores_fit resource caps \<longleftrightarrow> length resource < 2 ^ 31 \<and> sum_list (map length caps) < 2 ^ 31"

lemma foldl_score:
  assumes "- (2 ^ 31) \<le> s - int (sum_list (map length caps))" and "s < 2 ^ 31"
  shows "foldl (\<lambda>score sub_m. to_int32 (score - int (length sub_m))) s caps =
    s - int (sum_list (map length caps))"
  using assms
proof (induction caps arbitrary: s)
  case (Cons c caps)
  have "to_int32 (s - int (length c)) = s - int (length c)"
    using Cons.prems by (intro to_int32_id) auto
  then show ?case
    using Cons.IH [of "s - int (length c)"] Cons.prems by simp
qed simp

lemma match_score_literal: "scores_fit resource caps \<Longrightarrow> match_score resource caps = literal_length resource caps"
  unfolding match_score_def scores_fit_def literal_length_def
  by (subst to_int32_id; (subst foldl_score)?) auto

text \<open>\<open>y\<close> is the first of the largest elements of \<open>xs\<close>.\<close>

definition first_max :: "('a \<Rightarrow> int) \<Rightarrow> 'a list \<Rightarrow> 'a \<Rightarrow> bool" where
  "first_max f xs y \<longleftrightarrow> (\<exists>pre post. xs = pre @ y # post \<and>
     (\<forall>z \<in> set pre. f z < f y) \<and> (\<forall>z \<in> set post. f z \<le> f y))"

lemma first_maxI:
  "xs = pre @ y # post \<Longrightarrow> (\<And>z. z \<in> set pre \<Longrightarrow> f z < f y) \<Longrightarrow> (\<And>z. z \<in> set post \<Longrightarrow> f z \<le> f y)
   \<Longrightarrow> first_max f xs y"
  by (auto simp: first_max_def)

lemma first_max_Cons_larger: "first_max f (z # zs) y \<Longrightarrow> f x < f z \<Longrightarrow> first_max f (x # z # zs) y"
  unfolding first_max_def
proof (elim exE conjE)
  fix pre post
  assume "f x < f z" and split: "z # zs = pre @ y # post" "\<forall>w \<in> set pre. f w < f y" "\<forall>w \<in> set post. f w \<le> f y"
  moreover from split have "f z \<le> f y"
    by (cases pre) auto
  ultimately show "\<exists>pre post. x # z # zs = pre @ y # post \<and> (\<forall>w \<in> set pre. f w < f y) \<and> (\<forall>w \<in> set post. f w \<le> f y)"
    by (intro exI [of _ "x # pre"] exI [of _ post]) auto
qed

lemma first_max_Cons_smaller: "first_max f (x # zs) y \<Longrightarrow> f z \<le> f x \<Longrightarrow> first_max f (x # z # zs) y"
  unfolding first_max_def
proof (elim exE conjE)
  fix pre post
  assume z: "f z \<le> f x" and split: "x # zs = pre @ y # post" "\<forall>w \<in> set pre. f w < f y" "\<forall>w \<in> set post. f w \<le> f y"
  show "\<exists>pre post. x # z # zs = pre @ y # post \<and> (\<forall>w \<in> set pre. f w < f y) \<and> (\<forall>w \<in> set post. f w \<le> f y)"
  proof (cases pre)
    case Nil
    with z split show ?thesis
      by (intro exI [of _ "[]"] exI [of _ "z # post"]) auto
  next
    case (Cons w pre')
    with z split show ?thesis
      by (intro exI [of _ "x # z # pre'"] exI [of _ post]) auto
  qed
qed

lemma first_max_element_from: "first_max f (x # xs) (max_element_from (\<lambda>l r. f l < f r) x xs)"
proof (induction xs arbitrary: x)
  case Nil
  show ?case
    by (rule first_maxI [of _ "[]" _ "[]"]) simp_all
next
  case (Cons z zs)
  show ?case
    using Cons [of z] Cons [of x]
    by (cases "f x < f z") (simp_all add: first_max_Cons_larger first_max_Cons_smaller)
qed

lemma first_max_element:
  "max_element (\<lambda>l r. f l < f r) xs = Some y \<Longrightarrow> first_max f xs y"
  "max_element (\<lambda>l r. f l < f r) xs = None \<longleftrightarrow> xs = []"
  using first_max_element_from by (auto simp: max_element_def split: list.splits)

lemma collect_matches_append:
  "collect_matches req (rs @ rs') = collect_matches req rs @ collect_matches req rs'"
  by (induction rs) (auto split: option.splits)

lemma collect_matches_empty_iff:
  "collect_matches req rs = [] \<longleftrightarrow> (\<forall>r \<in> set rs. match_route r req = None)"
  by (induction rs) (auto split: option.splits)

lemma collect_matches_mem:
  "mi \<in> set (collect_matches req rs) \<longleftrightarrow>
   (\<exists>r \<in> set rs. \<exists>caps. match_route r req = Some caps \<and>
     mi = \<lparr>mi_match = caps, mi_route = r, mi_score = match_score (h_resource (rq_header req)) caps\<rparr>)"
  by (induction rs) (auto split: option.splits)

lemma collect_matches_split:
  assumes "collect_matches req rs = pre @ mi # post"
  shows "\<exists>rs1 rs2. rs = rs1 @ mi_route mi # rs2 \<and> collect_matches req rs1 = pre \<and>
    collect_matches req rs2 = post \<and> match_route (mi_route mi) req = Some (mi_match mi)"
  using assms
proof (induction rs arbitrary: pre)
  case (Cons r rs)
  show ?case
  proof (cases "match_route r req")
    case None
    with Cons obtain rs1 rs2 where "rs = rs1 @ mi_route mi # rs2" "collect_matches req rs1 = pre"
      "collect_matches req rs2 = post" "match_route (mi_route mi) req = Some (mi_match mi)"
      by fastforce
    with None show ?thesis
      by (intro exI [of _ "r # rs1"] exI [of _ rs2]) simp
  next
    case (Some caps)
    show ?thesis
    proof (cases pre)
      case Nil
      with Some Cons.prems show ?thesis
        by (intro exI [of _ "[]"] exI [of _ rs]) auto
    next
      case (Cons p pre')
      with Some Cons.prems Cons.IH [of pre'] obtain rs1 rs2 where "rs = rs1 @ mi_route mi # rs2"
        "collect_matches req rs1 = pre'" "collect_matches req rs2 = post"
        "match_route (mi_route mi) req = Some (mi_match mi)"
        by auto
      with Some Cons Cons.prems show ?thesis
        by (intro exI [of _ "r # rs1"] exI [of _ rs2]) auto
    qed
  qed
qed simp

lemma best_route_cases [consumes 1, case_names none best]:
  assumes fit: "\<forall>r \<in> set (dp_routes d). \<forall>caps. match_route r req = Some caps \<longrightarrow>
    scores_fit (h_resource (rq_header req)) caps"
  obtains (none) "\<forall>r \<in> set (dp_routes d). match_route r req = None"
      "route_request d req = Inr (response_of_error 404 [] (dp_error_body_generator d))"
  | (best) pre r post caps where "dp_routes d = pre @ r # post" "match_route r req = Some caps"
      "\<forall>r' \<in> set pre. \<forall>caps'. match_route r' req = Some caps' \<longrightarrow>
        literal_length (h_resource (rq_header req)) caps' < literal_length (h_resource (rq_header req)) caps"
      "\<forall>r' \<in> set post. \<forall>caps'. match_route r' req = Some caps' \<longrightarrow>
        literal_length (h_resource (rq_header req)) caps' \<le> literal_length (h_resource (rq_header req)) caps"
      "route_request d req = response_of_outcome (dp_error_body_generator d) (call_route r req caps)"
proof (cases "max_element (\<lambda>l r. mi_score l < mi_score r) (collect_matches req (dp_routes d))")
  case None
  then have "\<forall>r \<in> set (dp_routes d). match_route r req = None"
    by (simp add: first_max_element collect_matches_empty_iff)
  then show ?thesis
    by (rule none) (simp add: route_request_def None)
next
  case (Some mi)
  let ?res = "h_resource (rq_header req)"
  from first_max_element(1) [OF Some] obtain mpre mpost where
    "collect_matches req (dp_routes d) = mpre @ mi # mpost"
    and less: "\<forall>z \<in> set mpre. mi_score z < mi_score mi" "\<forall>z \<in> set mpost. mi_score z \<le> mi_score mi"
    unfolding first_max_def by blast
  from collect_matches_split [OF this(1)] obtain rs1 rs2 where
    routes: "dp_routes d = rs1 @ mi_route mi # rs2" and "collect_matches req rs1 = mpre"
    "collect_matches req rs2 = mpost" and caps: "match_route (mi_route mi) req = Some (mi_match mi)"
    by blast
  moreover have score: "mi_score mi' = literal_length ?res (mi_match mi')"
    if "mi' \<in> set (collect_matches req (dp_routes d))" for mi'
    using that fit by (auto simp: collect_matches_mem match_score_literal)
  have sub: "set mpre \<subseteq> set (collect_matches req (dp_routes d))"
    "set mpost \<subseteq> set (collect_matches req (dp_routes d))" "mi \<in> set (collect_matches req (dp_routes d))"
    using \<open>collect_matches req (dp_routes d) = mpre @ mi # mpost\<close> by auto
  have mem: "\<lparr>mi_match = caps', mi_route = r', mi_score = match_score ?res caps'\<rparr> \<in> set (collect_matches req rs)"
    if "r' \<in> set rs" "match_route r' req = Some caps'" for r' caps' rs
    using that by (auto simp: collect_matches_mem)
  have "literal_length ?res caps' < literal_length ?res (mi_match mi)"
    if "r' \<in> set rs1" "match_route r' req = Some caps'" for r' caps'
    using less(1) mem [OF that] score sub \<open>collect_matches req rs1 = mpre\<close> by fastforce
  moreover have "literal_length ?res caps' \<le> literal_length ?res (mi_match mi)"
    if "r' \<in> set rs2" "match_route r' req = Some caps'" for r' caps'
    using less(2) mem [OF that] score sub \<open>collect_matches req rs2 = mpost\<close> by fastforce
  ultimately show ?thesis
    using Some by (intro best [OF routes caps]) (auto simp: route_request_def)
qed

lemma response_of_outcome_responds:
  "(\<And>ub. outcome \<noteq> Inl (Undefined ub)) \<Longrightarrow> outcome \<noteq> Inl Out_of_fuel \<Longrightarrow>
   \<exists>resp. response_of_outcome generator outcome = Inr resp"
  by (auto simp: response_of_outcome_def split: sum.splits fault.splits option.splits)

lemma call_route_no_fault:
  "(\<And>as. rt_ftor r req as \<noteq> Inl f) \<Longrightarrow> (\<And>code what. f \<noteq> Http_error code what) \<Longrightarrow>
   call_route r req caps \<noteq> Inl f"
  by (auto simp: call_route_eq split: option.splits)

lemma route_request_responds:
  assumes "\<And>r as ub. r \<in> set (dp_routes d) \<Longrightarrow> rt_ftor r req as \<noteq> Inl (Undefined ub) \<and>
    rt_ftor r req as \<noteq> Inl Out_of_fuel"
  shows "\<exists>resp. route_request d req = Inr resp"
proof (cases "max_element (\<lambda>l r. mi_score l < mi_score r) (collect_matches req (dp_routes d))")
  case (Some mi)
  then have "mi \<in> set (collect_matches req (dp_routes d))"
    by (auto dest!: first_max_element(1) simp: first_max_def)
  then have "mi_route mi \<in> set (dp_routes d)"
    by (auto simp: collect_matches_mem)
  with assms have "\<exists>resp. response_of_outcome (dp_error_body_generator d)
      (call_route (mi_route mi) req (mi_match mi)) = Inr resp"
    by (intro response_of_outcome_responds call_route_no_fault) simp_all
  with Some show ?thesis
    by (simp add: route_request_def)
qed (simp add: route_request_def)

lemma first_open_iff:
  "first_open req rs = Inr r \<longleftrightarrow>
     (\<exists>pre post. rs = pre @ r # post \<and> (\<forall>r' \<in> set pre. canOpen r' req = Inr False) \<and>
       canOpen r req = Inr True)"
proof (induction rs)
  case (Cons r' rs)
  show ?case
  proof
    assume first: "first_open req (r' # rs) = Inr r"
    then consider "canOpen r' req = Inr True" "r' = r" | "canOpen r' req = Inr False" "first_open req rs = Inr r"
      by (auto simp: rbind_eq_Inr_iff split: if_splits)
    then show "\<exists>pre post. r' # rs = pre @ r # post \<and> (\<forall>r' \<in> set pre. canOpen r' req = Inr False) \<and>
       canOpen r req = Inr True"
    proof cases
      case 1
      then show ?thesis
        by (intro exI [of _ "[]"] exI [of _ rs]) simp
    next
      case 2
      with Cons obtain pre post where "rs = pre @ r # post" "\<forall>r' \<in> set pre. canOpen r' req = Inr False"
        "canOpen r req = Inr True"
        by blast
      with 2 show ?thesis
        by (intro exI [of _ "r' # pre"] exI [of _ post]) simp
    qed
  next
    assume "\<exists>pre post. r' # rs = pre @ r # post \<and> (\<forall>r' \<in> set pre. canOpen r' req = Inr False) \<and>
       canOpen r req = Inr True"
    then obtain pre post where split: "r' # rs = pre @ r # post"
      "\<forall>r' \<in> set pre. canOpen r' req = Inr False" "canOpen r req = Inr True"
      by blast
    with Cons show "first_open req (r' # rs) = Inr r"
      by (cases pre) auto
  qed
qed simp

section \<open>Registering and deregistering\<close>

text \<open>
  What the global routes rely on: their constructor adds them to the dispatcher of the global
  server and their destructor removes them, by address.
\<close>

locale registry =
  fixes add :: "'r \<Rightarrow> 'd \<Rightarrow> 'd" and remove :: "nat \<Rightarrow> 'd \<Rightarrow> 'd result"
    and entries :: "'d \<Rightarrow> 'r list" and address :: "'r \<Rightarrow> nat"
  assumes entries_add: "entries (add r d) = entries d @ [r]"
    and remove_present: "entries d = rs @ r # rs' \<Longrightarrow> address r \<notin> address ` set rs \<Longrightarrow>
      \<exists>d'. remove (address r) d = Inr d' \<and> entries d' = rs @ rs'"
    and remove_absent: "a \<notin> address ` set (entries d) \<Longrightarrow> \<exists>ub. remove a d = Inl (Undefined ub)"

datatype 'r lifetime_event = Construct 'r | Destruct nat

fun run_events ::
  "('r \<Rightarrow> 'd \<Rightarrow> 'd) \<Rightarrow> (nat \<Rightarrow> 'd \<Rightarrow> 'd result) \<Rightarrow> 'r lifetime_event list \<Rightarrow> 'd \<Rightarrow> 'd result" where
  "run_events add remove [] d = Inr d"
| "run_events add remove (Construct r # es) d = run_events add remove es (add r d)"
| "run_events add remove (Destruct a # es) d = rbind (remove a d) (run_events add remove es)"

text \<open>The routes alive after the events; \<open>None\<close> when an address is reused while its route lives
  or a route is destroyed that does not live.\<close>

fun alive :: "('r \<Rightarrow> nat) \<Rightarrow> 'r lifetime_event list \<Rightarrow> 'r list \<Rightarrow> 'r list option" where
  "alive address [] rs = Some rs"
| "alive address (Construct r # es) rs =
     (if address r \<in> address ` set rs then None else alive address es (rs @ [r]))"
| "alive address (Destruct a # es) rs =
     (if a \<in> address ` set rs then alive address es (filter (\<lambda>r. address r \<noteq> a) rs) else None)"

context registry
begin

lemma remove_address:
  assumes "a \<in> address ` set (entries d)" and "distinct (map address (entries d))"
  shows "\<exists>d'. remove a d = Inr d' \<and> entries d' = filter (\<lambda>r. address r \<noteq> a) (entries d)"
proof -
  from assms(1) obtain rs r rs' where r: "entries d = rs @ r # rs'" "a = address r"
    by (metis imageE split_list)
  moreover have "filter (\<lambda>r. address r \<noteq> a) rs = rs" "filter (\<lambda>r. address r \<noteq> a) rs' = rs'"
    using r assms(2) by (auto simp: filter_id_conv image_iff)
  ultimately show ?thesis
    using remove_present [OF r(1)] assms(2) by auto
qed

theorem run_alive:
  assumes "alive address es (entries d) = Some rs" and "distinct (map address (entries d))"
  shows "\<exists>d'. run_events add remove es d = Inr d' \<and> entries d' = rs"
  using assms
proof (induction es arbitrary: d)
  case (Cons e es)
  show ?case
  proof (cases e)
    case (Construct r)
    with Cons.prems Cons.IH [of "add r d"] show ?thesis
      by (auto simp: entries_add split: if_splits)
  next
    case (Destruct a)
    with Cons.prems have a: "a \<in> address ` set (entries d)"
      and alive: "alive address es (filter (\<lambda>r. address r \<noteq> a) (entries d)) = Some rs"
      by (auto split: if_splits)
    from remove_address [OF a Cons.prems(2)] obtain d' where
      "remove a d = Inr d'" "entries d' = filter (\<lambda>r. address r \<noteq> a) (entries d)"
      by blast
    with Destruct alive Cons.prems(2) Cons.IH [of d'] show ?thesis
      by (simp add: distinct_map_filter)
  qed
qed simp

end

lemma erase_address_present:
  "address r \<notin> address ` set rs \<Longrightarrow> erase_address address (address r) (rs @ r # rs') = Inr (rs @ rs')"
  by (induction rs) auto

lemma erase_address_absent:
  "a \<notin> address ` set rs \<Longrightarrow> erase_address address a rs = Inl (Undefined ''erase of the end iterator'')"
  by (induction rs) auto

interpretation http_routes: registry addRoute removeRoute dp_routes rt_address
  by unfold_locales
    (auto simp: addRoute_def removeRoute_def erase_address_present erase_address_absent)

interpretation ws_routes: registry addRouteWS removeRouteWS dp_ws_routes wr_address
  by unfold_locales
    (auto simp: addRouteWS_def removeRouteWS_def erase_address_present erase_address_absent)

section \<open>What a group stands for\<close>

text \<open>
  The decimal numbers, read from left to right: an optional minus sign and at least one digit. A
  number that does not fit an \<^verbatim>\<open>int\<close> leaves the argument at the 0 it starts from.
\<close>

definition is_decimal_digit :: "char \<Rightarrow> bool" where
  "is_decimal_digit c \<longleftrightarrow> 48 \<le> (of_char c :: nat) \<and> (of_char c :: nat) \<le> 57"

definition digits_value :: "string \<Rightarrow> nat \<Rightarrow> nat" where
  "digits_value s n = foldl (\<lambda>n c. 10 * n + (of_char c - 48)) n s"

definition unsigned_part :: "string \<Rightarrow> string" where
  "unsigned_part s = (if s \<noteq> [] \<and> hd s = CHR ''-'' then tl s else s)"

definition decimal :: "string \<Rightarrow> bool" where
  "decimal s \<longleftrightarrow> unsigned_part s \<noteq> [] \<and> list_all is_decimal_digit (unsigned_part s)"

definition decimal_value :: "string \<Rightarrow> int" where
  "decimal_value s =
     (let v = int (digits_value (unsigned_part s) 0) in if s \<noteq> [] \<and> hd s = CHR ''-'' then - v else v)"

fun group_fits :: "arg_type \<Rightarrow> string \<Rightarrow> bool" where
  "group_fits Type_int s \<longleftrightarrow> decimal s"
| "group_fits _ s \<longleftrightarrow> True"

fun group_value :: "arg_type \<Rightarrow> string \<Rightarrow> arg" where
  "group_value Type_int s =
     Int_arg (let v = decimal_value s in if - (2 ^ 31) \<le> v \<and> v < 2 ^ 31 then v else 0)"
| "group_value _ s = String_arg s"

lemma digit_val_10: "digit_val 10 c = (if is_decimal_digit c then Some (of_char c - 48) else None)"
  by (auto simp: digit_val_def is_decimal_digit_def Let_def)

lemma scan_digits_10: "scan_digits 10 s acc = (v, n) \<Longrightarrow>
  n \<le> length s \<and> (n = length s \<longleftrightarrow> list_all is_decimal_digit s) \<and> (list_all is_decimal_digit s \<longrightarrow> v = digits_value s acc)"
  by (induction s arbitrary: acc n)
    (fastforce simp: digit_val_10 digits_value_def split: if_splits prod.splits)+

lemma extract_arg_group: "extract_arg t s = (if group_fits t s then Some (group_value t s) else None)"
proof (cases t)
  case Type_int
  obtain v n where scan: "scan_digits 10 (unsigned_part s) 0 = (v, n)"
    by (cases "scan_digits 10 (unsigned_part s) 0")
  note digits = scan_digits_10 [OF scan]
  have len: "length s = (if s \<noteq> [] \<and> hd s = CHR ''-'' then Suc (length (unsigned_part s)) else length (unsigned_part s))"
    by (simp add: unsigned_part_def)
  show ?thesis
    using digits scan len
    by (simp add: Type_int extract_arg_def from_chars_int_def decimal_def decimal_value_def Let_def
        unsigned_part_def [symmetric])
      auto
qed (simp_all add: extract_arg_def)

lemma extract_args_groups:
  "length caps = length ts \<Longrightarrow> extract_args (length pre) (pre @ caps) ts =
    (if list_all2 group_fits ts caps then Some (map2 group_value ts caps) else None)"
proof (induction ts arbitrary: pre caps)
  case (Cons t ts)
  then obtain cap caps' where caps: "caps = cap # caps'" "length caps' = length ts"
    by (cases caps) auto
  with Cons.IH [of caps' "pre @ [cap]"] show ?case
    by (simp add: sub_match_def extract_arg_group nth_append)
qed simp

section \<open>An example\<close>

text \<open>Two routes, as for the patterns \<^verbatim>\<open>/(.*)\<close> and \<^verbatim>\<open>/n/(.*)\<close>, and a websocket route.\<close>

definition example_file :: route where
  "example_file = \<lparr>rt_address = 1, rt_pattern = (\<lambda>s. if take 1 s = ''/'' then Some [drop 1 s] else None),
     rt_methods = [''GET''], rt_types = [Type_string], rt_ftor = (\<lambda>req as. Inr (Some default_response))\<rparr>"

definition example_number :: route where
  "example_number = \<lparr>rt_address = 2, rt_pattern = (\<lambda>s. if take 3 s = ''/n/'' then Some [drop 3 s] else None),
     rt_methods = [''GET''], rt_types = [Type_int], rt_ftor = (\<lambda>req as. Inl Other_throw)\<rparr>"

definition example_ws :: "(unit, unit) ws_route" where
  "example_ws = \<lparr>wr_address = 3, wr_pattern = (\<lambda>s. Some [s]),
     wr_canOpen = Some ([Type_int], \<lambda>req as. Inr False),
     wr_onOpen = Some ([Type_int], \<lambda>req ws as. (ws, Inl Other_throw)), wr_handler = ()\<rparr>"

definition example_dispatcher :: "(unit, unit) dispatcher" where
  "example_dispatcher = \<lparr>dp_error_body_generator = None, dp_routes = [example_file, example_number],
     dp_ws_routes = [example_ws]\<rparr>"

definition example_request :: "string \<Rightarrow> request" where
  "example_request res = \<lparr>rq_header = \<lparr>h_method = ''GET'', h_resource = res, h_url = res, h_version = ''HTTP/1.1'',
     h_cookies = [], h_fields = [], h_url_args = [], h_body_args = [], h_content_length = 0\<rparr>, rq_message_body = []\<rparr>"

lemmas example_defs = example_file_def example_number_def example_ws_def example_dispatcher_def
  example_request_def match_route_def scores_fit_def literal_length_def

section \<open>Properties\<close>

text \<open>
  An \<^verbatim>\<open>int\<close> argument in a URL is the number its digits say when it fits 32 bits; a
  number that does not fit is not rejected, the route's function is called with 0.
\<close>

lemma extract_int_overflow:
  "extract_arg Type_int (int_to_string i) =
     Some (Int_arg (if - (2 ^ 31) \<le> i \<and> i < 2 ^ 31 then i else 0))"
  by (rule extract_int_text)

text \<open>
  A route whose methods allow the request calls its function with exactly the arguments
  whose text the groups of its pattern captured, in order and with their types.
\<close>

lemma call_route_arguments:
  assumes "h_method (rq_header req) \<in> set (rt_methods r)" and "list_all2 arg_fits (rt_types r) as"
  shows "call_route r req (map arg_text as) = rt_ftor r req as"
  using assms extract_args_fitting [of "rt_types r" as "[]"] by (simp add: call_route_eq)

text \<open>
  C34. What a route does with a request its pattern matched, for every method and whatever the
  groups captured: 405 when the method is not one of the route's, 500 when a group is no number
  where the function has an \<^verbatim>\<open>int\<close>, both without calling the function; otherwise the function is
  called with the groups in their order, the numbers by their decimal value (0 for those that do not
  fit an \<^verbatim>\<open>int\<close>).
\<close>

theorem call_route_groups:
  assumes "length caps = length (rt_types r)"
  shows "call_route r req caps =
    (if h_method (rq_header req) \<notin> set (rt_methods r) then Inl (Http_error 405 [])
     else if \<not> list_all2 group_fits (rt_types r) caps then Inl (Http_error 500 [])
     else rt_ftor r req (map2 group_value (rt_types r) caps))"
  using extract_args_groups [OF assms, of "[]"] by (simp add: call_route_eq)

theorem call_route_groups_witness:
  "call_route \<lparr>rt_address = 0, rt_pattern = (\<lambda>_. Some [''x'', ''-42'']), rt_methods = [''GET''],
      rt_types = [Type_string, Type_int], rt_ftor = (\<lambda>req as. if as = [String_arg ''x'', Int_arg (- 42)] then Inr None else Inl Other_throw)\<rparr>
     (example_request ''/'') [''x'', ''-42''] = Inr None"
  by (subst call_route_groups)
    (simp_all add: example_request_def decimal_def decimal_value_def digits_value_def unsigned_part_def is_decimal_digit_def)

text \<open>
  C25. The dispatcher calls, of the routes that match, the one that leaves the most characters
  of the resource outside its groups, the first registered of those when several tie; without
  a match it answers 404 with the error body generator.
\<close>

theorem route_request_best:
  assumes "\<forall>r \<in> set (dp_routes d). \<forall>caps. match_route r req = Some caps \<longrightarrow>
    scores_fit (h_resource (rq_header req)) caps"
  shows "((\<forall>r \<in> set (dp_routes d). match_route r req = None) \<and>
      route_request d req = Inr (response_of_error 404 [] (dp_error_body_generator d))) \<or>
    (\<exists>pre r post caps. dp_routes d = pre @ r # post \<and> match_route r req = Some caps \<and>
      (\<forall>r' \<in> set pre. \<forall>caps'. match_route r' req = Some caps' \<longrightarrow>
        literal_length (h_resource (rq_header req)) caps' < literal_length (h_resource (rq_header req)) caps) \<and>
      (\<forall>r' \<in> set post. \<forall>caps'. match_route r' req = Some caps' \<longrightarrow>
        literal_length (h_resource (rq_header req)) caps' \<le> literal_length (h_resource (rq_header req)) caps) \<and>
      route_request d req = response_of_outcome (dp_error_body_generator d) (call_route r req caps))"
  using assms
proof (cases rule: best_route_cases)
  case none
  then show ?thesis
    by (intro disjI1 conjI)
next
  case (best pre r post caps)
  then show ?thesis
    by (intro disjI2 exI conjI)
qed

theorem route_request_best_witness:
  "\<exists>pre r post caps. dp_routes example_dispatcher = pre @ r # post \<and>
    match_route r (example_request ''/n/7'') = Some caps \<and> literal_length ''/n/7'' caps \<ge> 3 \<and>
    route_request example_dispatcher (example_request ''/n/7'') =
      response_of_outcome None (call_route r (example_request ''/n/7'') caps)"
proof -
  have "\<forall>r \<in> set (dp_routes example_dispatcher). \<forall>caps. match_route r (example_request ''/n/7'') = Some caps \<longrightarrow>
    scores_fit (h_resource (rq_header (example_request ''/n/7''))) caps"
    by (simp add: example_defs)
  from route_request_best [OF this] show ?thesis
  proof (elim disjE exE conjE)
    fix pre r post caps
    assume split: "dp_routes example_dispatcher = pre @ r # post"
      and caps: "match_route r (example_request ''/n/7'') = Some caps"
      and pre: "\<forall>r' \<in> set pre. \<forall>caps'. match_route r' (example_request ''/n/7'') = Some caps' \<longrightarrow>
        literal_length (h_resource (rq_header (example_request ''/n/7''))) caps' <
        literal_length (h_resource (rq_header (example_request ''/n/7''))) caps"
      and post: "\<forall>r' \<in> set post. \<forall>caps'. match_route r' (example_request ''/n/7'') = Some caps' \<longrightarrow>
        literal_length (h_resource (rq_header (example_request ''/n/7''))) caps' \<le>
        literal_length (h_resource (rq_header (example_request ''/n/7''))) caps"
      and result: "route_request example_dispatcher (example_request ''/n/7'') =
        response_of_outcome (dp_error_body_generator example_dispatcher) (call_route r (example_request ''/n/7'') caps)"
    have number: "match_route example_number (example_request ''/n/7'') = Some [''7'']"
      by (simp add: example_defs)
    have "example_number \<in> set pre \<or> example_number = r \<or> example_number \<in> set post"
      using split by (auto simp: example_dispatcher_def append_eq_Cons_conv Cons_eq_append_conv)
    with number caps pre post have "literal_length ''/n/7'' [''7''] \<le> literal_length ''/n/7'' caps"
      by (fastforce simp: example_request_def)
    with split caps result show ?thesis
      by (intro exI conjI) (simp_all add: literal_length_def example_dispatcher_def)
  qed (simp add: example_defs)
qed

text \<open>
  Routing keeps its \<^verbatim>\<open>noexcept\<close> promise: whatever exception a route's function throws,
  the request gets a response.
\<close>

lemma route_request_noexcept:
  assumes "\<forall>r \<in> set (dp_routes d). \<forall>as. \<forall>ub. rt_ftor r req as \<noteq> Inl (Undefined ub) \<and>
    rt_ftor r req as \<noteq> Inl Out_of_fuel"
  shows "\<exists>resp. route_request d req = Inr resp"
  by (rule route_request_responds) (use assms in blast)

text \<open>
  A websocket is given to the first registered route whose pattern matches and whose handler
  does not refuse it, and to none when a handler before it throws.
\<close>

lemma routeWS_first:
  "routeWS d req = Inr r \<longleftrightarrow>
     (\<exists>pre post. dp_ws_routes d = pre @ r # post \<and> (\<forall>r' \<in> set pre. canOpen r' req = Inr False) \<and>
       canOpen r req = Inr True)"
  unfolding routeWS_def by (rule first_open_iff)

text \<open>
  A handler with a \<open>canOpen\<close> guard is bypassed when the captured text does not fit the
  guard's arguments: the route accepts the request, and a handler whose \<open>onOpen\<close> takes the same
  arguments is never told of the websocket.
\<close>

lemma canOpen_bypassed:
  assumes "wr_pattern r (h_resource (rq_header req)) = Some caps"
    and "wr_canOpen r = Some (types, guard)" and "wr_onOpen r = Some (types, opened)"
    and "extract_args 0 caps types = None"
  shows "canOpen r req = Inr True \<and> onOpen r req ws = (ws, Inr ())"
  using assms by (simp add: canOpen_eq onOpen_eq)

text \<open>An \<^verbatim>\<open>int\<close> parameter without a group is never extracted.\<close>

lemma extract_args_missing:
  "ts ! j = Type_int \<Longrightarrow> j < length ts \<Longrightarrow> length caps \<le> i + j \<Longrightarrow> extract_args i caps ts = None"
proof (induction ts arbitrary: i j)
  case (Cons t ts)
  show ?case
  proof (cases j)
    case 0
    with Cons.prems have "extract_arg t (sub_match caps i) = None"
      by (simp add: sub_match_def extract_arg_def from_chars_int_def)
    then show ?thesis
      by simp
  next
    case (Suc j')
    with Cons.IH [of j' "Suc i"] Cons.prems show ?thesis
      by (auto split: option.split)
  qed
qed simp

text \<open>
  C37. A websocket route may be constructed with a pattern that has fewer groups than its handler has
  parameters; the check that a route makes is not called. When a parameter without a group is an
  \<^verbatim>\<open>int\<close>, every matching request is accepted, whatever the handler's guard says, and the handler is
  never told of the websocket.
\<close>

theorem ws_route_unchecked:
  assumes "r = make_ws_route address pattern guard (Some (types, opened)) handler"
    and "\<forall>types' g. guard = Some (types', g) \<longrightarrow> types' = types"
    and "pattern (h_resource (rq_header req)) = Some caps"
    and "j < length types" and "types ! j = Type_int" and "length caps \<le> j"
  shows "ws_check types (length caps) = Inl (bad_pattern (length types) (length caps)) \<and>
    canOpen r req = Inr True \<and> onOpen r req ws = (ws, Inr ())"
  using assms extract_args_missing [of types j caps 0]
  by (cases guard) (auto simp: ws_check_def canOpen_eq onOpen_eq make_ws_route_def)

theorem ws_route_unchecked_witness:
  "canOpen (make_ws_route 7 (\<lambda>s. Some []) (Some ([Type_int], \<lambda>req as. Inr False))
      (Some ([Type_int], \<lambda>req ws as. ((), Inl Other_throw))) ()) (example_request ''/chat'') = Inr True"
  using ws_route_unchecked [of _ 7 "\<lambda>s. Some []" "Some ([Type_int], \<lambda>req as. Inr False)" "[Type_int]"
      "\<lambda>req ws as. ((), Inl Other_throw)" "()" "example_request ''/chat''" "[]" 0 "()", OF refl]
  by simp

text \<open>
  Routes may be constructed and destroyed in any order: as long as only living routes are
  destroyed, deregistering is never undefined and the dispatcher holds exactly the living routes,
  in the order of their construction.
\<close>

lemma global_routes_alive:
  assumes "alive rt_address es [] = Some rs"
  shows "\<exists>d. run_events addRoute removeRoute es (make_dispatcher generator) = Inr d \<and> dp_routes d = rs"
  using http_routes.run_alive [of es "make_dispatcher generator" rs] assms
  by (simp add: make_dispatcher_def)

end
