(* ===== verification/Connection.thy ===== *)
theory Connection
  imports Prelude
begin

text \<open>
  ConnectionHandler.cpp: the output queue of a connection and its event handler. The socket is
  the environment: what \<^verbatim>\<open>send\<close> and \<^verbatim>\<open>recv\<close> answer next is a part of the state, what
  \<^verbatim>\<open>send\<close> accepted is appended to \<open>cn_wire\<close>. The protocol is a parameter, the two functions of
  \<^verbatim>\<open>ProtocolHandler\<close>; the calls it makes to the connection are the list of its actions, run in
  order.
\<close>

section \<open>The socket\<close>

text \<open>
  An answer of \<^verbatim>\<open>send\<close>: the room in the kernel's buffer (none: \<^verbatim>\<open>EAGAIN\<close>), or another error.
  \<^verbatim>\<open>send\<close> accepts as many bytes as there is room for. After the listed answers there is no room.
\<close>

datatype send_answer = Room nat | Send_error

text \<open>An answer of \<^verbatim>\<open>recv\<close>: data (none at the end of the stream), or another error. After the
  listed answers there is no data.\<close>

datatype recv_answer = Received bytes | Recv_error

text \<open>What a job does when its bytes are sent: the callbacks the repository itself passes, and
  those of the application, by a number.\<close>

datatype after_sent = No_callback | Close_after | Reset_timeout int | User_callback nat

record transmit_job =
  tj_buf :: bytes
  tj_sent :: u64
  tj_cb :: after_sent

record 'p conn =
  cn_open :: bool
  cn_sends :: "send_answer list"
  cn_recvs :: "recv_answer list"
  cn_wire :: bytes
  cn_in_buf :: bytes
  cn_jobs :: "transmit_job list"
  cn_out_size :: u64
  cn_protocol :: "'p option"
  cn_armed :: "i32 option"
  cn_called :: "after_sent list"

text \<open>A connection that was just accepted (Server.cpp adds it to the loop).\<close>

definition EPOLLIN :: i32 where "EPOLLIN = 0x001"
definition EPOLLOUT :: i32 where "EPOLLOUT = 0x004"
definition EPOLLERR :: i32 where "EPOLLERR = 0x008"
definition EPOLLHUP :: i32 where "EPOLLHUP = 0x010"
definition EPOLLRDHUP :: i32 where "EPOLLRDHUP = 0x2000"
definition EPOLLONESHOT :: i32 where "EPOLLONESHOT = 0x40000000"

lemmas epoll_flags = EPOLLIN_def EPOLLOUT_def EPOLLERR_def EPOLLHUP_def EPOLLRDHUP_def EPOLLONESHOT_def

definition accepted :: "'p \<Rightarrow> 'p conn" where
  "accepted p = \<lparr>cn_open = True, cn_sends = [], cn_recvs = [], cn_wire = [], cn_in_buf = [], cn_jobs = [],
     cn_out_size = 0, cn_protocol = Some p,
     cn_armed = Some (EPOLLIN OR EPOLLHUP OR EPOLLRDHUP OR EPOLLONESHOT), cn_called = []\<rparr>"

section \<open>Sending\<close>

text \<open>
  One call of \<^verbatim>\<open>send\<close> with \<open>len\<close> bytes: its result, whether \<^verbatim>\<open>errno\<close> is \<^verbatim>\<open>EAGAIN\<close>, and the
  answers left. On a closed socket it fails with another error.
\<close>

definition send_call :: "bool \<Rightarrow> send_answer list \<Rightarrow> nat \<Rightarrow> int \<times> bool \<times> send_answer list" where
  "send_call is_open answers len =
     (if \<not> is_open then (- 1, False, answers)
      else case answers of
             [] \<Rightarrow> (- 1, True, [])
           | Send_error # answers \<Rightarrow> (- 1, False, answers)
           | Room n # answers \<Rightarrow> if n = 0 then (- 1, True, answers) else (int (min n len), False, answers))"

text \<open>
  The loop of \<^verbatim>\<open>flush_job\<close>: whether the job is done, its \<^verbatim>\<open>bytes_sent\<close>, the answers left and the
  bytes that were accepted. The result of \<^verbatim>\<open>send\<close> is stored in an \<^verbatim>\<open>int\<close> and added to a
  \<^verbatim>\<open>std::size_t\<close>.
\<close>

definition size_of :: "bytes \<Rightarrow> u64" where
  "size_of buf = word_of_nat (length buf)"

function flush_loop :: "bool \<Rightarrow> bytes \<Rightarrow> u64 \<Rightarrow> send_answer list \<Rightarrow> bytes \<Rightarrow> bool \<times> u64 \<times> send_answer list \<times> bytes" where
  "flush_loop is_open out_buf bytes_sent answers wire =
     (if bytes_sent < size_of out_buf
      then (let rest = drop (unat bytes_sent) out_buf;
                (res, again, answers') = send_call is_open answers (length rest);
                w = to_int32 res
            in if w \<le> 0 \<and> again then (False, bytes_sent, answers', wire)
               else flush_loop is_open out_buf (bytes_sent + word_of_int w) answers'
                      (wire @ take (nat res) rest))
      else (True, bytes_sent, answers, wire))"
  by pat_completeness auto
termination
proof (relation "measures [\<lambda>(is_open, buf, sent, answers, wire). length answers,
    \<lambda>(is_open, buf, sent, answers, wire). if sent < size_of buf then Suc (unat sent) else 0]", goal_cases)
  case (2 is_open out_buf bytes_sent answers wire rest x res y again answers' w)
  show ?case
  proof (cases is_open)
    case True
    with 2 show ?thesis
      by (auto simp: send_call_def to_int32_def split: list.splits send_answer.splits if_splits)
  next
    case False
    with 2 have res: "answers' = answers" "w = - 1"
      by (auto simp: send_call_def to_int32_def)
    have "\<not> (- 1 :: u64) < size_of out_buf"
      by (simp add: not_less word_order.extremum)
    moreover have "unat (bytes_sent - 1) < unat bytes_sent" if "bytes_sent \<noteq> 0"
      using that by (simp add: measure_unat)
    ultimately show ?thesis
      using 2(1) res by (cases "bytes_sent = 0") auto
  qed
qed simp

declare flush_loop.simps [simp del]

section \<open>Operations\<close>

text \<open>\<^verbatim>\<open>close\<close>: the connection leaves the loop and the socket is closed.\<close>

definition close_conn :: "'p conn \<Rightarrow> 'p conn" where
  "close_conn c = c\<lparr>cn_open := False, cn_armed := None\<rparr>"

text \<open>\<^verbatim>\<open>epoll.modFD\<close> arms the loop for the connection's socket.\<close>

definition modFD :: "i32 \<Rightarrow> 'p conn \<Rightarrow> 'p conn" where
  "modFD flags c = (if cn_open c then c\<lparr>cn_armed := Some flags\<rparr> else c)"

definition run_callback :: "after_sent \<Rightarrow> 'p conn \<Rightarrow> 'p conn" where
  "run_callback cb c =
     (let c = c\<lparr>cn_called := cn_called c @ (if cb = No_callback then [] else [cb])\<rparr>
      in if cb = Close_after then close_conn c else c)"

definition flush_job :: "transmit_job \<Rightarrow> 'p conn \<Rightarrow> bool \<times> transmit_job \<times> 'p conn" where
  "flush_job job c =
     (let (finished, sent, answers, wire) =
            flush_loop (cn_open c) (tj_buf job) (tj_sent job) (cn_sends c) (cn_wire c);
          job = job\<lparr>tj_sent := sent\<rparr>;
          c = c\<lparr>cn_sends := answers, cn_wire := wire\<rparr>
      in if finished then (True, job, run_callback (tj_cb job) c) else (False, job, c))"

definition remaining :: "transmit_job \<Rightarrow> u64" where
  "remaining job = size_of (tj_buf job) - tj_sent job"

definition write_conn :: "bytes \<Rightarrow> after_sent \<Rightarrow> 'p conn \<Rightarrow> 'p conn" where
  "write_conn out_buf on_after_sent c =
     (let job = \<lparr>tj_buf = out_buf, tj_sent = 0, tj_cb = on_after_sent\<rparr>;
          (sent, job, c) = (if cn_jobs c \<noteq> [] then (False, job, c) else flush_job job c)
      in if sent then c
         else modFD (EPOLLIN OR EPOLLOUT OR EPOLLHUP OR EPOLLRDHUP OR EPOLLONESHOT)
                (c\<lparr>cn_out_size := cn_out_size c + remaining job, cn_jobs := cn_jobs c @ [job]\<rparr>))"

definition getOutBufferSize :: "'p conn \<Rightarrow> u64" where
  "getOutBufferSize c = cn_out_size c"

text \<open>The calls a protocol makes to its connection.\<close>

datatype conn_action = Write bytes after_sent | Close

fun run_action :: "conn_action \<Rightarrow> 'p conn \<Rightarrow> 'p conn" where
  "run_action (Write out_buf cb) c = write_conn out_buf cb c"
| "run_action Close c = close_conn c"

definition run_actions :: "conn_action list \<Rightarrow> 'p conn \<Rightarrow> 'p conn" where
  "run_actions acts c = fold run_action acts c"

text \<open>
  A protocol: the actions of a call, the state it is left in, and the bytes consumed with the
  change of protocol, or the exception it throws. A change is to another protocol or to none
  (\<^verbatim>\<open>nullptr\<close>).
\<close>

record 'p protocol_handler =
  ph_data :: "'p \<Rightarrow> bytes \<Rightarrow> conn_action list \<times> 'p \<times> (int \<times> 'p option option) result"
  ph_peer_close :: "'p \<Rightarrow> conn_action list \<times> 'p \<times> unit result"

definition read_size :: nat where
  "read_size = 4096"

text \<open>
  The loop that reads until the socket has no more: after another error \<^verbatim>\<open>r\<close> is -1 and the buffer
  is resized to one byte less than it had, which throws when it was empty.
\<close>

definition length_error :: fault where
  "length_error = Logic_error ''vector::_M_default_append''"

fun recv_loop :: "recv_answer list \<Rightarrow> bytes \<Rightarrow> recv_answer list \<times> bytes \<times> unit result" where
  "recv_loop [] in_buf = ([], in_buf, Inr ())"
| "recv_loop (Recv_error # answers) in_buf =
     (if in_buf = [] then (answers, replicate read_size 0, Inl length_error)
      else (answers, butlast in_buf, Inr ()))"
| "recv_loop (Received bs # answers) in_buf =
     (if length bs < read_size then (answers, in_buf @ bs, Inr ())
      else recv_loop answers (in_buf @ bs))"

text \<open>The loop that flushes the jobs in order; a job that is done is erased.\<close>

fun flush_jobs :: "transmit_job list \<Rightarrow> 'p conn \<Rightarrow> transmit_job list \<times> 'p conn" where
  "flush_jobs [] c = ([], c)"
| "flush_jobs (job # jobs) c =
     (let to_send = remaining job;
          (job_sent, job', c) = flush_job job c;
          c = c\<lparr>cn_out_size := cn_out_size c - (to_send - remaining job')\<rparr>
      in if job_sent then flush_jobs jobs c else (job' # jobs, c))"

definition on_writable :: "'p conn \<Rightarrow> 'p conn" where
  "on_writable c =
     (let (jobs, c) = flush_jobs (cn_jobs c) c;
          c = c\<lparr>cn_jobs := jobs\<rparr>
      in if cn_protocol c = None then close_conn c else c)"

definition erase_consumed :: "int \<Rightarrow> bytes \<Rightarrow> bytes result" where
  "erase_consumed consumed in_buf =
     (if 0 \<le> consumed \<and> nat consumed \<le> length in_buf then Inr (drop (nat consumed) in_buf)
      else Inl (Undefined ''erase past the end of the input buffer''))"

definition on_readable :: "'p protocol_handler \<Rightarrow> 'p \<Rightarrow> 'p conn \<Rightarrow> 'p conn \<times> unit result" where
  "on_readable ph p c =
     (let (answers, in_buf, received) = recv_loop (cn_recvs c) (cn_in_buf c);
          c = c\<lparr>cn_recvs := answers, cn_in_buf := in_buf\<rparr>
      in case received of
           Inl e \<Rightarrow> (c, Inl e)
         | Inr _ \<Rightarrow>
             (let (acts, p', outcome) = ph_data ph p in_buf;
                  c = run_actions acts (c\<lparr>cn_protocol := Some p'\<rparr>)
              in case outcome of
                   Inl e \<Rightarrow> (c, Inl e)
                 | Inr (consumed, prot_change) \<Rightarrow>
                     (case erase_consumed consumed in_buf of
                        Inl e \<Rightarrow> (c, Inl e)
                      | Inr rest \<Rightarrow>
                          (c\<lparr>cn_in_buf := rest,
                             cn_protocol := (case prot_change of None \<Rightarrow> cn_protocol c | Some change \<Rightarrow> change)\<rparr>,
                           Inr ()))))"

text \<open>\<^verbatim>\<open>operator()(int flags)\<close>: the loop's one-shot registration has been used up when it runs.\<close>

definition on_hang_up :: "'p protocol_handler \<Rightarrow> 'p conn \<Rightarrow> 'p conn \<times> unit result" where
  "on_hang_up ph c =
     (case cn_protocol c of
        None \<Rightarrow> (close_conn c, Inr ())
      | Some p \<Rightarrow>
          (let (acts, p', outcome) = ph_peer_close ph p;
               c = run_actions acts (c\<lparr>cn_protocol := Some p'\<rparr>)
           in case outcome of
                Inl e \<Rightarrow> (c, Inl e)
              | Inr _ \<Rightarrow> (close_conn c, Inr ())))"

definition rearm :: "'p conn \<Rightarrow> 'p conn" where
  "rearm c = modFD ((EPOLLIN OR EPOLLHUP OR EPOLLRDHUP OR EPOLLONESHOT)
      OR (if cn_jobs c \<noteq> [] then EPOLLOUT else 0)) c"

definition on_event :: "'p protocol_handler \<Rightarrow> i32 \<Rightarrow> 'p conn \<Rightarrow> 'p conn \<times> unit result" where
  "on_event ph flags c =
     (let c = c\<lparr>cn_armed := None\<rparr>
      in if flags AND (EPOLLERR OR EPOLLHUP OR EPOLLRDHUP) \<noteq> 0 then on_hang_up ph c
         else
           (let (c, readable) =
              (case cn_protocol c of
                 Some p \<Rightarrow> if flags AND EPOLLIN \<noteq> 0 then on_readable ph p c else (c, Inr ())
               | None \<Rightarrow> (c, Inr ()))
            in case readable of
                 Inl e \<Rightarrow> (c, Inl e)
               | Inr _ \<Rightarrow>
                   (rearm (if flags AND EPOLLOUT \<noteq> 0 then on_writable c else c), Inr ())))"

section \<open>One job\<close>

definition job_ok :: "transmit_job \<Rightarrow> bool" where
  "job_ok job \<longleftrightarrow> length (tj_buf job) < 2 ^ 31 \<and> unat (tj_sent job) \<le> length (tj_buf job)"

definition unsent :: "transmit_job \<Rightarrow> bytes" where
  "unsent job = drop (unat (tj_sent job)) (tj_buf job)"

lemma unat_size_of: "length buf < 2 ^ 31 \<Longrightarrow> unat (size_of buf) = length buf"
  by (simp add: size_of_def unsigned_of_nat take_bit_nat_eq_self)

lemma less_size_of_iff: "length buf < 2 ^ 31 \<Longrightarrow> sent < size_of buf \<longleftrightarrow> unat sent < length buf"
  by (simp add: word_less_nat_alt unat_size_of)

lemma remaining_unsent: "job_ok job \<Longrightarrow> remaining job = word_of_nat (length (unsent job))"
  unfolding remaining_def job_ok_def unsent_def size_of_def
  by (simp add: of_nat_diff)

lemma flush_loop_open:
  assumes "flush_loop True buf sent answers wire = (finished, sent', answers', wire')"
    and "length buf < 2 ^ 31" and "unat sent \<le> length buf" and "Send_error \<notin> set answers"
  shows "unat sent' \<le> length buf \<and> wire' @ drop (unat sent') buf = wire @ drop (unat sent) buf \<and>
    (finished \<longleftrightarrow> unat sent' = length buf) \<and> set answers' \<subseteq> set answers"
  using assms
proof (induction "length answers" arbitrary: sent answers wire)
  case 0
  then show ?case
    by (auto simp: flush_loop.simps [of True buf sent] less_size_of_iff send_call_def Let_def to_int32_def
        split: if_splits)
next
  case (Suc n)
  show ?case
  proof (cases "unat sent < length buf")
    case False
    with Suc.prems show ?thesis
      by (auto simp: flush_loop.simps [of True buf sent] less_size_of_iff)
  next
    case True
    from Suc.hyps(2) obtain a as where answers: "answers = a # as"
      by (cases answers) auto
    from Suc.prems(4) answers obtain room where a: "a = Room room"
      by (cases a) auto
    show ?thesis
    proof (cases "room = 0")
      case True
      with Suc.prems answers a \<open>unat sent < length buf\<close> show ?thesis
        by (auto simp: flush_loop.simps [of True buf sent] less_size_of_iff send_call_def Let_def to_int32_def)
    next
      case False
      define w where "w = min room (length buf - unat sent)"
      have w: "0 < w" "w \<le> length buf - unat sent" "to_int32 (int w) = int w"
        using False True Suc.prems(2) by (auto simp: w_def intro!: to_int32_id)
      have sum: "unat (sent + word_of_int (int w)) = unat sent + w"
      proof -
        have "unat sent + w < 2 ^ 64"
          using w Suc.prems(2,3) by simp
        then show ?thesis
          by (simp add: unat_word_ariths unsigned_of_nat take_bit_eq_mod)
      qed
      have step: "flush_loop True buf (sent + word_of_int (int w)) as (wire @ take w (drop (unat sent) buf)) =
          (finished, sent', answers', wire')"
        using Suc.prems(1) answers a False True w Suc.prems(2)
        by (simp add: flush_loop.simps [of True buf sent] less_size_of_iff send_call_def Let_def w_def)
      have "unat (sent + word_of_int (int w)) \<le> length buf"
        using sum w(2) True by simp
      moreover have "take w (drop (unat sent) buf) @ drop (unat sent + w) buf = drop (unat sent) buf"
        by (metis add.commute append_take_drop_id drop_drop)
      ultimately show ?thesis
        using Suc.hyps(1) [OF _ step] Suc.prems(2,4) Suc.hyps(2) answers sum by auto
    qed
  qed
qed

lemma flush_loop_closed: "\<exists>sent'. flush_loop False buf sent answers wire = (True, sent', answers, wire)"
proof (induction "unat sent" arbitrary: sent)
  case 0
  then have "sent = 0"
    by (simp add: unat_eq_0)
  moreover have "\<not> (- 1 :: u64) < size_of buf"
    by (simp add: not_less word_order.extremum)
  ultimately show ?case
    by (simp add: flush_loop.simps [of False buf 0] flush_loop.simps [of False buf "- 1"] send_call_def Let_def to_int32_def)
next
  case (Suc n)
  then have "sent \<noteq> 0"
    by auto
  with Suc have "n = unat (sent - 1)"
    by (simp add: unat_minus_one)
  from Suc.hyps(1) [OF this] show ?case
    by (simp add: flush_loop.simps [of False buf sent] send_call_def Let_def to_int32_def)
qed

text \<open>Every job runs its callback exactly once, when it is done; a job that is not done waits.\<close>

definition callbacks :: "transmit_job list \<Rightarrow> after_sent list" where
  "callbacks jobs = filter (\<lambda>cb. cb \<noteq> No_callback) (map tj_cb jobs)"

lemma flush_job_open:
  assumes "flush_job job c = (finished, job', c')" and "cn_open c" and "job_ok job"
    and "Send_error \<notin> set (cn_sends c)"
  shows "job_ok job' \<and> cn_wire c' @ unsent job' = cn_wire c @ unsent job \<and>
    (finished \<longleftrightarrow> unsent job' = []) \<and> set (cn_sends c') \<subseteq> set (cn_sends c) \<and>
    tj_cb job' = tj_cb job \<and>
    cn_called c' = cn_called c @ (if finished then callbacks [job] else []) \<and>
    (cn_open c' \<longleftrightarrow> \<not> (finished \<and> tj_cb job = Close_after)) \<and>
    cn_out_size c' = cn_out_size c \<and> cn_protocol c' = cn_protocol c \<and> cn_jobs c' = cn_jobs c"
proof -
  obtain fin sent answers wire where
    loop: "flush_loop True (tj_buf job) (tj_sent job) (cn_sends c) (cn_wire c) = (fin, sent, answers, wire)"
    by (metis prod_cases4)
  from flush_loop_open [OF loop] assms(3,4) assms(1,2) loop show ?thesis
    by (auto simp: flush_job_def job_ok_def unsent_def Let_def run_callback_def close_conn_def callbacks_def
        split: if_splits)
qed

lemma flush_job_closed:
  assumes "\<not> cn_open c"
  shows "\<exists>job' c'. flush_job job c = (True, job', c') \<and> \<not> cn_open c' \<and> cn_wire c' = cn_wire c \<and>
    cn_sends c' = cn_sends c \<and> cn_called c' = cn_called c @ callbacks [job] \<and> cn_protocol c' = cn_protocol c \<and>
    cn_jobs c' = cn_jobs c"
  using assms flush_loop_closed [of "tj_buf job" "tj_sent job" "cn_sends c" "cn_wire c"]
  by (auto simp: flush_job_def Let_def run_callback_def close_conn_def callbacks_def)

section \<open>The queue\<close>

text \<open>
  The output of a connection as a byte queue: what was written and is not on the wire yet. \<open>queue_ok\<close>
  relates a state to everything that was written since the connection was accepted: while it is open
  nothing is lost, duplicated or reordered, afterwards the wire holds a prefix.
\<close>

definition pending :: "transmit_job list \<Rightarrow> bytes" where
  "pending jobs = concat (map unsent jobs)"

definition queue_ok :: "bytes \<Rightarrow> after_sent list \<Rightarrow> 'p conn \<Rightarrow> bool" where
  "queue_ok written cbs c \<longleftrightarrow>
     (\<forall>job \<in> set (cn_jobs c). job_ok job) \<and> Send_error \<notin> set (cn_sends c) \<and>
     prefix (cn_wire c) written \<and> cn_called c @ callbacks (cn_jobs c) = cbs \<and>
     (cn_open c \<longrightarrow> cn_wire c @ pending (cn_jobs c) = written \<and>
        cn_out_size c = word_of_nat (length (pending (cn_jobs c))))"

lemma pending_simps [simp]:
  "pending [] = []" "pending (job # jobs) = unsent job @ pending jobs"
  "pending (jobs @ jobs') = pending jobs @ pending jobs'"
  by (simp_all add: pending_def)

lemma callbacks_simps [simp]:
  "callbacks [] = []" "callbacks (job # jobs) = (if tj_cb job = No_callback then [] else [tj_cb job]) @ callbacks jobs"
  "callbacks (jobs @ jobs') = callbacks jobs @ callbacks jobs'"
  by (simp_all add: callbacks_def)

lemma flush_jobs_closed:
  "\<not> cn_open c \<Longrightarrow> \<exists>c'. flush_jobs jobs c = ([], c') \<and> \<not> cn_open c' \<and> cn_wire c' = cn_wire c \<and>
    cn_sends c' = cn_sends c \<and> cn_called c' = cn_called c @ callbacks jobs \<and> cn_protocol c' = cn_protocol c"
proof (induction jobs arbitrary: c)
  case (Cons job jobs)
  from flush_job_closed [OF Cons.prems, of job] obtain job' c1 where job: "flush_job job c = (True, job', c1)"
    "\<not> cn_open c1" "cn_wire c1 = cn_wire c" "cn_sends c1 = cn_sends c"
    "cn_called c1 = cn_called c @ callbacks [job]" "cn_protocol c1 = cn_protocol c"
    by blast
  from Cons.IH [of "c1\<lparr>cn_out_size := cn_out_size c1 - (remaining job - remaining job')\<rparr>"] job show ?case
    by (auto simp: Let_def)
qed simp

lemma flush_jobs_open:
  assumes "flush_jobs jobs c = (jobs', c')" and "cn_open c" and "\<forall>job \<in> set jobs. job_ok job"
    and "Send_error \<notin> set (cn_sends c)"
  shows "(\<forall>job \<in> set jobs'. job_ok job) \<and> set (cn_sends c') \<subseteq> set (cn_sends c) \<and>
    cn_called c' @ callbacks jobs' = cn_called c @ callbacks jobs \<and> cn_protocol c' = cn_protocol c \<and>
    (cn_open c' \<longrightarrow> cn_wire c' @ pending jobs' = cn_wire c @ pending jobs \<and>
       cn_out_size c' - word_of_nat (length (pending jobs')) = cn_out_size c - word_of_nat (length (pending jobs))) \<and>
    (\<not> cn_open c' \<longrightarrow> prefix (cn_wire c') (cn_wire c @ pending jobs))"
  using assms
proof (induction jobs arbitrary: c)
  case (Cons job jobs)
  obtain finished job1 c1 where job: "flush_job job c = (finished, job1, c1)"
    by (metis prod_cases3)
  note one = flush_job_open [OF job Cons.prems(2) _ Cons.prems(4)]
  have ok: "job_ok job" "job_ok job1"
    using Cons.prems(3) one by auto
  let ?c = "c1\<lparr>cn_out_size := cn_out_size c1 - (remaining job - remaining job1)\<rparr>"
  show ?case
  proof (cases finished)
    case False
    with Cons.prems job have "jobs' = job1 # jobs" "c' = ?c"
      by (auto simp: Let_def)
    with one ok False Cons.prems show ?thesis
      by (auto simp: remaining_unsent callbacks_def simp flip: append_assoc)
  next
    case True
    with Cons.prems(1) job have step: "flush_jobs jobs ?c = (jobs', c')"
      by (simp add: Let_def)
    have done_job: "cn_wire c1 = cn_wire c @ unsent job" "remaining job1 = 0"
      "cn_called c1 = cn_called c @ callbacks [job]" "set (cn_sends c1) \<subseteq> set (cn_sends c)"
      "cn_out_size c1 = cn_out_size c" "cn_protocol c1 = cn_protocol c"
      using one ok True by (auto simp: remaining_unsent)
    show ?thesis
    proof (cases "cn_open c1")
      case open1: True
      with done_job Cons.prems have "cn_open ?c" "\<forall>job \<in> set jobs. job_ok job" "Send_error \<notin> set (cn_sends ?c)"
        by auto
      from Cons.IH [OF step this] done_job ok show ?thesis
        by (auto simp: remaining_unsent)
    next
      case False
      with flush_jobs_closed [of ?c jobs] step done_job show ?thesis
        by auto
    qed
  qed
qed simp

lemma queue_ok_write:
  assumes "queue_ok written cbs c" and "length bs < 2 ^ 31"
  shows "queue_ok (written @ bs) (cbs @ filter (\<lambda>cb. cb \<noteq> No_callback) [cb]) (write_conn bs cb c)"
proof -
  let ?job = "\<lparr>tj_buf = bs, tj_sent = 0, tj_cb = cb\<rparr>"
  have job: "job_ok ?job" "unsent ?job = bs" "callbacks [?job] = filter (\<lambda>cb. cb \<noteq> No_callback) [cb]"
    using assms(2) by (simp_all add: job_ok_def unsent_def callbacks_def)
  show ?thesis
  proof (cases "cn_jobs c = []")
    case False
    with assms job show ?thesis
      by (auto simp: queue_ok_def write_conn_def modFD_def remaining_unsent Let_def)
  next
    case jobs: True
    show ?thesis
    proof (cases "cn_open c")
      case False
      from flush_job_closed [OF this, of ?job] assms jobs job False show ?thesis
        by (auto simp: queue_ok_def write_conn_def Let_def)
    next
      case True
      obtain finished job1 c1 where flush: "flush_job ?job c = (finished, job1, c1)"
        by (metis prod_cases3)
      have errors: "Send_error \<notin> set (cn_sends c)"
        using assms(1) by (simp add: queue_ok_def)
      note one = flush_job_open [OF flush True job(1) errors]
      then have "prefix (cn_wire c1) (cn_wire c @ bs)"
        using job(2) by (metis prefixI)
      with one assms jobs job flush True show ?thesis
        by (auto simp: queue_ok_def write_conn_def modFD_def remaining_unsent callbacks_def Let_def
            split: if_splits)
    qed
  qed
qed

lemma queue_ok_writable:
  assumes "queue_ok written cbs c"
  shows "queue_ok written cbs (on_writable c)"
proof -
  obtain jobs' c' where flush: "flush_jobs (cn_jobs c) c = (jobs', c')"
    by (metis surj_pair)
  show ?thesis
  proof (cases "cn_open c")
    case True
    have ok: "\<forall>job \<in> set (cn_jobs c). job_ok job" "Send_error \<notin> set (cn_sends c)"
      "cn_wire c @ pending (cn_jobs c) = written" "cn_called c @ callbacks (cn_jobs c) = cbs"
      "cn_out_size c = word_of_nat (length (pending (cn_jobs c)))"
      using assms True by (simp_all add: queue_ok_def)
    note all = flush_jobs_open [OF flush True ok(1,2)]
    then have "prefix (cn_wire c') written"
      using ok(3) by (metis prefixI)
    with all ok show ?thesis
      by (cases "cn_open c'") (auto simp: queue_ok_def on_writable_def close_conn_def flush Let_def)
  next
    case False
    with assms flush_jobs_closed [OF False, of "cn_jobs c"] flush show ?thesis
      by (auto simp: queue_ok_def on_writable_def close_conn_def Let_def)
  qed
qed

lemma queue_ok_frame:
  "queue_ok written cbs (c\<lparr>cn_armed := armed\<rparr>) = queue_ok written cbs c"
  "queue_ok written cbs (rearm c) = queue_ok written cbs c"
  "queue_ok written cbs (c\<lparr>cn_protocol := p\<rparr>) = queue_ok written cbs c"
  "queue_ok written cbs (c\<lparr>cn_in_buf := bs\<rparr>) = queue_ok written cbs c"
  "queue_ok written cbs (c\<lparr>cn_recvs := rs\<rparr>) = queue_ok written cbs c"
  by (simp_all add: queue_ok_def rearm_def modFD_def)

lemma queue_ok_close: "queue_ok written cbs c \<Longrightarrow> queue_ok written cbs (close_conn c)"
  by (simp add: queue_ok_def close_conn_def)

lemma queue_ok_room:
  "queue_ok written cbs c \<Longrightarrow> Send_error \<notin> set answers \<Longrightarrow>
   queue_ok written cbs (c\<lparr>cn_sends := cn_sends c @ answers\<rparr>)"
  by (simp add: queue_ok_def)

text \<open>What a list of actions writes, and the callbacks it passes.\<close>

fun written_by :: "conn_action list \<Rightarrow> bytes" where
  "written_by [] = []"
| "written_by (Write bs cb # acts) = bs @ written_by acts"
| "written_by (Close # acts) = written_by acts"

fun callbacks_of :: "conn_action list \<Rightarrow> after_sent list" where
  "callbacks_of [] = []"
| "callbacks_of (Write bs cb # acts) = (if cb = No_callback then [] else [cb]) @ callbacks_of acts"
| "callbacks_of (Close # acts) = callbacks_of acts"

fun small_writes :: "conn_action list \<Rightarrow> bool" where
  "small_writes [] \<longleftrightarrow> True"
| "small_writes (Write bs cb # acts) \<longleftrightarrow> length bs < 2 ^ 31 \<and> small_writes acts"
| "small_writes (Close # acts) \<longleftrightarrow> small_writes acts"

lemma queue_ok_actions:
  "queue_ok written cbs c \<Longrightarrow> small_writes acts \<Longrightarrow>
   queue_ok (written @ written_by acts) (cbs @ callbacks_of acts) (run_actions acts c)"
proof (induction acts arbitrary: written cbs c)
  case (Cons act acts)
  show ?case
  proof (cases act)
    case (Write bs cb)
    with Cons.IH [OF queue_ok_write [OF Cons.prems(1), of bs cb]] Cons.prems(2) show ?thesis
      by (cases "cb = No_callback") (simp_all add: run_actions_def)
  next
    case Close
    with Cons.IH [OF queue_ok_close [OF Cons.prems(1)]] Cons.prems(2) show ?thesis
      by (simp add: run_actions_def)
  qed
qed (simp add: run_actions_def)

text \<open>The output leaves the input side of the connection alone.\<close>

lemma flush_job_frame:
  assumes "flush_job job c = (sent, job', c')"
  shows "cn_protocol c' = cn_protocol c" and "cn_in_buf c' = cn_in_buf c"
  using assms by (auto simp: flush_job_def run_callback_def close_conn_def Let_def split: prod.splits if_splits)

lemma write_conn_frame [simp]:
  "cn_protocol (write_conn bs cb c) = cn_protocol c" "cn_in_buf (write_conn bs cb c) = cn_in_buf c"
proof -
  obtain sent job' c' where job: "flush_job \<lparr>tj_buf = bs, tj_sent = 0, tj_cb = cb\<rparr> c = (sent, job', c')"
    by (metis prod_cases3)
  note frame = flush_job_frame [OF job]
  show "cn_protocol (write_conn bs cb c) = cn_protocol c" "cn_in_buf (write_conn bs cb c) = cn_in_buf c"
    by (cases "cn_jobs c = []"; cases sent; simp add: write_conn_def modFD_def job frame Let_def)+
qed

lemma run_action_frame [simp]:
  "cn_protocol (run_action a c) = cn_protocol c" "cn_in_buf (run_action a c) = cn_in_buf c"
  by (cases a; simp add: close_conn_def)+

lemma run_actions_frame [simp]:
  "cn_protocol (run_actions acts c) = cn_protocol c" "cn_in_buf (run_actions acts c) = cn_in_buf c"
  by (induction acts arbitrary: c) (simp_all add: run_actions_def)

section \<open>A connection over time\<close>

text \<open>
  What can happen to the output of a connection: the application or a protocol acts on it, the loop
  finds the socket writable, the peer reads and the kernel's buffer gets room.
\<close>

datatype output_event = Acts "conn_action list" | Writable | More_room "send_answer list"

fun output_step :: "'p protocol_handler \<Rightarrow> output_event \<Rightarrow> 'p conn \<Rightarrow> 'p conn" where
  "output_step ph (Acts acts) c = run_actions acts c"
| "output_step ph Writable c = fst (on_event ph EPOLLOUT c)"
| "output_step ph (More_room answers) c = c\<lparr>cn_sends := cn_sends c @ answers\<rparr>"

fun event_actions :: "output_event \<Rightarrow> conn_action list" where
  "event_actions (Acts acts) = acts"
| "event_actions _ = []"

fun event_fits :: "output_event \<Rightarrow> bool" where
  "event_fits (Acts acts) \<longleftrightarrow> small_writes acts"
| "event_fits Writable \<longleftrightarrow> True"
| "event_fits (More_room answers) \<longleftrightarrow> Send_error \<notin> set answers"

lemma on_event_writable:
  "on_event ph EPOLLOUT c = (rearm (on_writable (c\<lparr>cn_armed := None\<rparr>)), Inr ())"
  by (cases "cn_protocol c") (simp_all add: on_event_def epoll_flags)

lemma queue_ok_step:
  "queue_ok written cbs c \<Longrightarrow> event_fits e \<Longrightarrow>
   queue_ok (written @ written_by (event_actions e)) (cbs @ callbacks_of (event_actions e)) (output_step ph e c)"
  by (cases e) (simp_all add: queue_ok_actions queue_ok_room queue_ok_frame queue_ok_writable on_event_writable)

lemma written_by_append: "written_by (as @ bs) = written_by as @ written_by bs"
  by (induction as rule: written_by.induct) simp_all

lemma callbacks_of_append: "callbacks_of (as @ bs) = callbacks_of as @ callbacks_of bs"
  by (induction as rule: callbacks_of.induct) simp_all

text \<open>
  What a user of a connection relies on: a relation between the connection and everything that was
  given to it, kept by every step, from which it can tell what the peer has received.
\<close>

locale output_channel =
  fixes step :: "'e \<Rightarrow> 'c \<Rightarrow> 'c" and acts :: "'e \<Rightarrow> conn_action list" and fits :: "'e \<Rightarrow> bool"
    and ok :: "bytes \<Rightarrow> after_sent list \<Rightarrow> 'c \<Rightarrow> bool"
    and received :: "'c \<Rightarrow> bytes" and finished :: "'c \<Rightarrow> after_sent list" and drained :: "'c \<Rightarrow> bool"
  assumes ok_step: "ok written cbs c \<Longrightarrow> fits e \<Longrightarrow>
      ok (written @ written_by (acts e)) (cbs @ callbacks_of (acts e)) (step e c)"
    and ok_received: "ok written cbs c \<Longrightarrow> prefix (received c) written \<and> prefix (finished c) cbs"
    and ok_drained: "ok written cbs c \<Longrightarrow> drained c \<Longrightarrow> received c = written \<and> finished c = cbs"
begin

definition transcript :: "'e list \<Rightarrow> conn_action list" where
  "transcript es = concat (map acts es)"

lemma ok_run:
  assumes "ok written cbs c" and "\<forall>e \<in> set es. fits e"
  shows "ok (written @ written_by (transcript es)) (cbs @ callbacks_of (transcript es)) (fold step es c)"
  using assms
proof (induction es arbitrary: written cbs c)
  case (Cons e es)
  from Cons.IH [OF ok_step [OF Cons.prems(1)]] Cons.prems(2) show ?case
    by (simp add: transcript_def written_by_append callbacks_of_append)
qed (simp add: transcript_def)

lemma run_received:
  assumes "ok [] [] c" and "\<forall>e \<in> set es. fits e"
  shows "prefix (received (fold step es c)) (written_by (transcript es)) \<and>
    prefix (finished (fold step es c)) (callbacks_of (transcript es))"
  using ok_received [OF ok_run [OF assms]] by simp

lemma run_drained:
  assumes "ok [] [] c" and "\<forall>e \<in> set es. fits e" and "drained (fold step es c)"
  shows "received (fold step es c) = written_by (transcript es) \<and>
    finished (fold step es c) = callbacks_of (transcript es)"
  using ok_drained [OF ok_run [OF assms(1,2)] assms(3)] by simp

end

definition drained :: "'p conn \<Rightarrow> bool" where
  "drained c \<longleftrightarrow> cn_open c \<and> cn_jobs c = []"

interpretation chan: output_channel "output_step ph" event_actions event_fits queue_ok cn_wire cn_called drained
  for ph :: "'p protocol_handler"
proof
  fix written cbs and c :: "'p conn"
  assume ok: "queue_ok written cbs c"
  then show "prefix (cn_wire c) written \<and> prefix (cn_called c) cbs"
    by (auto simp: queue_ok_def)
  show "cn_wire c = written \<and> cn_called c = cbs" if "drained c"
    using ok that by (simp add: queue_ok_def drained_def)
qed (rule queue_ok_step)

lemma queue_ok_accepted: "queue_ok [] [] (accepted p)"
  by (simp add: queue_ok_def accepted_def callbacks_def)

section \<open>A socket with room is drained\<close>

definition has_room :: "send_answer list \<Rightarrow> nat \<Rightarrow> bool" where
  "has_room answers n \<longleftrightarrow> n \<le> length answers \<and> (\<forall>a \<in> set answers. \<exists>room > 0. a = Room room)"

lemma has_room_no_error: "has_room answers n \<Longrightarrow> Send_error \<notin> set answers"
  by (auto simp: has_room_def)

lemma flush_loop_room:
  assumes "flush_loop True buf sent answers wire = (finished, sent', answers', wire')"
    and "length buf < 2 ^ 31" and "unat sent \<le> length buf"
    and "has_room answers (length buf - unat sent + n)"
  shows "finished \<and> has_room answers' n"
  using assms
proof (induction "length answers" arbitrary: sent answers wire)
  case 0
  then show ?case
    by (auto simp: has_room_def flush_loop.simps [of True buf sent] less_size_of_iff)
next
  case (Suc k)
  show ?case
  proof (cases "unat sent < length buf")
    case False
    with Suc.prems show ?thesis
      by (auto simp: flush_loop.simps [of True buf sent] less_size_of_iff)
  next
    case True
    from Suc.hyps(2) Suc.prems(4) obtain room as where answers: "answers = Room room # as" "0 < room"
      by (cases answers) (auto simp: has_room_def)
    define w where "w = min room (length buf - unat sent)"
    have w: "0 < w" "w \<le> length buf - unat sent" "to_int32 (int w) = int w"
      using answers(2) True Suc.prems(2) by (auto simp: w_def intro!: to_int32_id)
    have sum: "unat (sent + word_of_int (int w)) = unat sent + w"
    proof -
      have "unat sent + w < 2 ^ 64"
        using w Suc.prems(2,3) by simp
      then show ?thesis
        by (simp add: unat_word_ariths unsigned_of_nat take_bit_eq_mod)
    qed
    have step: "flush_loop True buf (sent + word_of_int (int w)) as (wire @ take w (drop (unat sent) buf)) =
        (finished, sent', answers', wire')"
      using Suc.prems(1) answers True w Suc.prems(2)
      by (simp add: flush_loop.simps [of True buf sent] less_size_of_iff send_call_def Let_def w_def)
    have "has_room as (length buf - unat (sent + word_of_int (int w)) + n)"
      unfolding sum using Suc.prems(4) answers(1) w(1,2) True by (auto simp: has_room_def)
    then show ?thesis
      using Suc.hyps(1) [OF _ step] Suc.hyps(2) Suc.prems(2) answers(1) sum w(2) True by simp
  qed
qed

lemma flush_job_room:
  assumes "flush_job job c = (finished, job', c')" and "cn_open c" and "job_ok job"
    and "has_room (cn_sends c) (length (unsent job) + n)"
  shows "finished \<and> has_room (cn_sends c') n"
proof -
  obtain fin sent answers wire where
    loop: "flush_loop True (tj_buf job) (tj_sent job) (cn_sends c) (cn_wire c) = (fin, sent, answers, wire)"
    by (metis prod_cases4)
  have "fin \<and> has_room answers n"
    by (rule flush_loop_room [OF loop]) (use assms(3,4) in \<open>simp_all add: job_ok_def unsent_def\<close>)
  with loop assms(1,2) show ?thesis
    by (auto simp: flush_job_def Let_def run_callback_def close_conn_def)
qed

lemma flush_jobs_room:
  assumes "flush_jobs jobs c = (jobs', c')" and "cn_open c" and "\<forall>job \<in> set jobs. job_ok job"
    and "has_room (cn_sends c) (length (pending jobs))"
    and "Close_after \<notin> set (callbacks jobs)"
  shows "jobs' = [] \<and> cn_open c'"
  using assms
proof (induction jobs arbitrary: c)
  case (Cons job jobs)
  obtain finished job1 c1 where job: "flush_job job c = (finished, job1, c1)"
    by (metis prod_cases3)
  have "has_room (cn_sends c) (length (unsent job) + length (pending jobs))"
    using Cons.prems(4) by simp
  from flush_job_room [OF job Cons.prems(2) _ this] Cons.prems(3)
  have room: finished "has_room (cn_sends c1) (length (pending jobs))"
    by auto
  have open1: "cn_open c1"
    using flush_job_open [OF job Cons.prems(2) _ has_room_no_error [OF Cons.prems(4)]] Cons.prems(3,5)
    by (auto split: if_splits)
  let ?c = "c1\<lparr>cn_out_size := cn_out_size c1 - (remaining job - remaining job1)\<rparr>"
  have "flush_jobs jobs ?c = (jobs', c')"
    using Cons.prems(1) job room(1) by (simp add: Let_def)
  from Cons.IH [OF this] open1 room(2) Cons.prems(3,5) show ?case
    by (auto split: if_splits)
qed simp

section \<open>The loop's registration\<close>

text \<open>Between two events an open connection is armed, for writing exactly when jobs wait.\<close>

definition armed_ok :: "'p conn \<Rightarrow> bool" where
  "armed_ok c \<longleftrightarrow> cn_armed c =
     (if cn_open c then Some ((EPOLLIN OR EPOLLHUP OR EPOLLRDHUP OR EPOLLONESHOT)
          OR (if cn_jobs c \<noteq> [] then EPOLLOUT else 0)) else None)"

lemma armed_flags:
  "EPOLLIN OR EPOLLOUT OR EPOLLHUP OR EPOLLRDHUP OR EPOLLONESHOT =
   (EPOLLIN OR EPOLLHUP OR EPOLLRDHUP OR EPOLLONESHOT) OR EPOLLOUT"
  by (simp add: epoll_flags)

lemma armed_flush_job:
  "flush_job job c = (finished, job', c') \<Longrightarrow>
   cn_jobs c' = cn_jobs c \<and> (cn_open c' \<longrightarrow> cn_open c \<and> cn_armed c' = cn_armed c) \<and>
   (\<not> cn_open c' \<longrightarrow> cn_open c \<longrightarrow> cn_armed c' = None) \<and> (\<not> cn_open c \<longrightarrow> cn_armed c = None \<longrightarrow> cn_armed c' = None)"
  by (auto simp: flush_job_def run_callback_def close_conn_def Let_def split: prod.splits if_splits)

lemma armed_write: "armed_ok c \<Longrightarrow> armed_ok (write_conn bs cb c)"
proof -
  assume armed: "armed_ok c"
  let ?job = "\<lparr>tj_buf = bs, tj_sent = 0, tj_cb = cb\<rparr>"
  obtain finished job' c' where flush: "flush_job ?job c = (finished, job', c')"
    by (metis prod_cases3)
  from armed armed_flush_job [OF flush] flush show ?thesis
    by (cases "cn_open c"; cases "cn_open c'")
      (auto simp: armed_ok_def write_conn_def modFD_def armed_flags Let_def split: if_splits)
qed

lemma armed_actions: "armed_ok c \<Longrightarrow> armed_ok (run_actions acts c)"
proof (induction acts arbitrary: c)
  case (Cons act acts)
  then have "armed_ok (run_action act c)"
    by (cases act) (simp_all add: armed_write, simp add: armed_ok_def close_conn_def)
  from Cons.IH [OF this] show ?case
    by (simp add: run_actions_def)
qed (simp add: run_actions_def)

lemma armed_accepted: "armed_ok (accepted p)"
  by (simp add: armed_ok_def accepted_def)

subsection \<open>Why a connection closes\<close>

text \<open>Calls of a protocol that close the connection, at once or when a write has been sent.\<close>

definition closes :: "conn_action list \<Rightarrow> bool" where
  "closes acts \<longleftrightarrow> Close \<in> set acts \<or> Close_after \<in> set (callbacks_of acts)"

text \<open>
  An event may close a connection when it reports an error or a hang-up, when a waiting job closes it
  once sent, when its data makes the protocol close it, and when it reports room and the protocol is
  gone, or goes with this data.
\<close>

definition may_close :: "'p protocol_handler \<Rightarrow> i32 \<Rightarrow> 'p conn \<Rightarrow> bool" where
  "may_close ph flags c \<longleftrightarrow>
     flags AND (EPOLLERR OR EPOLLHUP OR EPOLLRDHUP) \<noteq> 0 \<or>
     Close_after \<in> set (callbacks (cn_jobs c)) \<or>
     (case cn_protocol c of
        None \<Rightarrow> flags AND EPOLLOUT \<noteq> 0
      | Some p \<Rightarrow>
          flags AND EPOLLIN \<noteq> 0 \<and>
          (let (answers, in_buf, received) = recv_loop (cn_recvs c) (cn_in_buf c);
               (acts, p', outcome) = ph_data ph p in_buf
           in closes acts \<or>
              flags AND EPOLLOUT \<noteq> 0 \<and> (case outcome of Inl e \<Rightarrow> False | Inr (consumed, change) \<Rightarrow> change = Some None)))"

lemma closes_simps [simp]:
  "\<not> closes []" "closes (Close # acts)" "closes (Write bs cb # acts) \<longleftrightarrow> cb = Close_after \<or> closes acts"
  by (auto simp: closes_def)

lemma write_keeps_open: "cb \<noteq> Close_after \<Longrightarrow> cn_open (write_conn bs cb c) = cn_open c"
  by (auto simp: write_conn_def flush_job_def run_callback_def modFD_def Let_def split: prod.splits if_splits)

lemma write_callbacks:
  assumes "cb \<noteq> Close_after" and "Close_after \<notin> set (callbacks (cn_jobs c))"
  shows "Close_after \<notin> set (callbacks (cn_jobs (write_conn bs cb c)))"
  using assms
  by (auto simp: write_conn_def flush_job_def run_callback_def modFD_def callbacks_def Let_def split: prod.splits if_splits)

lemma run_actions_open:
  "\<not> closes acts \<Longrightarrow> Close_after \<notin> set (callbacks (cn_jobs c)) \<Longrightarrow>
   cn_open (run_actions acts c) = cn_open c \<and> Close_after \<notin> set (callbacks (cn_jobs (run_actions acts c)))"
proof (induction acts arbitrary: c rule: callbacks_of.induct)
  case (2 bs cb acts)
  then have "cb \<noteq> Close_after" "\<not> closes acts"
    by simp_all
  with 2 write_keeps_open [of cb bs c] write_callbacks [of cb c bs] show ?case
    by (simp add: run_actions_def)
qed (simp_all add: run_actions_def)

lemma flush_jobs_keeps:
  assumes "flush_jobs jobs c = (jobs', c')" and "Close_after \<notin> set (callbacks jobs)"
  shows "cn_open c' = cn_open c \<and> cn_protocol c' = cn_protocol c \<and> cn_in_buf c' = cn_in_buf c"
  using assms
proof (induction jobs arbitrary: c)
  case (Cons job jobs)
  obtain sent job1 c1 where job: "flush_job job c = (sent, job1, c1)"
    by (metis prod_cases3)
  have "tj_cb job \<noteq> Close_after"
    using Cons.prems(2) by (auto simp: callbacks_def split: if_splits)
  with job have "cn_open c1 = cn_open c"
    by (auto simp: flush_job_def run_callback_def Let_def split: prod.splits if_splits)
  moreover have "Close_after \<notin> set (callbacks jobs)"
    using Cons.prems(2) by (auto simp: callbacks_def split: if_splits)
  ultimately show ?case
    using Cons.IH Cons.prems(1) job flush_job_frame [OF job] by (cases sent) (fastforce simp: Let_def)+
qed simp

lemma on_writable_open:
  assumes "Close_after \<notin> set (callbacks (cn_jobs c))" and "cn_protocol c \<noteq> None"
  shows "cn_open (on_writable c) = cn_open c"
proof -
  obtain jobs c1 where flush: "flush_jobs (cn_jobs c) c = (jobs, c1)"
    by (metis surj_pair)
  from flush_jobs_keeps [OF flush assms(1)] assms(2) flush show ?thesis
    by (auto simp: on_writable_def Let_def)
qed

lemma on_readable_open:
  assumes "on_readable ph p c = (c', outcome)" and "Close_after \<notin> set (callbacks (cn_jobs c))"
    and "recv_loop (cn_recvs c) (cn_in_buf c) = (answers, in_buf, received)"
    and "ph_data ph p in_buf = (acts, p', result)" and "\<not> closes acts" and "cn_protocol c \<noteq> None"
  shows "cn_open c' = cn_open c" and "Close_after \<notin> set (callbacks (cn_jobs c'))"
    and "cn_protocol c' = None \<Longrightarrow> \<exists>consumed. result = Inr (consumed, Some None)"
  using assms(1,2,6) run_actions_open [OF assms(5), of "c\<lparr>cn_recvs := answers, cn_in_buf := in_buf, cn_protocol := Some p'\<rparr>"]
  by (auto simp: on_readable_def assms(3,4) Let_def split: sum.splits option.splits prod.splits)

lemma event_closes:
  assumes "cn_open c" and "\<not> cn_open (fst (on_event ph flags c))"
  shows "may_close ph flags c"
proof (rule ccontr)
  assume stays: "\<not> may_close ph flags c"
  let ?c = "c\<lparr>cn_armed := None\<rparr>"
  have no_hang_up: "flags AND (EPOLLERR OR EPOLLHUP OR EPOLLRDHUP) = 0"
    and callbacks: "Close_after \<notin> set (callbacks (cn_jobs ?c))"
    using stays by (simp_all add: may_close_def)
  obtain c1 readable where readable: "(case cn_protocol ?c of
      Some p \<Rightarrow> if flags AND EPOLLIN \<noteq> 0 then on_readable ph p ?c else (?c, Inr ()) | None \<Rightarrow> (?c, Inr ()))
      = (c1, readable)"
    by (metis surj_pair)
  have c1: "cn_open c1" "Close_after \<notin> set (callbacks (cn_jobs c1))" "flags AND EPOLLOUT \<noteq> 0 \<Longrightarrow> cn_protocol c1 \<noteq> None"
  proof -
    have "cn_open c1 \<and> Close_after \<notin> set (callbacks (cn_jobs c1)) \<and> (flags AND EPOLLOUT \<noteq> 0 \<longrightarrow> cn_protocol c1 \<noteq> None)"
    proof (cases "cn_protocol c")
      case None
      with readable stays callbacks assms(1) show ?thesis
        by (auto simp: may_close_def)
    next
      case (Some p)
      show ?thesis
      proof (cases "flags AND EPOLLIN = 0")
        case True
        with readable Some callbacks assms(1) show ?thesis
          by auto
      next
        case False
        obtain answers in_buf received where recv: "recv_loop (cn_recvs ?c) (cn_in_buf ?c) = (answers, in_buf, received)"
          by (metis prod_cases3)
        obtain acts p' result where data: "ph_data ph p in_buf = (acts, p', result)"
          by (metis prod_cases3)
        have "\<not> closes acts" and change: "flags AND EPOLLOUT \<noteq> 0 \<Longrightarrow> \<nexists>consumed. result = Inr (consumed, Some None)"
          using stays False recv data by (auto simp: may_close_def Some)
        moreover have "on_readable ph p ?c = (c1, readable)"
          using readable False Some by simp
        ultimately show ?thesis
          using on_readable_open [OF _ callbacks recv data, of c1 readable] assms(1) by (auto simp: Some)
      qed
    qed
    then show "cn_open c1" "Close_after \<notin> set (callbacks (cn_jobs c1))" "flags AND EPOLLOUT \<noteq> 0 \<Longrightarrow> cn_protocol c1 \<noteq> None"
      by simp_all
  qed
  have "cn_open (rearm (if flags AND EPOLLOUT \<noteq> 0 then on_writable c1 else c1))"
    using c1 on_writable_open [OF c1(2)] by (auto simp: rearm_def modFD_def)
  with c1 readable no_hang_up have "cn_open (fst (on_event ph flags c))"
    by (auto simp: on_event_def Let_def split: sum.splits)
  with assms(2) show False ..
qed

definition closed_unarmed :: "'p conn \<Rightarrow> bool" where
  "closed_unarmed c \<longleftrightarrow> (\<not> cn_open c \<longrightarrow> cn_armed c = None)"

lemma closed_unarmed_flush_job:
  "flush_job job c = (finished, job', c') \<Longrightarrow> closed_unarmed c \<Longrightarrow> closed_unarmed c'"
  using armed_flush_job [of job c finished job' c'] by (auto simp: closed_unarmed_def)

lemma closed_unarmed_write: "closed_unarmed c \<Longrightarrow> closed_unarmed (write_conn bs cb c)"
  using closed_unarmed_flush_job [of "\<lparr>tj_buf = bs, tj_sent = 0, tj_cb = cb\<rparr>" c]
  by (cases "flush_job \<lparr>tj_buf = bs, tj_sent = 0, tj_cb = cb\<rparr> c")
    (auto simp: write_conn_def modFD_def Let_def closed_unarmed_def)

lemma closed_unarmed_actions: "closed_unarmed c \<Longrightarrow> closed_unarmed (run_actions acts c)"
proof (induction acts arbitrary: c)
  case (Cons act acts)
  then have "closed_unarmed (run_action act c)"
    by (cases act) (simp_all add: closed_unarmed_write, simp add: closed_unarmed_def close_conn_def)
  from Cons.IH [OF this] show ?case
    by (simp add: run_actions_def)
qed (simp add: run_actions_def)

lemma closed_unarmed_flush_jobs:
  "flush_jobs jobs c = (jobs', c') \<Longrightarrow> closed_unarmed c \<Longrightarrow> closed_unarmed c'"
proof (induction jobs arbitrary: c)
  case (Cons job jobs)
  obtain finished job1 c1 where job: "flush_job job c = (finished, job1, c1)"
    by (metis prod_cases3)
  let ?c = "c1\<lparr>cn_out_size := cn_out_size c1 - (remaining job - remaining job1)\<rparr>"
  have "closed_unarmed ?c"
    using closed_unarmed_flush_job [OF job Cons.prems(2)] by (simp add: closed_unarmed_def)
  with Cons.IH [of ?c] Cons.prems(1) job show ?case
    by (auto simp: Let_def split: if_splits)
qed simp

lemma closed_unarmed_writable: "closed_unarmed c \<Longrightarrow> closed_unarmed (on_writable c)"
  using closed_unarmed_flush_jobs [of "cn_jobs c" c]
  by (cases "flush_jobs (cn_jobs c) c")
    (auto simp: on_writable_def Let_def closed_unarmed_def close_conn_def)

lemma closed_unarmed_readable:
  "on_readable ph p c = (c', outcome) \<Longrightarrow> closed_unarmed c \<Longrightarrow> closed_unarmed c'"
  using closed_unarmed_actions
  by (fastforce simp: on_readable_def closed_unarmed_def Let_def split: prod.splits sum.splits)

lemma armed_rearm: "closed_unarmed c \<Longrightarrow> armed_ok (rearm c)"
  by (simp add: armed_ok_def rearm_def modFD_def closed_unarmed_def)

lemma armed_on_event:
  assumes "on_event ph flags c = (c', Inr ())"
  shows "armed_ok c'"
proof (cases "flags AND (EPOLLERR OR EPOLLHUP OR EPOLLRDHUP) \<noteq> 0")
  case True
  with assms show ?thesis
    by (auto simp: on_event_def on_hang_up_def close_conn_def armed_ok_def Let_def
        split: option.splits prod.splits sum.splits)
next
  case False
  let ?c = "c\<lparr>cn_armed := None\<rparr>"
  obtain c1 readable where readable: "(case cn_protocol ?c of
      Some p \<Rightarrow> if flags AND EPOLLIN \<noteq> 0 then on_readable ph p ?c else (?c, Inr ()) | None \<Rightarrow> (?c, Inr ()))
      = (c1, readable)"
    by (metis surj_pair)
  then have "closed_unarmed c1"
    using closed_unarmed_readable [of ph _ ?c c1 readable]
    by (auto simp: closed_unarmed_def split: option.splits if_splits)
  moreover have "c' = rearm (if flags AND EPOLLOUT \<noteq> 0 then on_writable c1 else c1)"
    using assms False readable by (auto simp: on_event_def Let_def split: sum.splits)
  ultimately show ?thesis
    by (simp add: armed_rearm closed_unarmed_writable)
qed

section \<open>The protocol's side\<close>

text \<open>The data \<^verbatim>\<open>recv\<close> hands over before it would block.\<close>

fun data_read :: "recv_answer list \<Rightarrow> bytes" where
  "data_read [] = []"
| "data_read (Recv_error # answers) = []"
| "data_read (Received bs # answers) = bs @ (if length bs < read_size then [] else data_read answers)"

lemma recv_loop_data:
  "Recv_error \<notin> set answers \<Longrightarrow>
   \<exists>answers'. recv_loop answers in_buf = (answers', in_buf @ data_read answers, Inr ())"
  by (induction answers in_buf rule: recv_loop.induct) auto

text \<open>
  What the connection relies on: a protocol consumes no more than it was given. Then the input
  buffer is never erased past its end, and what the protocol did not consume it is given again,
  followed by what was received since.
\<close>

locale protocol_contract =
  fixes ph :: "'p protocol_handler"
  assumes consumes: "ph_data ph p bs = (acts, p', Inr (consumed, change)) \<Longrightarrow> length bs < 2 ^ 31 \<Longrightarrow>
    0 \<le> consumed \<and> nat consumed \<le> length bs"
begin

lemma erase_defined:
  "ph_data ph p bs = (acts, p', Inr (consumed, change)) \<Longrightarrow> length bs < 2 ^ 31 \<Longrightarrow>
   erase_consumed consumed bs = Inr (drop (nat consumed) bs)"
  using consumes by (auto simp: erase_consumed_def)

theorem readable_stream:
  assumes "Recv_error \<notin> set (cn_recvs c)"
    and "length (cn_in_buf c @ data_read (cn_recvs c)) < 2 ^ 31"
    and "ph_data ph p (cn_in_buf c @ data_read (cn_recvs c)) = (acts, p', Inr (consumed, change))"
  shows "\<exists>c'. on_readable ph p c = (c', Inr ()) \<and>
    cn_in_buf c @ data_read (cn_recvs c) = take (nat consumed) (cn_in_buf c @ data_read (cn_recvs c)) @ cn_in_buf c'"
proof -
  from recv_loop_data [OF assms(1), of "cn_in_buf c"] obtain answers where
    "recv_loop (cn_recvs c) (cn_in_buf c) = (answers, cn_in_buf c @ data_read (cn_recvs c), Inr ())"
    by blast
  with erase_defined [OF assms(3,2)] assms(3) have "\<exists>c'. on_readable ph p c = (c', Inr ()) \<and>
      cn_in_buf c' = drop (nat consumed) (cn_in_buf c @ data_read (cn_recvs c))"
    by (simp add: on_readable_def Let_def del: drop_append)
  then show ?thesis
    by (metis append_take_drop_id)
qed

end

text \<open>A protocol that consumes nothing, for the examples.\<close>

definition idle_protocol :: "unit protocol_handler" where
  "idle_protocol = \<lparr>ph_data = (\<lambda>p bs. ([], p, Inr (0, None))), ph_peer_close = (\<lambda>p. ([], p, Inr ()))\<rparr>"

definition idle_conn :: "bytes \<Rightarrow> send_answer list \<Rightarrow> unit option \<Rightarrow> unit conn" where
  "idle_conn buf answers p = (accepted ())\<lparr>cn_protocol := p, cn_sends := answers,
     cn_jobs := [\<lparr>tj_buf = buf, tj_sent = 0, tj_cb = No_callback\<rparr>], cn_out_size := size_of buf\<rparr>"

lemma queue_ok_idle_conn:
  "length buf < 2 ^ 31 \<Longrightarrow> Send_error \<notin> set answers \<Longrightarrow> queue_ok buf [] (idle_conn buf answers p)"
  by (simp add: queue_ok_def idle_conn_def accepted_def job_ok_def unsent_def size_of_def)

section \<open>Properties\<close>

text \<open>
  C4. Whatever an application and its protocol do, however the kernel splits the sending and
  whenever the loop runs: as long as \<^verbatim>\<open>send\<close> meets no error, the peer receives a prefix of the
  bytes that were written, in order, and the completion callbacks that have run are a prefix of
  those that were passed; on an open connection without waiting jobs it is all of them.
\<close>

theorem output_in_order:
  assumes "\<forall>e \<in> set es. event_fits e" and "c = fold (output_step ph) es (accepted p)"
    and "acts = concat (map event_actions es)"
  shows "prefix (cn_wire c) (written_by acts) \<and> prefix (cn_called c) (callbacks_of acts) \<and>
    (cn_open c \<and> cn_jobs c = [] \<longrightarrow> cn_wire c = written_by acts \<and> cn_called c = callbacks_of acts)"
  unfolding assms(2,3)
  using chan.run_received [OF queue_ok_accepted assms(1), of ph p]
    chan.run_drained [OF queue_ok_accepted assms(1), of ph p]
  unfolding drained_def chan.transcript_def by blast

theorem output_in_order_witness:
  "prefix (cn_wire (fold (output_step idle_protocol)
      [Acts [Write [1, 2] No_callback], More_room [Room 1], Writable] (accepted ()))) [1, 2]"
  using output_in_order [of "[Acts [Write [1, 2] No_callback], More_room [Room 1], Writable]" _ idle_protocol "()",
      OF _ refl refl]
  by simp

text \<open>
  The size the application reads with \<^verbatim>\<open>getOutBufferSize\<close> is, on an open connection and
  without send errors, the number of bytes written and not yet accepted by the socket.
\<close>

lemma out_buffer_size:
  assumes "\<forall>e \<in> set es. event_fits e" and "c = fold (output_step ph) es (accepted p)" and "cn_open c"
  shows "getOutBufferSize c =
    word_of_nat (length (written_by (concat (map event_actions es))) - length (cn_wire c))"
proof -
  have "queue_ok (written_by (concat (map event_actions es))) (callbacks_of (concat (map event_actions es))) c"
    using chan.ok_run [OF queue_ok_accepted assms(1), of ph p] by (simp add: assms(2) chan.transcript_def)
  with assms(3) have "written_by (concat (map event_actions es)) = cn_wire c @ pending (cn_jobs c)"
    "cn_out_size c = word_of_nat (length (pending (cn_jobs c)))"
    by (simp_all add: queue_ok_def)
  then show ?thesis
    by (simp add: getOutBufferSize_def)
qed

text \<open>An event that reports room, when the socket has room for all that is pending.\<close>

lemma drain_event:
  assumes "queue_ok written cbs c" and "cn_open c" and "cn_protocol c \<noteq> None"
    and "has_room (cn_sends c) (length (pending (cn_jobs c)))"
    and "Close_after \<notin> set (callbacks (cn_jobs c))"
  shows "\<exists>c'. on_event ph EPOLLOUT c = (c', Inr ()) \<and> cn_open c' \<and> cn_jobs c' = [] \<and>
    cn_wire c' = written \<and> cn_called c' = cbs \<and> getOutBufferSize c' = 0 \<and>
    cn_armed c' = Some (EPOLLIN OR EPOLLHUP OR EPOLLRDHUP OR EPOLLONESHOT)"
proof -
  let ?c = "c\<lparr>cn_armed := None\<rparr>"
  obtain jobs' c1 where flush: "flush_jobs (cn_jobs ?c) ?c = (jobs', c1)"
    by (metis surj_pair)
  have jobs: "\<forall>job \<in> set (cn_jobs ?c). job_ok job" "Send_error \<notin> set (cn_sends ?c)"
    using assms(1) by (simp_all add: queue_ok_def)
  have done_jobs: "jobs' = [] \<and> cn_open c1"
    by (rule flush_jobs_room [OF flush]) (use assms jobs in simp_all)
  moreover have "cn_protocol c1 \<noteq> None"
    using flush_jobs_open [OF flush _ jobs] assms(2,3) by simp
  ultimately have c': "on_writable ?c = c1\<lparr>cn_jobs := []\<rparr>" "cn_open c1"
    using flush by (auto simp: on_writable_def Let_def)
  have "queue_ok written cbs (on_writable ?c)"
    using assms(1) by (simp add: queue_ok_writable queue_ok_frame)
  with c' show ?thesis
    by (simp add: on_event_writable rearm_def modFD_def queue_ok_def getOutBufferSize_def)
qed

text \<open>
  C15. An event that reports room drains the queue: when the socket has room for what is pending (in
  pieces of any size), everything written is on the wire, every callback has run, and the loop waits
  for input only.
\<close>

theorem writable_drains:
  assumes "queue_ok written cbs c" and "cn_open c" and "cn_protocol c \<noteq> None"
    and "has_room (cn_sends c) (length (pending (cn_jobs c)))"
    and "Close_after \<notin> set (callbacks (cn_jobs c))"
  shows "\<exists>c'. on_event ph EPOLLOUT c = (c', Inr ()) \<and> cn_open c' \<and> cn_jobs c' = [] \<and>
    cn_wire c' = written \<and> cn_called c' = cbs \<and> getOutBufferSize c' = 0 \<and>
    cn_armed c' = Some (EPOLLIN OR EPOLLHUP OR EPOLLRDHUP OR EPOLLONESHOT)"
  using assms by (rule drain_event)

theorem writable_drains_witness:
  "\<exists>c'. on_event idle_protocol EPOLLOUT (idle_conn [1, 2, 3] [Room 2, Room 1, Room 5] (Some ())) = (c', Inr ()) \<and>
    cn_jobs c' = [] \<and> cn_wire c' = [1, 2, 3] \<and> getOutBufferSize c' = 0"
  using writable_drains [of "[1, 2, 3]" "[]" "idle_conn [1, 2, 3] [Room 2, Room 1, Room 5] (Some ())" idle_protocol]
  by (auto simp: idle_conn_def accepted_def queue_ok_def job_ok_def callbacks_def pending_def unsent_def
      has_room_def size_of_def)

text \<open>
  No wakeup is lost: after an event that was handled and after any action, an open
  connection is registered with the loop for its input, and for output exactly when jobs wait; a
  closed one is not registered.
\<close>

lemma loop_registration:
  "(on_event ph flags c = (c', Inr ()) \<longrightarrow> armed_ok c') \<and> armed_ok (accepted p) \<and>
   (armed_ok c \<longrightarrow> armed_ok (run_actions acts c))"
  by (intro conjI impI; (rule armed_accepted | erule armed_on_event | erule armed_actions))

text \<open>
  A send error that is not \<^verbatim>\<open>EAGAIN\<close> steps \<^verbatim>\<open>bytes_sent\<close> back by one: at the start of a
  job it wraps around, so the job counts as sent though nothing was, and later in a job the last
  byte is sent a second time.
\<close>

lemma send_error_steps_back:
  assumes "sent < size_of buf"
  shows "flush_loop True buf sent (Send_error # answers) wire =
    (if sent = 0 then (True, - 1, answers, wire) else flush_loop True buf (sent - 1) answers wire)"
proof -
  have "\<not> (- 1 :: u64) < size_of buf"
    by (simp add: not_less word_order.extremum)
  with assms show ?thesis
    by (simp add: flush_loop.simps [of True buf sent] flush_loop.simps [of True buf "- 1"] send_call_def
        to_int32_def Let_def)
qed

text \<open>
  Without a protocol the connection is closed by the first writable event, also when the
  socket took none of the bytes that wait: they are lost.
\<close>

lemma closed_with_jobs_waiting:
  assumes "queue_ok written cbs c" and "cn_open c" and "cn_protocol c = None"
    and "cn_sends c = []" and "cn_jobs c = job # jobs" and "unsent job \<noteq> []"
  shows "\<exists>c'. on_event ph EPOLLOUT c = (c', Inr ()) \<and> \<not> cn_open c' \<and> cn_wire c' \<noteq> written"
proof -
  have "job_ok job" "cn_wire c @ pending (cn_jobs c) = written"
    using assms(1,2,5) by (simp_all add: queue_ok_def)
  moreover from this assms(6) have "tj_sent job < size_of (tj_buf job)"
    by (simp add: job_ok_def unsent_def less_size_of_iff)
  ultimately show ?thesis
    using assms
    by (auto simp: on_event_writable on_writable_def flush_job_def flush_loop.simps [of True "tj_buf job"]
        send_call_def Let_def close_conn_def rearm_def modFD_def)
qed

end
