(* ===== verification/Websocket.thy ===== *)
theory Websocket
  imports Connection String_View
begin

text \<open>
  Websocket.cpp: the frames of a websocket, the reassembly of fragmented messages, the control
  frames and the closing handshake. The application behind the websocket is a parameter: what it
  does with the websocket when one of its functions is called, which may depend on everything that
  happened before. What the websocket does (calls of the application, of the connection, of the
  event loop) is recorded in order in its trace.
\<close>

section \<open>Data\<close>

datatype op_code = Op_continuation | Op_text | Op_binary | Op_close | Op_ping | Op_pong | Op_other byte

definition op_code_of :: "byte \<Rightarrow> op_code" where
  "op_code_of b =
     (if b = 0x00 then Op_continuation else if b = 0x01 then Op_text else if b = 0x02 then Op_binary
      else if b = 0x08 then Op_close else if b = 0x09 then Op_ping else if b = 0x0a then Op_pong
      else Op_other b)"

fun byte_of_op :: "op_code \<Rightarrow> byte" where
  "byte_of_op Op_continuation = 0x00"
| "byte_of_op Op_text = 0x01"
| "byte_of_op Op_binary = 0x02"
| "byte_of_op Op_close = 0x08"
| "byte_of_op Op_ping = 0x09"
| "byte_of_op Op_pong = 0x0a"
| "byte_of_op (Op_other b) = b"

datatype close_code = Normal | Going_away | Protocol_error | Unacceptable | Invalid_data
  | Policy_violation | Message_too_big | Unexpected_error

fun close_number :: "close_code \<Rightarrow> 16 word" where
  "close_number Normal = 1000"
| "close_number Going_away = 1001"
| "close_number Protocol_error = 1002"
| "close_number Unacceptable = 1003"
| "close_number Invalid_data = 1007"
| "close_number Policy_violation = 1008"
| "close_number Message_too_big = 1009"
| "close_number Unexpected_error = 1011"

datatype any_message = Text_message string | Bin_message bytes

fun message_bytes :: "any_message \<Rightarrow> bytes" where
  "message_bytes (Text_message s) = bytes_of_string s"
| "message_bytes (Bin_message b) = b"

text \<open>The calls of the application, and of the event loop for the two timers of the auto ping.\<close>

datatype ws_call = On_message any_message | On_close | On_ping bytes | On_pong bytes

datatype loop_call = Rm_ping_timer | Rm_timeout_timer | Add_ping_timer | Add_timeout_timer
  | Start_ping_timer int | Clear_ping_timer | Cancel_timeout

datatype ws_out = Conn conn_action | Loop loop_call | Call ws_call

record ws =
  ws_handler :: bool
  ws_frag_buffer :: bytes
  ws_cur_opcode :: op_code
  ws_auto_ping :: bool
  ws_trace :: "ws_out list"

text \<open>A new websocket has no handler yet.\<close>

definition new_ws :: ws where
  "new_ws = \<lparr>ws_handler = False, ws_frag_buffer = [], ws_cur_opcode = Op_continuation,
     ws_auto_ping = False, ws_trace = []\<rparr>"

definition setHandler :: "ws \<Rightarrow> ws" where
  "setHandler w = w\<lparr>ws_handler := True\<rparr>"

definition emit :: "ws_out \<Rightarrow> ws \<Rightarrow> ws" where
  "emit out w = w\<lparr>ws_trace := ws_trace w @ [out]\<rparr>"

text \<open>
  What the application does with the websocket. Its \<open>onClose\<close> may still send, but not close again:
  \<^verbatim>\<open>close\<close> calls \<open>onClose\<close> before anything else, so that would never return.
\<close>

datatype app_send = Send_message any_message after_sent | Send_frame bytes op_code bool after_sent
  | Send_ping any_message after_sent

datatype app_op = App_send app_send | App_close close_code any_message

record ws_app =
  app_on_event :: "ws_out list \<Rightarrow> ws_call \<Rightarrow> app_op list"
  app_on_close :: "ws_out list \<Rightarrow> app_send list"

section \<open>Sending\<close>

definition serialize_frame :: "bytes \<Rightarrow> op_code \<Rightarrow> bool \<Rightarrow> bytes" where
  "serialize_frame message opcode fin =
     (let pl = (word_of_nat (length message) :: u64)
      in [byte_of_op opcode OR (if fin then 0x80 else 0x00)]
         @ (if pl \<le> 125 then [ucast pl]
            else if length message \<le> 0xffff then [126, ucast (drop_bit 8 pl), ucast pl]
            else 127 # map (\<lambda>i. ucast (drop_bit (i * 8) pl)) [7, 6, 5, 4, 3, 2, 1, 0])
         @ message)"

definition send_frame :: "bytes \<Rightarrow> op_code \<Rightarrow> bool \<Rightarrow> after_sent \<Rightarrow> ws \<Rightarrow> ws" where
  "send_frame message opcode fin cb w = emit (Conn (Write (serialize_frame message opcode fin) cb)) w"

fun send_message :: "any_message \<Rightarrow> after_sent \<Rightarrow> ws \<Rightarrow> ws" where
  "send_message (Text_message s) cb w = send_frame (bytes_of_string s) Op_text True cb w"
| "send_message (Bin_message b) cb w = send_frame b Op_binary True cb w"

definition ping_too_long :: fault where
  "ping_too_long = Logic_error ''ping payload too long''"

definition close_too_long :: fault where
  "close_too_long = Logic_error ''close payload too long''"

definition ping_ws :: "any_message \<Rightarrow> after_sent \<Rightarrow> ws \<Rightarrow> ws \<times> unit result" where
  "ping_ws message cb w =
     (if length (message_bytes message) > 125 then (w, Inl ping_too_long)
      else (send_frame (message_bytes message) Op_ping True cb w, Inr ()))"

text \<open>An operation that may throw, then another one.\<close>

definition and_then :: "ws \<times> 'a result \<Rightarrow> ('a \<Rightarrow> ws \<Rightarrow> ws \<times> 'b result) \<Rightarrow> ws \<times> 'b result" where
  "and_then m f = (case m of (w, Inl e) \<Rightarrow> (w, Inl e) | (w, Inr x) \<Rightarrow> f x w)"

lemma and_then_simps [simp]:
  "and_then (w, Inl e) f = (w, Inl e)" "and_then (w, Inr x) f = f x w"
  by (simp_all add: and_then_def)

fun run_send :: "app_send \<Rightarrow> ws \<Rightarrow> ws \<times> unit result" where
  "run_send (Send_message m cb) w = (send_message m cb w, Inr ())"
| "run_send (Send_frame b opcode fin cb) w = (send_frame b opcode fin cb w, Inr ())"
| "run_send (Send_ping m cb) w = ping_ws m cb w"

fun run_sends :: "app_send list \<Rightarrow> ws \<Rightarrow> ws \<times> unit result" where
  "run_sends [] w = (w, Inr ())"
| "run_sends (op # ops) w = and_then (run_send op w) (\<lambda>_. run_sends ops)"

definition null_handler :: fault where
  "null_handler = Undefined ''call through a null WebsocketHandler''"

definition call_on_close :: "ws_app \<Rightarrow> ws \<Rightarrow> ws \<times> unit result" where
  "call_on_close app w =
     (if ws_handler w then run_sends (app_on_close app (ws_trace w)) (emit (Call On_close) w)
      else (w, Inl null_handler))"

definition rm_timers :: "ws \<Rightarrow> ws" where
  "rm_timers w = (if ws_auto_ping w then emit (Loop Rm_timeout_timer) (emit (Loop Rm_ping_timer) w) else w)"

definition close_payload :: "close_code \<Rightarrow> bytes \<Rightarrow> bytes" where
  "close_payload code reason = [ucast (drop_bit 8 (close_number code)), ucast (close_number code)] @ reason"

definition close_ws :: "ws_app \<Rightarrow> close_code \<Rightarrow> any_message \<Rightarrow> ws \<Rightarrow> ws \<times> unit result" where
  "close_ws app code reason w =
     (if length (message_bytes reason) > 125 then (w, Inl close_too_long)
      else and_then (call_on_close app (rm_timers w)) (\<lambda>_ w.
        (send_frame (close_payload code (message_bytes reason)) Op_close True Close_after w, Inr ())))"

fun run_op :: "ws_app \<Rightarrow> app_op \<Rightarrow> ws \<Rightarrow> ws \<times> unit result" where
  "run_op app (App_send op) w = run_send op w"
| "run_op app (App_close code reason) w = close_ws app code reason w"

fun run_ops :: "ws_app \<Rightarrow> app_op list \<Rightarrow> ws \<Rightarrow> ws \<times> unit result" where
  "run_ops app [] w = (w, Inr ())"
| "run_ops app (op # ops) w = and_then (run_op app op w) (\<lambda>_. run_ops app ops)"

definition call_handler :: "ws_app \<Rightarrow> ws_call \<Rightarrow> ws \<Rightarrow> ws \<times> unit result" where
  "call_handler app call w =
     (if ws_handler w then run_ops app (app_on_event app (ws_trace w) call) (emit (Call call) w)
      else (w, Inl null_handler))"

text \<open>\<^verbatim>\<open>WebsocketHandler\<close>: what a handler does that overrides nothing.\<close>

definition default_app :: ws_app where
  "default_app =
     \<lparr>app_on_event = (\<lambda>_ call. case call of On_ping b \<Rightarrow> [App_send (Send_frame b Op_pong True No_callback)] | _ \<Rightarrow> []),
      app_on_close = (\<lambda>_. [])\<rparr>"

section \<open>Receiving\<close>

text \<open>
  One frame at the front of the data: not enough of it, one without a mask, or a whole one with what
  follows it. Only the six bytes of the shortest frame are checked for before the header is read:
  reading the eight bytes of the longest length may leave the view, and \<^verbatim>\<open>substr\<close> throws when the
  mask is not there.
\<close>

definition unmask :: "bytes \<Rightarrow> bytes \<Rightarrow> bytes" where
  "unmask mask_key payload = map (\<lambda>(i, x). x XOR mask_key ! (i mod 4)) (zip [0..<length payload] payload)"

definition payload_length :: "byte \<Rightarrow> bytes \<Rightarrow> (u64 \<times> nat) result" where
  "payload_length len7 b =
     (if len7 = 126 then Inr (push_bit 8 (ucast (b ! 0)) OR ucast (b ! 1), 2)
      else if len7 = 127 then
        (if length b < 8 then Inl (Undefined ''read past the end of the received data'')
         else Inr (fold (\<lambda>i acc. push_bit 8 acc OR ucast (b ! i)) [0, 1, 2, 3, 4, 5, 6, 7] 0, 8))
      else Inr (ucast len7, 0))"

datatype frame_read = Need_more | Not_masked | Frame bool op_code bytes bytes nat

definition read_frame :: "bytes \<Rightarrow> frame_read result" where
  "read_frame bv =
     (if length bv < 6 then Inr Need_more
      else if bv ! 1 AND 0x80 = 0 then Inr Not_masked
      else
        (let fin = (bv ! 0 AND 0x80 \<noteq> 0);
             opcode = op_code_of (bv ! 0 AND 0x0f);
             b = drop 2 bv
         in rbind (payload_length (bv ! 1 AND 0x7f) b) (\<lambda>(payload_len, ext).
           rbind (substr_from b ext) (\<lambda>b.
           rbind (substr_from b 4) (\<lambda>rest.
             let mask_key = take 4 b
             in if length rest < unat payload_len then Inr Need_more
                else
                  Inr (Frame fin opcode (unmask mask_key (take (unat payload_len) rest))
                    (drop (unat payload_len) rest) (2 + ext + 4 + unat payload_len)))))))"

text \<open>What is done with a frame; \<open>True\<close> when the websocket is at its end.\<close>

definition text_of :: "bytes \<Rightarrow> any_message" where
  "text_of b = Text_message (string_of_bytes b)"

definition handle_frame :: "ws_app \<Rightarrow> bool \<Rightarrow> op_code \<Rightarrow> bytes \<Rightarrow> ws \<Rightarrow> ws \<times> bool result" where
  "handle_frame app fin opcode unmasked w =
     (if \<not> fin then
        (if opcode = Op_text \<or> opcode = Op_binary then
           (if ws_frag_buffer w \<noteq> [] then
              and_then (close_ws app Protocol_error (Text_message ''unterminated fragmented message'') w)
                (\<lambda>_ w. (w, Inr True))
            else (w\<lparr>ws_cur_opcode := opcode, ws_frag_buffer := ws_frag_buffer w @ unmasked\<rparr>, Inr False))
         else (w\<lparr>ws_frag_buffer := ws_frag_buffer w @ unmasked\<rparr>, Inr False))
      else
        (case opcode of
           Op_continuation \<Rightarrow>
             (let w = w\<lparr>ws_frag_buffer := ws_frag_buffer w @ unmasked\<rparr>;
                  message = (if ws_cur_opcode w = Op_text then text_of (ws_frag_buffer w)
                             else Bin_message (ws_frag_buffer w))
              in and_then (call_handler app (On_message message) w)
                   (\<lambda>_ w. (w\<lparr>ws_frag_buffer := []\<rparr>, Inr False)))
         | Op_text \<Rightarrow> and_then (call_handler app (On_message (text_of unmasked)) w) (\<lambda>_ w. (w, Inr False))
         | Op_binary \<Rightarrow> and_then (call_handler app (On_message (Bin_message unmasked)) w) (\<lambda>_ w. (w, Inr False))
         | Op_close \<Rightarrow>
             and_then (close_ws app Normal (Text_message ''thx goodbye'') w) (\<lambda>_ w. (w, Inr True))
         | Op_ping \<Rightarrow> and_then (call_handler app (On_ping unmasked) w) (\<lambda>_ w. (w, Inr False))
         | Op_pong \<Rightarrow>
             and_then (call_handler app (On_pong unmasked)
                 (if ws_auto_ping w then emit (Loop Cancel_timeout) w else w)) (\<lambda>_ w. (w, Inr False))
         | Op_other b \<Rightarrow> (w, Inr False)))"

lemma read_frame_shorter:
  "read_frame bv = Inr (Frame fin opcode payload rest n) \<Longrightarrow> length rest < length bv \<and> n + length rest = length bv"
  by (auto simp: read_frame_def Let_def substr_from_def rbind_eq_Inr_iff split: if_splits)

text \<open>\<^verbatim>\<open>onDataReceived\<close>: the bytes consumed and the change of protocol.\<close>

function on_data_loop :: "ws_app \<Rightarrow> bytes \<Rightarrow> int \<Rightarrow> ws \<Rightarrow> ws \<times> (int \<times> ws option option) result" where
  "on_data_loop app bv consumed w =
     (case read_frame bv of
        Inl e \<Rightarrow> (w, Inl e)
      | Inr Need_more \<Rightarrow> (w, Inr (consumed, None))
      | Inr Not_masked \<Rightarrow>
          and_then (close_ws app Protocol_error (Text_message ''received unmasked message'') w)
            (\<lambda>_ w. (w, Inr (consumed, Some None)))
      | Inr (Frame fin opcode unmasked rest n) \<Rightarrow>
          and_then (handle_frame app fin opcode unmasked w)
            (\<lambda>stop w. let consumed = to_int32 (consumed + int n)
                     in if stop then (w, Inr (consumed, Some None)) else on_data_loop app rest consumed w))"
  by pat_completeness auto
termination
  by (relation "measure (\<lambda>(app, bv, consumed, w). length bv)") (auto dest: read_frame_shorter)

declare on_data_loop.simps [simp del]

definition onDataReceived :: "ws_app \<Rightarrow> bytes \<Rightarrow> ws \<Rightarrow> ws \<times> (int \<times> ws option option) result" where
  "onDataReceived app received w = on_data_loop app received 0 w"

definition onPeerClose :: "ws_app \<Rightarrow> ws \<Rightarrow> ws \<times> unit result" where
  "onPeerClose app w = and_then (call_on_close app w) (\<lambda>_ w. (rm_timers w, Inr ()))"

section \<open>Auto ping\<close>

definition setAutoPing :: "int \<Rightarrow> ws \<Rightarrow> ws" where
  "setAutoPing ping_interval w =
     emit (Loop Add_ping_timer) (emit (Loop Add_timeout_timer) (emit (Loop (Start_ping_timer ping_interval))
       ((rm_timers w)\<lparr>ws_auto_ping := True\<rparr>)))"

definition on_ping_timer :: "int \<Rightarrow> ws \<Rightarrow> ws \<times> unit result" where
  "on_ping_timer timeout w =
     and_then (ping_ws (Text_message ''ping?'') (Reset_timeout timeout) w)
       (\<lambda>_ w. (emit (Loop Clear_ping_timer) w, Inr ()))"

definition on_timeout_timer :: "ws_app \<Rightarrow> ws \<Rightarrow> ws \<times> unit result" where
  "on_timeout_timer app w = close_ws app Normal (Text_message ''ping timeout'') w"

section \<open>The frames of RFC 6455\<close>

text \<open>The length field (seven bits and the bytes that follow them), a frame of a server, and a
  frame of a client, which is masked.\<close>

definition length_field :: "nat \<Rightarrow> byte \<times> bytes" where
  "length_field n =
     (if n \<le> 125 then (word_of_nat n, [])
      else if n \<le> 0xffff then (126, [word_of_nat (n div 256), word_of_nat n])
      else (127, map (\<lambda>i. word_of_nat (n div 256 ^ i)) [7, 6, 5, 4, 3, 2, 1, 0]))"

definition first_byte :: "bool \<Rightarrow> op_code \<Rightarrow> byte" where
  "first_byte fin opcode = byte_of_op opcode OR (if fin then 0x80 else 0)"

definition server_frame :: "bool \<Rightarrow> op_code \<Rightarrow> bytes \<Rightarrow> bytes" where
  "server_frame fin opcode payload =
     first_byte fin opcode # fst (length_field (length payload)) # snd (length_field (length payload)) @ payload"

definition client_frame :: "bytes \<Rightarrow> bool \<Rightarrow> op_code \<Rightarrow> bytes \<Rightarrow> bytes" where
  "client_frame mask_key fin opcode payload =
     first_byte fin opcode # (fst (length_field (length payload)) OR 0x80) # snd (length_field (length payload))
     @ mask_key @ unmask mask_key payload"

fun standard_op :: "op_code \<Rightarrow> bool" where
  "standard_op (Op_other b) \<longleftrightarrow> False"
| "standard_op _ \<longleftrightarrow> True"

lemma unat_drop_length: "n < 2 ^ 64 \<Longrightarrow> unat (drop_bit k (word_of_nat n :: u64)) = n div 2 ^ k"
  by (simp only: unsigned_drop_bit_eq) (simp add: unsigned_of_nat take_bit_nat_eq_self drop_bit_eq_div)

lemma byte_of_length:
  assumes "n < 2 ^ 64"
  shows "(word_of_nat (n div 256 ^ i) :: byte) = ucast (drop_bit (i * 8) (word_of_nat n :: u64))"
proof -
  have "n div 256 ^ i = n div 2 ^ (i * 8)"
    by (simp add: power_mult mult.commute [of i])
  then have "unat (drop_bit (i * 8) (word_of_nat n :: u64)) = n div 256 ^ i"
    using assms by (simp only: unat_drop_length)
  then show ?thesis
    by (simp only: word_unat_eq_iff unsigned_ucast_eq unsigned_of_nat) simp
qed

lemma join_byte:
  "push_bit 8 (drop_bit (n + 8) pl) OR ucast (ucast (drop_bit n pl) :: byte) = drop_bit n (pl :: u64)"
proof (rule bit_word_eqI)
  fix k
  assume "k < LENGTH(64)"
  then show "bit (push_bit 8 (drop_bit (n + 8) pl) OR ucast (ucast (drop_bit n pl) :: byte)) k = bit (drop_bit n pl) k"
    by (cases "k < 8") (auto simp: bit_simps)
qed

lemma serialize_frame_eq:
  assumes "length payload < 2 ^ 64"
  shows "serialize_frame payload opcode fin = server_frame fin opcode payload"
proof -
  let ?n = "length payload" and ?pl = "word_of_nat (length payload) :: u64"
  have "?pl \<le> 125 \<longleftrightarrow> ?n \<le> 125"
    using assms by (simp add: word_le_nat_alt unsigned_of_nat take_bit_nat_eq_self)
  moreover have "ucast ?pl = (word_of_nat ?n :: byte)"
    using byte_of_length [OF assms, of 0] by simp
  moreover have "ucast (drop_bit 8 ?pl) = (word_of_nat (?n div 256) :: byte)"
    using byte_of_length [OF assms, of 1] by simp
  ultimately show ?thesis
    using byte_of_length [OF assms, of 7] byte_of_length [OF assms, of 6] byte_of_length [OF assms, of 5]
      byte_of_length [OF assms, of 4] byte_of_length [OF assms, of 3] byte_of_length [OF assms, of 2]
    by (simp add: serialize_frame_def server_frame_def length_field_def first_byte_def Let_def)
qed

lemma payload_length_field:
  assumes "n < 2 ^ 64"
  shows "payload_length (fst (length_field n)) (snd (length_field n) @ rest) =
    Inr (word_of_nat n, length (snd (length_field n)))"
proof -
  let ?pl = "word_of_nat n :: u64"
  have pl: "unat ?pl = n"
    using assms by (simp add: unsigned_of_nat take_bit_nat_eq_self)
  consider "n \<le> 125" | "125 < n" "n \<le> 0xffff" | "0xffff < n"
    by linarith
  then show ?thesis
  proof cases
    case 1
    then have "(word_of_nat n :: byte) \<noteq> 126" "(word_of_nat n :: byte) \<noteq> 127"
      "ucast (word_of_nat n :: byte) = ?pl"
      by (auto simp: word_unat_eq_iff unsigned_of_nat take_bit_nat_eq_self unsigned_ucast_eq)
    with 1 show ?thesis
      by (simp add: payload_length_def length_field_def)
  next
    case 2
    have "drop_bit 16 ?pl = 0"
      using 2 unat_drop_length [OF assms, of 16] by (simp only: unat_eq_0 [symmetric]) simp
    then have "ucast (ucast (drop_bit 8 ?pl) :: byte) = drop_bit 8 ?pl"
      using join_byte [of 8 ?pl] by simp
    with 2 join_byte [of 0 ?pl] byte_of_length [OF assms, of 0] byte_of_length [OF assms, of 1] show ?thesis
      by (simp add: payload_length_def length_field_def)
  next
    case 3
    have "drop_bit 64 ?pl = 0"
      using assms unat_drop_length [OF assms, of 64] by (simp only: unat_eq_0 [symmetric]) simp
    with 3 show ?thesis
      using join_byte [of 56 ?pl] join_byte [of 48 ?pl] join_byte [of 40 ?pl] join_byte [of 32 ?pl]
        join_byte [of 24 ?pl] join_byte [of 16 ?pl] join_byte [of 8 ?pl] join_byte [of 0 ?pl]
      by (simp add: payload_length_def length_field_def byte_of_length [OF assms])
  qed
qed

lemma length_unmask [simp]: "length (unmask key payload) = length payload"
  by (simp add: unmask_def)

lemma unmask_unmask [simp]: "unmask key (unmask key payload) = payload"
  by (rule nth_equalityI) (simp_all add: unmask_def xor.assoc)

lemma first_byte_fin: "standard_op opcode \<Longrightarrow> first_byte fin opcode AND 0x80 = 0 \<longleftrightarrow> \<not> fin"
  by (cases opcode) (simp_all add: first_byte_def)

lemma first_byte_op: "standard_op opcode \<Longrightarrow> op_code_of (first_byte fin opcode AND 0x0f) = opcode"
  by (cases opcode) (simp_all add: first_byte_def op_code_of_def)

lemma masked_low:
  fixes b :: byte
  assumes "unat b < 128"
  shows "(b OR 0x80) AND 0x7f = b" and "(b OR 0x80) AND 0x80 \<noteq> 0"
proof -
  have "take_bit 7 b = b"
    using assms by (simp add: word_unat_eq_iff unsigned_take_bit_eq take_bit_nat_eq_self)
  then have "b AND 0x7f = b"
    by (simp add: take_bit_eq_mask mask_eq_exp_minus_1)
  then show "(b OR 0x80) AND 0x7f = b"
    by (simp add: bit.conj_disj_distrib2)
  have high: "bit ((b OR 0x80) AND 0x80) 7"
    by (simp add: bit_simps)
  show "(b OR 0x80) AND 0x80 \<noteq> 0"
  proof
    assume "(b OR 0x80) AND 0x80 = 0"
    with high have "bit (0 :: byte) 7"
      by (simp only:)
    then show False by simp
  qed
qed

lemma length_field_low: "unat (fst (length_field n)) < 128"
  by (simp add: length_field_def unsigned_of_nat take_bit_nat_eq_self)

text \<open>The header of a client's frame, whatever part of the frame follows it.\<close>

lemma read_frame_header:
  assumes "standard_op opcode" and "4 \<le> length tail"
  shows "read_frame (first_byte fin opcode # (fst (length_field n) OR 0x80) # tail) =
    rbind (payload_length (fst (length_field n)) tail) (\<lambda>(payload_len, ext).
     rbind (substr_from tail ext) (\<lambda>b.
     rbind (substr_from b 4) (\<lambda>rest.
       if length rest < unat payload_len then Inr Need_more
       else Inr (Frame fin opcode (unmask (take 4 b) (take (unat payload_len) rest))
              (drop (unat payload_len) rest) (2 + ext + 4 + unat payload_len)))))"
  using assms(2) length_field_low [of n]
  by (simp add: read_frame_def masked_low first_byte_fin [OF assms(1)] first_byte_op [OF assms(1)] Let_def)

lemma read_frame_client:
  assumes "length mask_key = 4" and "standard_op opcode" and "length payload < 2 ^ 64"
  shows "read_frame (client_frame mask_key fin opcode payload @ rest) =
    Inr (Frame fin opcode payload rest (length (client_frame mask_key fin opcode payload)))"
proof -
  let ?lf = "length_field (length payload)"
  let ?tail = "snd ?lf @ mask_key @ unmask mask_key payload @ rest"
  have "client_frame mask_key fin opcode payload @ rest = first_byte fin opcode # (fst ?lf OR 0x80) # ?tail"
    by (simp add: client_frame_def)
  moreover have "unat (word_of_nat (length payload) :: u64) = length payload"
    using assms(3) by (simp add: unsigned_of_nat take_bit_nat_eq_self)
  ultimately show ?thesis
    using read_frame_header [OF assms(2), of ?tail fin] payload_length_field [OF assms(3)] assms(1)
    by (simp add: substr_from_def client_frame_def)
qed

section \<open>A frame that is not complete yet\<close>

lemma length_client_frame:
  "length mask_key = 4 \<Longrightarrow>
   length (client_frame mask_key fin opcode payload) = 6 + length (snd (length_field (length payload))) + length payload"
  by (simp add: client_frame_def)

lemma length_snd_length_field:
  "length (snd (length_field n)) = (if n \<le> 125 then 0 else if n \<le> 0xffff then 2 else 8)"
  by (simp add: length_field_def)

lemma read_frame_cut_payload:
  assumes "length mask_key = 4" and "standard_op opcode" and "length payload < 2 ^ 64"
    and "6 \<le> k" and "2 + length (snd (length_field (length payload))) \<le> k"
    and "k < length (client_frame mask_key fin opcode payload)"
  shows "read_frame (take k (client_frame mask_key fin opcode payload)) =
    (if k < 6 + length (snd (length_field (length payload))) then Inl out_of_range else Inr Need_more)"
proof -
  let ?lf = "length_field (length payload)"
  let ?tail = "snd ?lf @ take (k - 2 - length (snd ?lf)) (mask_key @ unmask mask_key payload)"
  have tail: "take k (client_frame mask_key fin opcode payload) = first_byte fin opcode # (fst ?lf OR 0x80) # ?tail"
    using assms(4,5) by (auto simp: client_frame_def take_Cons' min_def)
  have pl: "unat (word_of_nat (length payload) :: u64) = length payload"
    using assms(3) by (simp add: unsigned_of_nat take_bit_nat_eq_self)
  have cut: "length (take (k - 2 - length (snd ?lf)) (mask_key @ unmask mask_key payload)) = k - 2 - length (snd ?lf)"
  proof -
    have "k - 2 - length (snd ?lf) \<le> 4 + length payload"
      using assms(6) length_client_frame [OF assms(1), of fin opcode payload] by linarith
    then show ?thesis
      using assms(1) by simp
  qed
  have "4 \<le> length ?tail"
    using cut assms(4,5) by simp
  moreover have "substr_from ?tail (length (snd ?lf)) =
      Inr (take (k - 2 - length (snd ?lf)) (mask_key @ unmask mask_key payload))"
    by (simp add: substr_from_def)
  moreover have "substr_from (take (k - 2 - length (snd ?lf)) (mask_key @ unmask mask_key payload)) 4 =
      (if k < 6 + length (snd ?lf) then Inl out_of_range
       else Inr (drop 4 (take (k - 2 - length (snd ?lf)) (mask_key @ unmask mask_key payload))))"
    using cut assms(5) by (auto simp: substr_from_def)
  moreover have "length (drop 4 (take (k - 2 - length (snd ?lf)) (mask_key @ unmask mask_key payload))) < length payload"
    if "\<not> k < 6 + length (snd ?lf)"
    using that cut assms(6) by (simp only: length_drop length_client_frame [OF assms(1)])
  ultimately show ?thesis
    using read_frame_header [OF assms(2), of ?tail fin "length payload"] payload_length_field [OF assms(3)] pl
    by (cases "k < 6 + length (snd ?lf)")
      (simp_all only: tail rbind_Inr rbind_Inl prod.case if_True if_False simp_thms)
qed

text \<open>The longest length is read though its bytes are not there.\<close>

lemma read_frame_cut_length:
  assumes "length mask_key = 4" and "standard_op opcode" and "0xffff < length payload"
    and "6 \<le> k" and "k < 10"
  shows "read_frame (take k (client_frame mask_key fin opcode payload)) =
    Inl (Undefined ''read past the end of the received data'')"
proof -
  let ?lf = "length_field (length payload)"
  let ?tail = "take (k - 2) (snd ?lf @ mask_key @ unmask mask_key payload)"
  have tail: "take k (client_frame mask_key fin opcode payload) = first_byte fin opcode # (fst ?lf OR 0x80) # ?tail"
  proof -
    from assms(4) have "Suc (Suc (k - 2)) = k"
      by simp
    then show ?thesis
      by (metis append_Cons client_frame_def take_Suc_Cons)
  qed
  have "length ?tail = k - 2" "fst ?lf = 127"
    using assms(3,5) by (simp_all add: length_field_def)
  then have "4 \<le> length ?tail" and "payload_length (fst ?lf) ?tail = Inl (Undefined ''read past the end of the received data'')"
    using assms(4,5) unfolding payload_length_def by (simp_all only:) simp_all
  then show ?thesis
    using read_frame_header [OF assms(2), of ?tail fin "length payload"] by (simp only: tail rbind_Inl)
qed

lemma read_frame_short: "length bv < 6 \<Longrightarrow> read_frame bv = Inr Need_more"
  by (simp add: read_frame_def)

lemma read_frame_cut:
  assumes "length mask_key = 4" and "standard_op opcode" and "length payload < 2 ^ 64"
    and "k < length (client_frame mask_key fin opcode payload)"
  shows "read_frame (take k (client_frame mask_key fin opcode payload)) =
    (if k < 6 \<or> length payload \<le> 125 then Inr Need_more
     else if length payload \<le> 0xffff then if k < 8 then Inl out_of_range else Inr Need_more
     else if k < 10 then Inl (Undefined ''read past the end of the received data'')
     else if k < 14 then Inl out_of_range else Inr Need_more)"
proof (cases "k < 6")
  case True
  then show ?thesis
    by (simp add: read_frame_short)
next
  case False
  then show ?thesis
    using read_frame_cut_payload [OF assms(1-3) _ _ assms(4)] read_frame_cut_length [OF assms(1,2)]
    by (cases "0xffff < length payload \<and> k < 10") (auto simp: length_snd_length_field)
qed

section \<open>The calls of the application\<close>

fun calls_of :: "ws_out list \<Rightarrow> ws_call list" where
  "calls_of [] = []"
| "calls_of (Call c # outs) = c # calls_of outs"
| "calls_of (_ # outs) = calls_of outs"

lemma calls_of_append [simp]: "calls_of (xs @ ys) = calls_of xs @ calls_of ys"
  by (induction xs rule: calls_of.induct) simp_all

text \<open>An application that only sends, and no ping that is too long.\<close>

fun send_fits :: "app_send \<Rightarrow> bool" where
  "send_fits (Send_ping m cb) \<longleftrightarrow> length (message_bytes m) \<le> 125"
| "send_fits _ \<longleftrightarrow> True"

fun only_sends :: "app_op \<Rightarrow> bool" where
  "only_sends (App_send s) \<longleftrightarrow> send_fits s"
| "only_sends (App_close code reason) \<longleftrightarrow> False"

definition polite :: "ws_app \<Rightarrow> bool" where
  "polite app \<longleftrightarrow> (\<forall>hist call. list_all only_sends (app_on_event app hist call)) \<and>
     (\<forall>hist. list_all send_fits (app_on_close app hist))"

text \<open>\<open>same_state\<close>: two states that differ in their trace only.\<close>

definition same_state :: "ws \<Rightarrow> ws \<Rightarrow> bool" where
  "same_state w w' \<longleftrightarrow> w' = w\<lparr>ws_trace := ws_trace w'\<rparr>"

lemma same_state_refl [simp]: "same_state w w"
  by (simp add: same_state_def)

lemma same_state_trans: "same_state w w' \<Longrightarrow> same_state w' w'' \<Longrightarrow> same_state w w''"
  by (simp add: same_state_def) (metis ws.surjective ws.update_convs(5))

lemma same_state_emit [simp]: "same_state w (emit out w)"
  by (simp add: same_state_def emit_def)

lemma run_send_fits:
  "send_fits op \<Longrightarrow> \<exists>w'. run_send op w = (w', Inr ()) \<and> same_state w w' \<and>
    calls_of (ws_trace w') = calls_of (ws_trace w)"
proof (induction op w rule: run_send.induct)
  case (1 m cb w)
  then show ?case
    by (cases m) (auto simp: send_frame_def emit_def same_state_def)
qed (auto simp: ping_ws_def send_frame_def emit_def same_state_def)

lemma run_op_polite:
  "only_sends op \<Longrightarrow> \<exists>w'. run_op app op w = (w', Inr ()) \<and> same_state w w' \<and>
    calls_of (ws_trace w') = calls_of (ws_trace w)"
  by (cases op) (simp_all add: run_send_fits)

lemma run_ops_polite:
  "list_all only_sends ops \<Longrightarrow> \<exists>w'. run_ops app ops w = (w', Inr ()) \<and> same_state w w' \<and>
    calls_of (ws_trace w') = calls_of (ws_trace w)"
proof (induction ops arbitrary: w)
  case (Cons op ops)
  from run_op_polite [of op app w] Cons.prems obtain w1 where
    1: "run_op app op w = (w1, Inr ())" "same_state w w1" "calls_of (ws_trace w1) = calls_of (ws_trace w)"
    by auto
  from Cons.IH [of w1] Cons.prems obtain w2 where
    "run_ops app ops w1 = (w2, Inr ())" "same_state w1 w2" "calls_of (ws_trace w2) = calls_of (ws_trace w1)"
    by auto
  with 1 show ?case
    by (auto intro: same_state_trans)
qed simp

lemma call_handler_polite:
  assumes "polite app" and "ws_handler w"
  shows "\<exists>w'. call_handler app call w = (w', Inr ()) \<and> same_state w w' \<and>
    calls_of (ws_trace w') = calls_of (ws_trace w) @ [call]"
proof -
  have "list_all only_sends (app_on_event app (ws_trace w) call)"
    using assms(1) by (simp add: polite_def)
  from run_ops_polite [OF this, of app "emit (Call call) w"] obtain w' where
    "run_ops app (app_on_event app (ws_trace w) call) (emit (Call call) w) = (w', Inr ())"
    "same_state (emit (Call call) w) w'" "calls_of (ws_trace w') = calls_of (ws_trace (emit (Call call) w))"
    by blast
  moreover have "calls_of (ws_trace (emit (Call call) w)) = calls_of (ws_trace w) @ [call]"
    by (simp add: emit_def)
  ultimately show ?thesis
    using assms(2) same_state_trans [OF same_state_emit] by (auto simp: call_handler_def)
qed

section \<open>Messages\<close>

text \<open>
  What a client may send: a message in one or more fragments, with pings and pongs before each
  further fragment, or a ping or pong between messages.
\<close>

type_synonym frame = "bool \<times> op_code \<times> bytes"

datatype control = Ping_frame bytes | Pong_frame bytes

datatype item = Message bool bytes "(control list \<times> bytes) list" | Control control

fun control_frame :: "control \<Rightarrow> frame" where
  "control_frame (Ping_frame b) = (True, Op_ping, b)"
| "control_frame (Pong_frame b) = (True, Op_pong, b)"

fun control_call :: "control \<Rightarrow> ws_call" where
  "control_call (Ping_frame b) = On_ping b"
| "control_call (Pong_frame b) = On_pong b"

fun more_fragments :: "(control list \<times> bytes) list \<Rightarrow> frame list" where
  "more_fragments [] = []"
| "more_fragments ((cs, q) # frags) =
     map control_frame cs @ [(frags = [], Op_continuation, q)] @ more_fragments frags"

definition data_op :: "bool \<Rightarrow> op_code" where
  "data_op is_text = (if is_text then Op_text else Op_binary)"

definition message_of :: "bool \<Rightarrow> bytes \<Rightarrow> any_message" where
  "message_of is_text b = (if is_text then text_of b else Bin_message b)"

fun frames_of :: "item \<Rightarrow> frame list" where
  "frames_of (Message is_text p frags) = (frags = [], data_op is_text, p) # more_fragments frags"
| "frames_of (Control c) = [control_frame c]"

fun item_calls :: "item \<Rightarrow> ws_call list" where
  "item_calls (Message is_text p frags) =
     concat (map (\<lambda>(cs, q). map control_call cs) frags) @
     [On_message (message_of is_text (p @ concat (map snd frags)))]"
| "item_calls (Control c) = [control_call c]"

fun handle_frames :: "ws_app \<Rightarrow> frame list \<Rightarrow> ws \<Rightarrow> ws \<times> bool result" where
  "handle_frames app [] w = (w, Inr False)"
| "handle_frames app ((fin, opcode, p) # fs) w =
     and_then (handle_frame app fin opcode p w)
       (\<lambda>stop w. if stop then (w, Inr True) else handle_frames app fs w)"

lemma handle_frames_append:
  "handle_frames app fs w = (w', Inr False) \<Longrightarrow>
   handle_frames app (fs @ gs) w = handle_frames app gs w'"
proof (induction app fs w rule: handle_frames.induct)
  case (2 app fin opcode p fs w)
  then show ?case
    by (cases "handle_frame app fin opcode p w"; cases "snd (handle_frame app fin opcode p w)")
      (auto split: if_splits)
qed simp

lemma handle_control:
  assumes "polite app" and "ws_handler w"
  shows "\<exists>w'. handle_frames app [control_frame c] w = (w', Inr False) \<and> same_state w w' \<and>
    calls_of (ws_trace w') = calls_of (ws_trace w) @ [control_call c]"
proof (cases c)
  case (Ping_frame b)
  with call_handler_polite [OF assms, of "On_ping b"] show ?thesis
    by (auto simp: handle_frame_def)
next
  case (Pong_frame b)
  let ?w = "if ws_auto_ping w then emit (Loop Cancel_timeout) w else w"
  have "same_state w ?w" "calls_of (ws_trace ?w) = calls_of (ws_trace w)" "ws_handler ?w"
    using assms(2) by (simp_all add: emit_def same_state_def)
  with call_handler_polite [OF assms(1), of ?w "On_pong b"] Pong_frame show ?thesis
    by (auto simp: handle_frame_def intro: same_state_trans)
qed

lemma same_stateD:
  "same_state w w' \<Longrightarrow> ws_handler w' = ws_handler w \<and> ws_frag_buffer w' = ws_frag_buffer w \<and>
    ws_cur_opcode w' = ws_cur_opcode w \<and> ws_auto_ping w' = ws_auto_ping w"
  unfolding same_state_def by (metis ws.select_convs(1-4) ws.surjective ws.update_convs(5))

lemma handle_controls:
  assumes "polite app" and "ws_handler w"
  shows "\<exists>w'. handle_frames app (map control_frame cs) w = (w', Inr False) \<and> same_state w w' \<and>
    calls_of (ws_trace w') = calls_of (ws_trace w) @ map control_call cs"
  using assms(2)
proof (induction cs arbitrary: w)
  case (Cons c cs)
  from handle_control [OF assms(1) Cons.prems, of c] obtain w1 where
    1: "handle_frames app [control_frame c] w = (w1, Inr False)" "same_state w w1"
      "calls_of (ws_trace w1) = calls_of (ws_trace w) @ [control_call c]"
    by blast
  with Cons.prems have "ws_handler w1"
    by (simp add: same_stateD)
  from Cons.IH [OF this] 1 handle_frames_append [OF 1(1), of "map control_frame cs"] show ?case
    by (auto intro: same_state_trans)
qed simp

lemma handle_continuation:
  assumes "polite app" and "ws_handler w"
  shows "\<exists>w'. handle_frames app [(True, Op_continuation, q)] w = (w', Inr False) \<and> ws_handler w' \<and>
    ws_frag_buffer w' = [] \<and> calls_of (ws_trace w') = calls_of (ws_trace w) @
      [On_message (if ws_cur_opcode w = Op_text then text_of (ws_frag_buffer w @ q)
         else Bin_message (ws_frag_buffer w @ q))]"
proof -
  let ?w = "w\<lparr>ws_frag_buffer := ws_frag_buffer w @ q\<rparr>"
  let ?call = "On_message (if ws_cur_opcode w = Op_text then text_of (ws_frag_buffer w @ q)
      else Bin_message (ws_frag_buffer w @ q))"
  from call_handler_polite [OF assms(1), of ?w ?call] assms(2) obtain w' where
    "call_handler app ?call ?w = (w', Inr ())" "same_state ?w w'"
    "calls_of (ws_trace w') = calls_of (ws_trace w) @ [?call]"
    by auto
  with assms(2) show ?thesis
    by (auto simp: handle_frame_def Let_def dest: same_stateD split: if_splits)
qed

lemma handle_more_fragments:
  assumes "polite app" and "ws_handler w" and "ws_cur_opcode w = data_op is_text" and "frags \<noteq> []"
  shows "\<exists>w'. handle_frames app (more_fragments frags) w = (w', Inr False) \<and> ws_handler w' \<and>
    ws_frag_buffer w' = [] \<and> calls_of (ws_trace w') = calls_of (ws_trace w) @
      concat (map (\<lambda>(cs, q). map control_call cs) frags) @
      [On_message (message_of is_text (ws_frag_buffer w @ concat (map snd frags)))]"
  using assms(2-4)
proof (induction frags arbitrary: w)
  case (Cons csq frags)
  obtain cs q where csq: "csq = (cs, q)"
    by (cases csq)
  from handle_controls [OF assms(1) Cons.prems(1), of cs] obtain w1 where
    1: "handle_frames app (map control_frame cs) w = (w1, Inr False)" "same_state w w1"
      "calls_of (ws_trace w1) = calls_of (ws_trace w) @ map control_call cs"
    by blast
  have w1: "ws_handler w1" "ws_cur_opcode w1 = data_op is_text" "ws_frag_buffer w1 = ws_frag_buffer w"
    using same_stateD [OF 1(2)] Cons.prems by simp_all
  show ?case
  proof (cases "frags = []")
    case True
    with handle_continuation [OF assms(1) w1(1), of q] handle_frames_append [OF 1(1)] 1(3) w1 csq show ?thesis
      by (auto simp: message_of_def data_op_def split: if_splits)
  next
    case False
    let ?w = "w1\<lparr>ws_frag_buffer := ws_frag_buffer w1 @ q\<rparr>"
    have "handle_frames app (more_fragments (csq # frags)) w = handle_frames app (more_fragments frags) ?w"
      using False by (simp add: csq handle_frames_append [OF 1(1)] handle_frame_def)
    with Cons.IH [of ?w] w1 False 1(3) csq show ?thesis
      by auto
  qed
qed simp

lemma handle_item:
  assumes "polite app" and "ws_handler w" and "ws_frag_buffer w = []"
  shows "\<exists>w'. handle_frames app (frames_of item) w = (w', Inr False) \<and> ws_handler w' \<and>
    ws_frag_buffer w' = [] \<and> calls_of (ws_trace w') = calls_of (ws_trace w) @ item_calls item"
proof (cases item)
  case (Control c)
  with handle_control [OF assms(1,2), of c] assms(2,3) show ?thesis
    by (auto dest: same_stateD)
next
  case (Message is_text p frags)
  show ?thesis
  proof (cases "frags = []")
    case True
    with call_handler_polite [OF assms(1,2), of "On_message (message_of is_text p)"] Message assms(2,3) show ?thesis
      by (auto simp: handle_frame_def data_op_def message_of_def dest: same_stateD)
  next
    case False
    let ?w = "w\<lparr>ws_cur_opcode := data_op is_text, ws_frag_buffer := p\<rparr>"
    have "handle_frames app (frames_of item) w = handle_frames app (more_fragments frags) ?w"
      using False assms(3) Message by (simp add: handle_frame_def data_op_def)
    with handle_more_fragments [OF assms(1), of ?w is_text frags] False assms(2) Message show ?thesis
      by auto
  qed
qed

lemma handle_items:
  assumes "polite app" and "ws_handler w" and "ws_frag_buffer w = []"
  shows "\<exists>w'. handle_frames app (concat (map frames_of items)) w = (w', Inr False) \<and> ws_handler w' \<and>
    ws_frag_buffer w' = [] \<and> calls_of (ws_trace w') = calls_of (ws_trace w) @ concat (map item_calls items)"
  using assms(2,3)
proof (induction items arbitrary: w)
  case (Cons item items)
  from handle_item [OF assms(1) Cons.prems, of item] obtain w1 where
    1: "handle_frames app (frames_of item) w = (w1, Inr False)" "ws_handler w1" "ws_frag_buffer w1 = []"
      "calls_of (ws_trace w1) = calls_of (ws_trace w) @ item_calls item"
    by blast
  from Cons.IH [OF 1(2,3)] 1(4) handle_frames_append [OF 1(1)] show ?case
    by auto
qed simp

section \<open>The data of many frames\<close>

definition frame_bytes :: "bytes \<times> frame \<Rightarrow> bytes" where
  "frame_bytes mf = (case mf of (mask_key, fin, opcode, p) \<Rightarrow> client_frame mask_key fin opcode p)"

definition good_frame :: "bytes \<times> frame \<Rightarrow> bool" where
  "good_frame mf = (case mf of (mask_key, fin, opcode, p) \<Rightarrow> length mask_key = 4 \<and> standard_op opcode)"

lemma on_data_frames:
  assumes "\<forall>mf \<in> set mfs. good_frame mf" and "handle_frames app (map snd mfs) w = (w', Inr False)"
    and "0 \<le> consumed" and "consumed + int (length (concat (map frame_bytes mfs))) < 2 ^ 31"
  shows "on_data_loop app (concat (map frame_bytes mfs) @ bv) consumed w =
    on_data_loop app bv (consumed + int (length (concat (map frame_bytes mfs)))) w'"
  using assms
proof (induction mfs arbitrary: consumed w)
  case (Cons mf mfs)
  obtain mask_key fin opcode p where mf: "mf = (mask_key, fin, opcode, p)"
    by (cases mf)
  let ?f = "client_frame mask_key fin opcode p"
  from Cons.prems(2) mf obtain w1 where
    1: "handle_frame app fin opcode p w = (w1, Inr False)" "handle_frames app (map snd mfs) w1 = (w', Inr False)"
    by (auto simp: and_then_def split: prod.splits sum.splits if_splits)
  have good: "length mask_key = 4" "standard_op opcode"
    using Cons.prems(1) mf by (simp_all add: good_frame_def)
  have small: "length p < 2 ^ 64"
    using Cons.prems(3,4) mf length_client_frame [OF good(1), of fin opcode p] by (simp add: frame_bytes_def)
  have "to_int32 (consumed + int (length ?f)) = consumed + int (length ?f)"
    using Cons.prems(3,4) mf by (intro to_int32_id) (simp_all add: frame_bytes_def)
  then have "on_data_loop app (?f @ concat (map frame_bytes mfs) @ bv) consumed w =
      on_data_loop app (concat (map frame_bytes mfs) @ bv) (consumed + int (length ?f)) w1"
    by (simp add: on_data_loop.simps [of app "?f @ rest" for rest] read_frame_client [OF good small] 1(1))
  moreover have "on_data_loop app (concat (map frame_bytes mfs) @ bv) (consumed + int (length ?f)) w1 =
      on_data_loop app bv (consumed + int (length ?f) + int (length (concat (map frame_bytes mfs)))) w'"
    using Cons.prems mf 1(2) by (intro Cons.IH) (simp_all add: frame_bytes_def)
  moreover have "frame_bytes mf = ?f"
    by (simp add: mf frame_bytes_def)
  ultimately show ?case
    by (simp add: add.assoc)
qed simp

lemma on_data_bounds:
  assumes "on_data_loop app bv consumed w = (w', Inr (n, change))"
    and "0 \<le> consumed" and "consumed + int (length bv) < 2 ^ 31"
  shows "consumed \<le> n \<and> n \<le> consumed + int (length bv)"
  using assms
proof (induction app bv consumed w rule: on_data_loop.induct)
  case (1 app bv consumed w)
  show ?case
  proof (cases "read_frame bv")
    case (Inr r)
    show ?thesis
    proof (cases r)
      case (Frame fin opcode payload rest k)
      note shorter = read_frame_shorter [OF Inr [unfolded Frame]]
      have id: "to_int32 (consumed + int k) = consumed + int k"
        using 1(3,4) shorter by (intro to_int32_id) auto
      obtain w1 stop where step: "handle_frame app fin opcode payload w = (w1, Inr stop)"
        using 1(2) Inr Frame
        by (cases "handle_frame app fin opcode payload w"; cases "snd (handle_frame app fin opcode payload w)")
          (auto simp: on_data_loop.simps [of app bv])
      show ?thesis
      proof (cases stop)
        case True
        with 1(2,3) Inr Frame step id shorter show ?thesis
          by (auto simp: on_data_loop.simps [of app bv])
      next
        case False
        with 1(2) Inr Frame step id have "on_data_loop app rest (consumed + int k) w1 = (w', Inr (n, change))"
          by (simp add: on_data_loop.simps [of app bv])
        with 1(1) [OF Inr Frame, of "consumed + int k" stop w1] False id 1(3,4) shorter show ?thesis
          by auto
      qed
    qed (use 1(2,3) Inr in \<open>auto simp: on_data_loop.simps [of app bv] and_then_def split: prod.splits sum.splits\<close>)
  qed (use 1(2) in \<open>simp add: on_data_loop.simps [of app bv]\<close>)
qed

section \<open>A websocket as a connection's protocol\<close>

fun conn_actions :: "ws_out list \<Rightarrow> conn_action list" where
  "conn_actions [] = []"
| "conn_actions (Conn a # outs) = a # conn_actions outs"
| "conn_actions (_ # outs) = conn_actions outs"

definition new_actions :: "ws \<Rightarrow> ws \<Rightarrow> conn_action list" where
  "new_actions w w' = conn_actions (drop (length (ws_trace w)) (ws_trace w'))"

definition ws_protocol :: "ws_app \<Rightarrow> ws protocol_handler" where
  "ws_protocol app =
     \<lparr>ph_data = (\<lambda>w bs. let (w', outcome) = onDataReceived app bs w in (new_actions w w', w', outcome)),
      ph_peer_close = (\<lambda>w. let (w', outcome) = onPeerClose app w in (new_actions w w', w', outcome))\<rparr>"

interpretation ws_contract: protocol_contract "ws_protocol app"
proof
  fix w bs acts w' consumed change
  assume "ph_data (ws_protocol app) w bs = (acts, w', Inr (consumed, change))" and small: "length bs < 2 ^ 31"
  then have "on_data_loop app bs 0 w = (w', Inr (consumed, change))"
    by (auto simp: ws_protocol_def onDataReceived_def split: prod.splits)
  from on_data_bounds [OF this] small show "0 \<le> consumed \<and> nat consumed \<le> length bs"
    by (simp add: nat_le_iff)
qed

section \<open>Closing\<close>

lemma run_sends_fit:
  "list_all send_fits ops \<Longrightarrow> \<exists>w'. run_sends ops w = (w', Inr ()) \<and> same_state w w' \<and>
    calls_of (ws_trace w') = calls_of (ws_trace w)"
proof (induction ops arbitrary: w)
  case (Cons op ops)
  from run_send_fits [of op w] Cons.prems obtain w1 where
    1: "run_send op w = (w1, Inr ())" "same_state w w1" "calls_of (ws_trace w1) = calls_of (ws_trace w)"
    by auto
  from Cons.IH [of w1] Cons.prems obtain w2 where
    "run_sends ops w1 = (w2, Inr ())" "same_state w1 w2" "calls_of (ws_trace w2) = calls_of (ws_trace w1)"
    by auto
  with 1 show ?case
    by (auto intro: same_state_trans)
qed simp

lemma call_on_close_polite:
  assumes "polite app" and "ws_handler w"
  shows "\<exists>w'. call_on_close app w = (w', Inr ()) \<and> same_state w w' \<and>
    calls_of (ws_trace w') = calls_of (ws_trace w) @ [On_close]"
proof -
  have "list_all send_fits (app_on_close app (ws_trace w))"
    using assms(1) by (simp add: polite_def)
  from run_sends_fit [OF this, of "emit (Call On_close) w"] obtain w' where
    "run_sends (app_on_close app (ws_trace w)) (emit (Call On_close) w) = (w', Inr ())"
    "same_state (emit (Call On_close) w) w'" "calls_of (ws_trace w') = calls_of (ws_trace (emit (Call On_close) w))"
    by blast
  moreover have "calls_of (ws_trace (emit (Call On_close) w)) = calls_of (ws_trace w) @ [On_close]"
    by (simp add: emit_def)
  ultimately show ?thesis
    using assms(2) same_state_trans [OF same_state_emit] by (auto simp: call_on_close_def)
qed

lemma close_ws_polite:
  assumes "polite app" and "ws_handler w" and "length (message_bytes reason) \<le> 125"
  shows "\<exists>w1. close_ws app code reason w =
      (emit (Conn (Write (server_frame True Op_close (close_payload code (message_bytes reason))) Close_after)) w1, Inr ()) \<and>
    same_state w w1 \<and> calls_of (ws_trace w1) = calls_of (ws_trace w) @ [On_close]"
proof -
  have rm: "same_state w (rm_timers w)" "calls_of (ws_trace (rm_timers w)) = calls_of (ws_trace w)"
    by (simp_all add: rm_timers_def emit_def same_state_def)
  with assms(2) have "ws_handler (rm_timers w)"
    by (simp add: same_stateD)
  from call_on_close_polite [OF assms(1) this] obtain w1 where
    "call_on_close app (rm_timers w) = (w1, Inr ())" "same_state (rm_timers w) w1"
    "calls_of (ws_trace w1) = calls_of (ws_trace (rm_timers w)) @ [On_close]"
    by blast
  moreover have "serialize_frame (close_payload code (message_bytes reason)) Op_close True =
      server_frame True Op_close (close_payload code (message_bytes reason))"
    using assms(3) by (intro serialize_frame_eq) (simp add: close_payload_def)
  ultimately show ?thesis
    using rm assms(3) by (auto simp: close_ws_def send_frame_def intro: same_state_trans)
qed

text \<open>The same with the whole trace: what each send of the application writes.\<close>

fun send_output :: "app_send \<Rightarrow> ws_out" where
  "send_output (Send_message (Text_message s) cb) = Conn (Write (serialize_frame (bytes_of_string s) Op_text True) cb)"
| "send_output (Send_message (Bin_message b) cb) = Conn (Write (serialize_frame b Op_binary True) cb)"
| "send_output (Send_frame b opcode fin cb) = Conn (Write (serialize_frame b opcode fin) cb)"
| "send_output (Send_ping m cb) = Conn (Write (serialize_frame (message_bytes m) Op_ping True) cb)"

lemma run_sends_output:
  "list_all send_fits ops \<Longrightarrow> run_sends ops w = (w\<lparr>ws_trace := ws_trace w @ map send_output ops\<rparr>, Inr ())"
proof (induction ops arbitrary: w)
  case (Cons op ops)
  then have "run_send op w = (w\<lparr>ws_trace := ws_trace w @ [send_output op]\<rparr>, Inr ())"
    by (cases op rule: send_output.cases) (simp_all add: ping_ws_def send_frame_def emit_def)
  with Cons show ?case
    by (simp add: and_then_def)
qed simp

lemma close_ws_trace:
  assumes "polite app" and "ws_handler w" and "length (message_bytes reason) \<le> 125"
    and "timers = (if ws_auto_ping w then [Loop Rm_ping_timer, Loop Rm_timeout_timer] else [])"
  shows "close_ws app code reason w =
    (w\<lparr>ws_trace := ws_trace w @ timers @ [Call On_close] @
        map send_output (app_on_close app (ws_trace w @ timers)) @
        [Conn (Write (server_frame True Op_close (close_payload code (message_bytes reason))) Close_after)]\<rparr>, Inr ())"
proof -
  have "rm_timers w = w\<lparr>ws_trace := ws_trace w @ timers\<rparr>"
    using assms(4) by (simp add: rm_timers_def emit_def)
  moreover have "list_all send_fits (app_on_close app (ws_trace w @ timers))"
    using assms(1) by (simp add: polite_def)
  moreover have "serialize_frame (close_payload code (message_bytes reason)) Op_close True =
      server_frame True Op_close (close_payload code (message_bytes reason))"
    using assms(3) by (intro serialize_frame_eq) (simp add: close_payload_def)
  ultimately show ?thesis
    using assms(2,3)
    by (simp add: close_ws_def call_on_close_def emit_def run_sends_output and_then_def send_frame_def)
qed

section \<open>A client\<close>

text \<open>A client's reader of frames, by the definition of RFC 6455.\<close>

definition big_endian :: "bytes \<Rightarrow> nat" where
  "big_endian bs = foldl (\<lambda>n b. 256 * n + unat b) 0 bs"

definition client_read_frame :: "bytes \<Rightarrow> (frame \<times> bytes) option" where
  "client_read_frame bs =
     (case bs of
        b0 # b1 # rest \<Rightarrow>
          (let ext = (if b1 = 126 then 2 else if b1 = 127 then 8 else 0);
               n = (if ext = 0 then unat b1 else big_endian (take ext rest));
               payload = drop ext rest
           in if length rest < ext + n then None
              else Some ((bit b0 7, op_code_of (b0 AND 0x0f), take n payload), drop n payload))
      | _ \<Rightarrow> None)"

lemma big_endian_snoc: "big_endian (bs @ [b]) = 256 * big_endian bs + unat b"
  by (simp add: big_endian_def)

lemma big_endian_digits:
  "big_endian (map (\<lambda>i. word_of_nat (n div 256 ^ i)) (rev [0..<k])) = n mod 256 ^ k"
proof (induction k arbitrary: n)
  case (Suc k)
  have "rev [0..<Suc k] = map Suc (rev [0..<k]) @ [0]"
    by (simp only: upt_rec [of 0 "Suc k"] map_Suc_upt rev_map [symmetric]) simp
  then have "map (\<lambda>i. word_of_nat (n div 256 ^ i) :: byte) (rev [0..<Suc k]) =
      map (\<lambda>i. word_of_nat (n div 256 div 256 ^ i)) (rev [0..<k]) @ [word_of_nat n]"
    by (simp add: div_mult2_eq)
  then have "big_endian (map (\<lambda>i. word_of_nat (n div 256 ^ i)) (rev [0..<Suc k])) =
      256 * (n div 256 mod 256 ^ k) + n mod 256"
    using Suc [of "n div 256"] by (simp only: big_endian_snoc) (simp add: unsigned_of_nat take_bit_eq_mod)
  then show ?case
    by (simp only: power_Suc mod_mult2_eq)
qed (simp add: big_endian_def)

lemma big_endian_field:
  assumes "n < 2 ^ 64" and "125 < n"
  shows "big_endian (snd (length_field n)) = n"
proof (cases "n \<le> 0xffff")
  case True
  with assms(2) big_endian_digits [of n 2] show ?thesis
    by (simp add: length_field_def numeral_2_eq_2)
next
  case False
  have "[7, 6, 5, 4, 3, 2, 1, 0 :: nat] = rev [0..<8]"
    by (simp add: upt_rec)
  with False have "snd (length_field n) = map (\<lambda>i. word_of_nat (n div 256 ^ i)) (rev [0..<8])"
    by (simp only: length_field_def) simp
  with assms(1) show ?thesis
    by (simp only: big_endian_digits) simp
qed

lemma client_read_server_frame:
  assumes "standard_op opcode" and "length payload < 2 ^ 64"
  shows "client_read_frame (server_frame fin opcode payload @ rest) = Some ((fin, opcode, payload), rest)"
proof -
  have fin: "bit (first_byte fin opcode) 7 = fin"
    using assms(1) by (cases opcode) (simp_all add: first_byte_def)
  have small: "(word_of_nat (length payload) :: byte) \<noteq> 126 \<and> (word_of_nat (length payload) :: byte) \<noteq> 127 \<and>
      unat (word_of_nat (length payload) :: byte) = length payload" if "length payload \<le> 125"
    using that by (simp add: word_unat_eq_iff unsigned_of_nat take_bit_nat_eq_self)
  show ?thesis
  proof (cases "length payload \<le> 125")
    case True
    with small fin first_byte_op [OF assms(1)] show ?thesis
      by (simp add: client_read_frame_def server_frame_def length_field_def Let_def)
  next
    case False
    with big_endian_field [OF assms(2)] fin first_byte_op [OF assms(1)] show ?thesis
      by (auto simp: client_read_frame_def server_frame_def length_field_def Let_def)
  qed
qed

section \<open>Properties\<close>

text \<open>
  C24. A frame the server sends is read back by a client with the same opcode, the same final bit
  and the same payload, for every payload length: the length is written in the seven bits, in two
  bytes or in eight bytes, most significant byte first.
\<close>

theorem server_frame_roundtrip:
  assumes "standard_op opcode" and "length payload < 2 ^ 64"
  shows "client_read_frame (serialize_frame payload opcode fin @ rest) = Some ((fin, opcode, payload), rest)"
  using client_read_server_frame [OF assms] serialize_frame_eq [OF assms(2)] by simp

theorem server_frame_roundtrip_witness:
  "client_read_frame (serialize_frame (replicate 300 7) Op_binary True @ [1]) =
    Some ((True, Op_binary, replicate 300 7), [1])"
  by (rule server_frame_roundtrip) (simp_all only: length_replicate standard_op.simps, simp)

text \<open>
  C19. Masked frames of a client arrive as they were sent: pings, pongs and messages, whole or in
  any number of fragments with control frames between them, reach the application once and in
  order, a fragmented message as one message of its first fragment's type; an incomplete frame at
  the end is left for the next call.
\<close>

theorem ws_messages_delivered:
  assumes "polite app" and "ws_handler w" and "ws_frag_buffer w = []"
    and "map snd mfs = concat (map frames_of items)" and "\<forall>mf \<in> set mfs. good_frame mf"
    and "length (concat (map frame_bytes mfs)) < 2 ^ 31" and "read_frame tail = Inr Need_more"
  shows "\<exists>w'. onDataReceived app (concat (map frame_bytes mfs) @ tail) w =
      (w', Inr (int (length (concat (map frame_bytes mfs))), None)) \<and> ws_frag_buffer w' = [] \<and>
    calls_of (ws_trace w') = calls_of (ws_trace w) @ concat (map item_calls items)"
proof -
  from handle_items [OF assms(1-3), of items] obtain w' where
    "handle_frames app (map snd mfs) w = (w', Inr False)" and w': "ws_frag_buffer w' = []"
    "calls_of (ws_trace w') = calls_of (ws_trace w) @ concat (map item_calls items)"
    unfolding assms(4) by blast
  from on_data_frames [OF assms(5) this(1), of 0 "tail"] assms(6,7) w' show ?thesis
    by (simp add: onDataReceived_def on_data_loop.simps [of app "tail"])
qed

theorem ws_messages_delivered_witness:
  "\<exists>w'. onDataReceived default_app (concat (map frame_bytes
        [([1, 2, 3, 4], False, Op_text, [72]), ([5, 6, 7, 8], True, Op_ping, [9]),
         ([0, 0, 0, 0], True, Op_continuation, [105])]) @ [0x81]) (setHandler new_ws) =
      (w', Inr (21, None)) \<and> ws_frag_buffer w' = [] \<and>
    calls_of (ws_trace w') = [On_ping [9], On_message (Text_message ''Hi'')]"
  using ws_messages_delivered [of default_app "setHandler new_ws"
    "[([1, 2, 3, 4], False, Op_text, [72]), ([5, 6, 7, 8], True, Op_ping, [9]),
      ([0, 0, 0, 0], True, Op_continuation, [105])]"
    "[Message True [72] [([Ping_frame [9]], [105])]]" "[0x81]"]
  by (simp add: polite_def default_app_def setHandler_def new_ws_def good_frame_def data_op_def
      frame_bytes_def client_frame_def length_field_def read_frame_short message_of_def text_of_def
      char_of_byte_def char_of_def bit_0 split: ws_call.split)

text \<open>
  What the receiver does with a frame of which only the first bytes have arrived: a short frame
  waits for the rest, but the header of a longer one is read before it is complete. Two bytes short
  of the mask it throws \<^verbatim>\<open>std::out_of_range\<close>, and the eight bytes of the longest length are read
  past the end of the data.
\<close>

lemma ws_partial_frame:
  assumes "length mask_key = 4" and "standard_op opcode" and "length payload < 2 ^ 64"
    and "k < length (client_frame mask_key fin opcode payload)"
  shows "read_frame (take k (client_frame mask_key fin opcode payload)) =
    (if k < 6 \<or> length payload \<le> 125 then Inr Need_more
     else if length payload \<le> 0xffff then if k < 8 then Inl out_of_range else Inr Need_more
     else if k < 10 then Inl (Undefined ''read past the end of the received data'')
     else if k < 14 then Inl out_of_range else Inr Need_more)"
  by (rule read_frame_cut [OF assms])

text \<open>
  C28. The closing handshake: when a close frame arrives, the timers of an automatic ping are removed,
  the application is told once, what it sends from its \<^verbatim>\<open>onClose\<close> is written, and then one close
  frame with the code 1000, after which the connection is closed. Nothing else is written or called,
  the bytes behind the close frame are not consumed, and the websocket gets no more data.
\<close>

theorem ws_close_handshake:
  assumes "polite app" and "ws_handler w" and "length mask_key = 4" and "length payload < 2 ^ 30"
    and "timers = (if ws_auto_ping w then [Loop Rm_ping_timer, Loop Rm_timeout_timer] else [])"
  shows "onDataReceived app (client_frame mask_key True Op_close payload @ rest) w =
    (w\<lparr>ws_trace := ws_trace w @ timers @ [Call On_close] @
        map send_output (app_on_close app (ws_trace w @ timers)) @
        [Conn (Write (server_frame True Op_close (close_payload Normal (bytes_of_string ''thx goodbye''))) Close_after)]\<rparr>,
     Inr (int (length (client_frame mask_key True Op_close payload)), Some None))"
proof -
  let ?f = "client_frame mask_key True Op_close payload"
  have "read_frame (?f @ rest) = Inr (Frame True Op_close payload rest (length ?f))"
    using assms(3,4) by (intro read_frame_client) simp_all
  moreover have "to_int32 (int (length ?f)) = int (length ?f)"
    using assms(3,4) length_snd_length_field [of "length payload"]
    by (intro to_int32_id) (simp_all add: length_client_frame split: if_splits)
  ultimately show ?thesis
    using close_ws_trace [OF assms(1,2) _ assms(5), of "Text_message ''thx goodbye''" Normal]
    by (simp add: onDataReceived_def on_data_loop.simps [of app "?f @ rest"] handle_frame_def)
qed

theorem ws_close_handshake_witness:
  "onDataReceived default_app (client_frame [1, 2, 3, 4] True Op_close [] @ [9]) (setHandler new_ws) =
    (setHandler new_ws\<lparr>ws_trace := [Call On_close,
       Conn (Write (server_frame True Op_close (close_payload Normal (bytes_of_string ''thx goodbye''))) Close_after)]\<rparr>,
     Inr (6, Some None))"
  using ws_close_handshake [of default_app "setHandler new_ws" "[1, 2, 3, 4]" "[]" "[]" "[9]"]
  by (simp add: polite_def default_app_def setHandler_def new_ws_def length_client_frame length_field_def
      split: ws_call.split)

text \<open>
  \<^verbatim>\<open>close\<close> checks the length of the reason, not of the payload with the code in front of it: a
  reason of 124 or 125 bytes is accepted and sent in a close frame with an extended length, which
  RFC 6455 forbids for a control frame.
\<close>

lemma ws_close_frame_too_long:
  assumes "polite app" and "ws_handler w" and "124 \<le> length (message_bytes reason)"
    and "length (message_bytes reason) \<le> 125"
  shows "\<exists>w1 tail. close_ws app code reason w = (emit (Conn (Write (0x88 # 126 # tail) Close_after)) w1, Inr ())"
proof -
  have "server_frame True Op_close (close_payload code (message_bytes reason)) =
      0x88 # 126 # drop 2 (server_frame True Op_close (close_payload code (message_bytes reason)))"
    using assms(3,4) by (simp add: server_frame_def first_byte_def length_field_def close_payload_def)
  with close_ws_polite [OF assms(1,2,4), of code] show ?thesis
    by metis
qed

end
