(* ===== verification/Http.thy ===== *)
theory Http
  imports Base64 Routing Websocket
begin

text \<open>
  HttpProtocol.cpp: the protocol of a connection until it is upgraded. One turn of the loop of
  \<open>onDataReceived\<close> looks for a header, waits for its body, and answers the request; the handlers
  around it turn exceptions into error responses. The hash of the websocket handshake (OpenSSL's
  \<^verbatim>\<open>SHA1\<close>) is a parameter.
\<close>

section \<open>Data\<close>

text \<open>The protocols of a connection: HTTP with the header it has already read, or a websocket with the
  application behind it.\<close>

datatype protocol = Http "header option" | Ws ws_app ws

record server_env =
  se_dispatcher :: "(ws, ws_app) dispatcher"
  se_sha1 :: "bytes \<Rightarrow> bytes"

definition magic_ws_guid :: string where
  "magic_ws_guid = ''258EAFA5-E914-47DA-95CA-C5AB0DC85B11''"

definition starts_with :: "string \<Rightarrow> string \<Rightarrow> bool" where
  "starts_with l pre \<longleftrightarrow> length pre \<le> length l \<and> take (length pre) l = pre"

definition ignore_case_cmp :: "string \<Rightarrow> string \<Rightarrow> bool" where
  "ignore_case_cmp l r \<longleftrightarrow> length l = length r \<and> list_all2 (\<lambda>a b. tolower a = tolower b) l r"

section \<open>The upgrade to a websocket\<close>

definition accept_key :: "(bytes \<Rightarrow> bytes) \<Rightarrow> string \<Rightarrow> string" where
  "accept_key sha1 key = base64_encode (sha1 (bytes_of_string (key @ magic_ws_guid)))"

definition upgrade_response :: "(bytes \<Rightarrow> bytes) \<Rightarrow> string \<Rightarrow> response" where
  "upgrade_response sha1 key =
     (let r = default_response\<lparr>rs_status_code := 101\<rparr>;
          r = r\<lparr>rs_fields := omm_emplace ''Upgrade'' ''websocket'' (rs_fields r)\<rparr>;
          r = r\<lparr>rs_fields := omm_emplace ''Connection'' ''Upgrade'' (rs_fields r)\<rparr>
      in r\<lparr>rs_fields := omm_emplace ''Sec-WebSocket-Accept'' (accept_key sha1 key) (rs_fields r)\<rparr>)"

definition check_upgrade :: "header \<Rightarrow> string result" where
  "check_upgrade hdr =
     (if h_method hdr \<noteq> ''GET'' then Inl (Http_error 405 [])
      else case umm_find ''upgrade'' (h_fields hdr) of
             None \<Rightarrow> Inl (Http_error 400 ''bad upgrade'')
           | Some upgrade_type \<Rightarrow>
               if \<not> ignore_case_cmp upgrade_type ''websocket'' then Inl (Http_error 501 ''unknown upgrade'')
               else (case (umm_find ''sec-websocket-key'' (h_fields hdr), umm_find ''sec-websocket-version'' (h_fields hdr)) of
                       (Some key, Some version) \<Rightarrow>
                         if version \<noteq> ''13'' then Inl (Http_error 501 ''bad websocket version'') else Inr key
                     | _ \<Rightarrow> Inl (Http_error 400 ''bad upgrade'')))"

text \<open>The route is chosen before anything is written; its \<open>onOpen\<close> runs after the answer, on a
  websocket that has no handler yet.\<close>

definition connection_upgrade :: "server_env \<Rightarrow> request \<Rightarrow> conn_action list \<times> protocol result" where
  "connection_upgrade env req =
     (case check_upgrade (rq_header req) of
        Inl e \<Rightarrow> ([], Inl e)
      | Inr key \<Rightarrow>
          (case routeWS (se_dispatcher env) req of
             Inl e \<Rightarrow> ([], Inl e)
           | Inr route \<Rightarrow>
               (case serialize (upgrade_response (se_sha1 env) key) of
                  Inl e \<Rightarrow> ([], Inl e)
                | Inr out \<Rightarrow>
                    (let (w, opened) = onOpen route req new_ws;
                         acts = Write out No_callback # conn_actions (ws_trace w)
                     in case opened of
                          Inl e \<Rightarrow> (acts, Inl e)
                        | Inr _ \<Rightarrow> (acts, Inr (Ws (getHandler route) (setHandler w)))))))"

section \<open>One request\<close>

definition read_body_args :: "header \<Rightarrow> bytes \<Rightarrow> header result" where
  "read_body_args hdr message =
     (case umm_find ''content-type'' (h_fields hdr) of
        None \<Rightarrow> Inr hdr
      | Some enctype \<Rightarrow>
          rbind (extractFieldVals enctype default_delimiters) (\<lambda>split.
          (case split of
             [] \<Rightarrow> Inl (Http_error 400 ''content-type must be defined'')
           | Single s # _ \<Rightarrow>
               if starts_with s ''multipart/'' then
                 (if length split < 2 then Inl (Http_error 400 ''content-type: multipart requires a boundary'')
                  else case map_of (concat (map (\<lambda>v. case v of KV k b \<Rightarrow> [(k, b)] | Single _ \<Rightarrow> []) split)) ''boundary'' of
                         None \<Rightarrow> Inl (Http_error 400 ''content-type: multipart requires a boundary'')
                       | Some boundary \<Rightarrow>
                           rbind (readMultipartBody (string_of_bytes message) boundary) (\<lambda>args.
                             Inr (hdr\<lparr>h_body_args := args\<rparr>)))
               else Inr hdr
           | KV _ _ # _ \<Rightarrow> Inr hdr)))"

definition wants_upgrade :: "header \<Rightarrow> bool result" where
  "wants_upgrade hdr =
     (case umm_find ''connection'' (h_fields hdr) of
        None \<Rightarrow> Inr False
      | Some v \<Rightarrow>
          rbind (extractFieldVals v '',;'') (\<lambda>split.
            Inr (\<exists>f \<in> set split. case f of Single s \<Rightarrow> ignore_case_cmp s ''upgrade'' | KV _ _ \<Rightarrow> False)))"

text \<open>
  The version that is compared after the request was answered: \<open>std::move\<close> has emptied the header by
  then (a moved-from \<^verbatim>\<open>std::string\<close> of libstdc++ is empty).
\<close>

definition moved_from_string :: string where
  "moved_from_string = []"

definition answer_request :: "server_env \<Rightarrow> header \<Rightarrow> bytes \<Rightarrow> conn_action list \<times> protocol option option result" where
  "answer_request env hdr message =
     (case rbind (read_body_args hdr message) (\<lambda>hdr. rbind (wants_upgrade hdr) (\<lambda>up. Inr (hdr, up))) of
        Inl e \<Rightarrow> ([], Inl e)
      | Inr (hdr, up) \<Rightarrow>
          (let req = \<lparr>rq_header = hdr, rq_message_body = message\<rparr>
           in if up then
                (let (acts, p) = connection_upgrade env req
                 in (acts, rbind p (\<lambda>p. Inr (Some (Some p)))))
              else
                (case rbind (route_request (se_dispatcher env) req) serialize of
                   Inl e \<Rightarrow> ([], Inl e)
                 | Inr out \<Rightarrow>
                     ([Write out No_callback],
                      Inr (if moved_from_string = ''HTTP/1.0'' then Some None else None)))))"

section \<open>The loop\<close>

record http_state =
  hs_header :: "header option"
  hs_received :: bytes
  hs_consumed :: int
  hs_acts :: "conn_action list"

text \<open>The header, when the whole of it has arrived. The view is advanced by all the bytes consumed so
  far, not by those of this header.\<close>

definition take_header :: "http_state \<Rightarrow> http_state \<times> unit result" where
  "take_header st =
     (case hs_header st of
        Some _ \<Rightarrow> (st, Inr ())
      | None \<Rightarrow>
          (case find_sub (bytes_of_string (crlf @ crlf)) (hs_received st) 0 of
             None \<Rightarrow> (st, Inr ())
           | Some header_end_idx \<Rightarrow>
               (case parse_header (string_of_bytes (take (header_end_idx + 2) (hs_received st))) of
                  Inl e \<Rightarrow> (st, Inl e)
                | Inr hdr \<Rightarrow>
                    (let consumed = to_int32 (hs_consumed st + int (header_end_idx + 4));
                         st = st\<lparr>hs_header := Some hdr, hs_consumed := consumed\<rparr>
                     in case substr_from (hs_received st) (nat (consumed mod 2 ^ 64)) of
                          Inl e \<Rightarrow> (st, Inl e)
                        | Inr rest \<Rightarrow> (st\<lparr>hs_received := rest\<rparr>, Inr ())))))"

text \<open>How a turn of the loop ends: \<^verbatim>\<open>return\<close> or \<^verbatim>\<open>break\<close>, or with the protocol change
  after an answer.\<close>

datatype turn_end = Stop | Answered "protocol option option"

definition http_turn :: "server_env \<Rightarrow> http_state \<Rightarrow> http_state \<times> turn_end result" where
  "http_turn env st =
     (case take_header st of
        (st, Inl e) \<Rightarrow> (st, Inl e)
      | (st, Inr _) \<Rightarrow>
          (case hs_header st of
             None \<Rightarrow> (st, Inr Stop)
           | Some hdr \<Rightarrow>
               if length (hs_received st) < h_content_length hdr then (st, Inr Stop)
               else
                 (let message = take (h_content_length hdr) (hs_received st);
                      st = st\<lparr>hs_received := drop (h_content_length hdr) (hs_received st),
                              hs_consumed := to_int32 (hs_consumed st + int (h_content_length hdr)),
                              hs_header := None\<rparr>;
                      (acts, answered) = answer_request env hdr message
                  in (st\<lparr>hs_acts := hs_acts st @ acts\<rparr>, rbind answered (\<lambda>change. Inr (Answered change))))))"

text \<open>The handlers: the error response, and whether the connection is given up. An exception of
  \<^verbatim>\<open>serialize\<close> in a handler leaves the function.\<close>

definition error_of_fault :: "fault \<Rightarrow> (int \<times> string \<times> bool) result" where
  "error_of_fault e =
     (case e of
        Http_error code what \<Rightarrow> Inr (code, what, 500 \<le> code)
      | Runtime_error what \<Rightarrow> Inr (500, what, True)
      | Logic_error _ \<Rightarrow> Inr (500, ''uncaught error'', True)
      | Other_throw \<Rightarrow> Inr (500, ''uncaught error'', True)
      | Undefined what \<Rightarrow> Inl (Undefined what)
      | Out_of_fuel \<Rightarrow> Inl Out_of_fuel)"

definition http_catch :: "server_env \<Rightarrow> fault \<Rightarrow> http_state \<Rightarrow> http_state \<times> protocol option option result" where
  "http_catch env e st =
     (case error_of_fault e of
        Inl e \<Rightarrow> (st, Inl e)
      | Inr (code, what, give_up) \<Rightarrow>
          (case serialize (response_of_error code what (dp_error_body_generator (se_dispatcher env))) of
             Inl e \<Rightarrow> (st, Inl e)
           | Inr out \<Rightarrow>
               (st\<lparr>hs_acts := hs_acts st @ [Write out No_callback]\<rparr>,
                Inr (if give_up then Some None else None))))"

text \<open>The loop runs until the protocol changes or a turn stops it; \<open>Out_of_fuel\<close> is the value of a run that
  takes more turns than the fuel allows.\<close>

fun http_loop :: "nat \<Rightarrow> server_env \<Rightarrow> http_state \<Rightarrow> http_state \<times> protocol option option result" where
  "http_loop 0 env st = (st, Inl Out_of_fuel)"
| "http_loop (Suc fuel) env st =
     (case http_turn env st of
        (st, Inr Stop) \<Rightarrow> (st, Inr None)
      | (st, Inr (Answered None)) \<Rightarrow> http_loop fuel env st
      | (st, Inr (Answered (Some p))) \<Rightarrow> (st, Inr (Some p))
      | (st, Inl e) \<Rightarrow>
          (case http_catch env e st of
             (st, Inl e) \<Rightarrow> (st, Inl e)
           | (st, Inr None) \<Rightarrow> http_loop fuel env st
           | (st, Inr (Some p)) \<Rightarrow> (st, Inr (Some p))))"

declare http_loop.simps(2) [simp del]

definition http_on_data :: "nat \<Rightarrow> server_env \<Rightarrow> header option \<Rightarrow> bytes \<Rightarrow>
    http_state \<times> protocol option option result" where
  "http_on_data fuel env hdr received =
     http_loop fuel env \<lparr>hs_header = hdr, hs_received = received, hs_consumed = 0, hs_acts = []\<rparr>"

section \<open>The protocols of the server\<close>

text \<open>\<open>turns_needed\<close> turns are enough for every run that ends (see \<open>http_terminates\<close>).\<close>

definition turns_needed :: "bytes \<Rightarrow> nat" where
  "turns_needed received = length received + 3"

definition server_data :: "server_env \<Rightarrow> protocol \<Rightarrow> bytes \<Rightarrow>
    conn_action list \<times> protocol \<times> (int \<times> protocol option option) result" where
  "server_data env p bs =
     (case p of
        Http hdr \<Rightarrow>
          (let (st, outcome) = http_on_data (turns_needed bs) env hdr bs
           in (hs_acts st, Http (hs_header st), rbind outcome (\<lambda>change. Inr (hs_consumed st, change))))
      | Ws app w \<Rightarrow>
          (let (w', outcome) = onDataReceived app bs w
           in (new_actions w w', Ws app w',
               rbind outcome (\<lambda>(consumed, change). Inr (consumed, map_option (map_option (Ws app)) change)))))"

definition server_peer_close :: "protocol \<Rightarrow> conn_action list \<times> protocol \<times> unit result" where
  "server_peer_close p =
     (case p of
        Http hdr \<Rightarrow> ([], Http hdr, Inr ())
      | Ws app w \<Rightarrow> (let (w', outcome) = onPeerClose app w in (new_actions w w', Ws app w', outcome)))"

definition server_protocol :: "server_env \<Rightarrow> protocol protocol_handler" where
  "server_protocol env = \<lparr>ph_data = server_data env, ph_peer_close = server_peer_close\<rparr>"

section \<open>Where a header ends\<close>

text \<open>Bytes that are one header with the empty line behind it.\<close>

definition blank_line :: bytes where
  "blank_line = bytes_of_string (crlf @ crlf)"

definition header_block :: "bytes \<Rightarrow> header result \<Rightarrow> bool" where
  "header_block block parsed \<longleftrightarrow> index_sub blank_line block = Some (length block - 4) \<and> 4 \<le> length block \<and>
     parse_header (string_of_bytes (take (length block - 2) block)) = parsed"

lemma length_blank_line [simp]: "length blank_line = 4"
  by (simp add: blank_line_def crlf_def)

lemma find_blank_line:
  assumes "header_block block parsed"
  shows "find_sub (bytes_of_string (crlf @ crlf)) (block @ rest) 0 = Some (length block - 4)"
    and "parse_header (string_of_bytes (take (length block - 4 + 2) (block @ rest))) = parsed"
proof -
  have "index_sub blank_line (block @ rest) = Some (length block - 4)"
    using assms by (intro index_sub_append) (simp add: header_block_def)
  then show "find_sub (bytes_of_string (crlf @ crlf)) (block @ rest) 0 = Some (length block - 4)"
    unfolding find_sub_def blank_line_def [symmetric] by simp
  have "length block - 4 + 2 = length block - 2"
    using assms unfolding header_block_def by linarith
  then have "take (length block - 4 + 2) (block @ rest) = take (length block - 2) block"
    by (simp only: take_append) simp
  then show "parse_header (string_of_bytes (take (length block - 4 + 2) (block @ rest))) = parsed"
    using assms by (simp only: header_block_def)
qed

abbreviation http_start :: "header option \<Rightarrow> bytes \<Rightarrow> int \<Rightarrow> conn_action list \<Rightarrow> http_state" where
  "http_start h received consumed acts \<equiv>
     \<lparr>hs_header = h, hs_received = received, hs_consumed = consumed, hs_acts = acts\<rparr>"

lemma take_header_block:
  assumes "header_block block (Inr hdr)" and "0 \<le> consumed" and "consumed + int (length block) < 2 ^ 31"
  shows "take_header (http_start None (block @ rest) consumed acts) =
    (let n = nat consumed + length block in
     if length (block @ rest) < n
     then (http_start (Some hdr) (block @ rest) (int n) acts, Inl out_of_range)
     else (http_start (Some hdr) (drop n (block @ rest)) (int n) acts, Inr ()))"
proof -
  have four: "4 \<le> length block"
    using assms(1) by (simp add: header_block_def)
  then have "to_int32 (consumed + int (length block - 4 + 4)) = int (nat consumed + length block)"
    using assms(2,3) by (subst to_int32_id) auto
  moreover have "nat (int (nat consumed + length block) mod 2 ^ 64) = nat consumed + length block"
    using assms(2,3) by (subst mod_pos_pos_trivial) auto
  ultimately show ?thesis
    using find_blank_line [OF assms(1), of rest] by (simp add: take_header_def substr_from_def Let_def)
qed

lemma take_header_bad:
  assumes "header_block block (Inl e)"
  shows "take_header (http_start None (block @ rest) consumed acts) =
    (http_start None (block @ rest) consumed acts, Inl e)"
  using find_blank_line [OF assms, of rest] by (simp add: take_header_def)

lemma take_header_incomplete:
  "index_sub blank_line received = None \<Longrightarrow>
   take_header (http_start None received consumed acts) = (http_start None received consumed acts, Inr ())"
  by (simp add: take_header_def find_sub_def blank_line_def)

text \<open>The turns of the loop, by what is at the front of the data.\<close>

lemma http_turn_incomplete:
  "index_sub blank_line received = None \<Longrightarrow>
   http_turn env (http_start None received consumed acts) = (http_start None received consumed acts, Inr Stop)"
  by (simp add: http_turn_def take_header_incomplete)

lemma http_turn_body_missing:
  "length received < h_content_length hdr \<Longrightarrow>
   http_turn env (http_start (Some hdr) received consumed acts) = (http_start (Some hdr) received consumed acts, Inr Stop)"
  by (simp add: http_turn_def take_header_def)

lemma http_turn_answer:
  assumes "h_content_length hdr = length body" and "0 \<le> consumed" and "consumed + int (length body) < 2 ^ 31"
    and "answer_request env hdr body = (new_acts, answered)"
  shows "http_turn env (http_start (Some hdr) (body @ rest) consumed acts) =
    (http_start None rest (consumed + int (length body)) (acts @ new_acts),
     rbind answered (\<lambda>change. Inr (Answered change)))"
proof -
  have "to_int32 (consumed + int (length body)) = consumed + int (length body)"
    using assms(2,3) by (intro to_int32_id) auto
  with assms(1,4) show ?thesis
    by (simp add: http_turn_def take_header_def)
qed

lemma http_turn_block:
  assumes "header_block block (Inr hdr)" and "0 \<le> consumed" and "consumed + int (length block) < 2 ^ 31"
    and "nat consumed \<le> length rest"
  shows "http_turn env (http_start None (block @ rest) consumed acts) =
    http_turn env (http_start (Some hdr) (drop (nat consumed) rest) (consumed + int (length block)) acts)"
proof -
  have "take_header (http_start None (block @ rest) consumed acts) =
      (http_start (Some hdr) (drop (nat consumed) rest) (consumed + int (length block)) acts, Inr ())"
    using take_header_block [OF assms(1-3), of rest acts] assms(2,4) by (auto simp: Let_def)
  then show ?thesis
    by (simp add: http_turn_def take_header_def)
qed

lemma http_loop_stop:
  "http_turn env st = (st', Inr Stop) \<Longrightarrow> http_loop (Suc fuel) env st = (st', Inr None)"
  by (simp add: http_loop.simps(2))

lemma http_loop_answered:
  "http_turn env st = (st', Inr (Answered change)) \<Longrightarrow>
   http_loop (Suc fuel) env st = (case change of None \<Rightarrow> http_loop fuel env st' | Some p \<Rightarrow> (st', Inr (Some p)))"
  by (simp add: http_loop.simps(2) split: option.split)

lemma http_loop_fault:
  "http_turn env st = (st', Inl e) \<Longrightarrow>
   http_loop (Suc fuel) env st =
     (case http_catch env e st' of (st, Inl e) \<Rightarrow> (st, Inl e) | (st, Inr None) \<Rightarrow> http_loop fuel env st
      | (st, Inr (Some p)) \<Rightarrow> (st, Inr (Some p)))"
  by (simp add: http_loop.simps(2))

section \<open>Error responses\<close>

text \<open>The bytes of the error response with a code of the table.\<close>

definition error_bytes :: "server_env \<Rightarrow> int \<Rightarrow> string \<Rightarrow> bytes" where
  "error_bytes env code what =
     (case serialize (response_of_error code what (dp_error_body_generator (se_dispatcher env))) of
        Inr out \<Rightarrow> out | Inl _ \<Rightarrow> [])"

lemma serialize_error:
  "code \<in> fst ` set code2reason \<Longrightarrow>
   serialize (response_of_error code what (dp_error_body_generator (se_dispatcher env))) = Inr (error_bytes env code what)"
  by (cases "map_of code2reason code")
    (auto simp: error_bytes_def serialize_text reason_of_def response_of_error_def default_response_def
      map_of_eq_None_iff)

lemma http_catch_error:
  "code \<in> fst ` set code2reason \<Longrightarrow>
   http_catch env (Http_error code what) st =
     (st\<lparr>hs_acts := hs_acts st @ [Write (error_bytes env code what) No_callback]\<rparr>,
      Inr (if 500 \<le> code then Some None else None))"
  by (simp add: http_catch_def error_of_fault_def serialize_error)

lemma code2reason_mem [simp]: "400 \<in> fst ` set code2reason" "500 \<in> fst ` set code2reason"
  by (simp_all add: code2reason_def)

lemma http_catch_out_of_range:
  "http_catch env out_of_range st =
     (st\<lparr>hs_acts := hs_acts st @ [Write (error_bytes env 500 ''uncaught error'') No_callback]\<rparr>, Inr (Some None))"
  by (simp add: http_catch_def error_of_fault_def serialize_error out_of_range_def)

section \<open>Requests in the data\<close>

lemma index_blank_line_short: "length bs < 4 \<Longrightarrow> index_sub blank_line bs = None"
  using index_sub_bound [of blank_line bs] by (cases "index_sub blank_line bs") auto

text \<open>A request whose answer does not end the protocol: its header, its body and the answer.\<close>

definition answered_with :: "server_env \<Rightarrow> bytes \<Rightarrow> bytes \<Rightarrow> conn_action list \<Rightarrow> header \<Rightarrow> bool" where
  "answered_with env block body acts hdr \<longleftrightarrow> header_block block (Inr hdr) \<and>
     h_content_length hdr = length body \<and> answer_request env hdr body = (acts, Inr None)"

lemma http_turn_request:
  assumes "answered_with env block body new_acts hdr" and "length (block @ body) < 2 ^ 31"
  shows "http_turn env (http_start None (block @ body @ rest) 0 acts) =
    (http_start None rest (int (length (block @ body))) (acts @ new_acts), Inr (Answered None))"
proof -
  have "http_turn env (http_start None (block @ body @ rest) 0 acts) =
      http_turn env (http_start (Some hdr) (body @ rest) (int (length block)) acts)"
    using assms http_turn_block [of block hdr 0 "body @ rest" env acts] by (simp add: answered_with_def)
  also have "\<dots> = (http_start None rest (int (length block) + int (length body)) (acts @ new_acts), Inr (Answered None))"
    using assms http_turn_answer [of hdr body "int (length block)" env new_acts "Inr None" rest acts]
    by (simp add: answered_with_def)
  finally show ?thesis
    by simp
qed

lemma http_one_request:
  assumes "answered_with env block body acts hdr" and "length (block @ body) < 2 ^ 31"
  shows "http_on_data (Suc (Suc fuel)) env None (block @ body) =
    (http_start None [] (int (length (block @ body))) acts, Inr None)"
  using http_loop_answered [OF http_turn_request [OF assms, of "[]" "[]"], of "Suc fuel"]
    http_loop_stop [OF http_turn_incomplete [OF index_blank_line_short]]
  by (simp add: http_on_data_def)

text \<open>The rest of a body that was still missing.\<close>

lemma http_late_body:
  assumes "answered_with env block body acts hdr" and "length body < 2 ^ 31"
  shows "http_on_data (Suc (Suc fuel)) env (Some hdr) body =
    (http_start None [] (int (length body)) acts, Inr None)"
  using http_loop_answered [OF http_turn_answer [of hdr body 0 env acts "Inr None" "[]" "[]", simplified], of "Suc fuel"]
    http_loop_stop [OF http_turn_incomplete [OF index_blank_line_short]] assms
  by (simp add: http_on_data_def answered_with_def)

lemma http_early_header:
  assumes "answered_with env block body acts hdr" and "length block < 2 ^ 31" and "k < length body"
  shows "http_on_data (Suc fuel) env None (block @ take k body) =
    (http_start (Some hdr) (take k body) (int (length block)) [], Inr None)"
proof -
  have "http_turn env (http_start None (block @ take k body) 0 []) =
      http_turn env (http_start (Some hdr) (take k body) (int (length block)) [])"
    using assms(1,2) http_turn_block [of block hdr 0 "take k body" env "[]"] by (simp add: answered_with_def)
  also have "\<dots> = (http_start (Some hdr) (take k body) (int (length block)) [], Inr Stop)"
    using assms by (intro http_turn_body_missing) (simp add: answered_with_def)
  finally show ?thesis
    by (simp add: http_on_data_def http_loop_stop)
qed

lemma http_no_header:
  "index_sub blank_line bs = None \<Longrightarrow>
   http_on_data (Suc fuel) env None bs = (http_start None bs 0 [], Inr None)"
  by (simp add: http_on_data_def http_loop_stop http_turn_incomplete)

lemma http_loop_malformed:
  assumes "header_block block (Inl (Http_error code what))" and "code \<in> fst ` set code2reason" and "code < 500"
  shows "http_loop fuel env (http_start None (block @ rest) consumed acts) =
    (http_start None (block @ rest) consumed
       (acts @ replicate fuel (Write (error_bytes env code what) No_callback)), Inl Out_of_fuel)"
proof (induction fuel arbitrary: acts)
  case (Suc fuel)
  have "http_turn env (http_start None (block @ rest) consumed acts) =
      (http_start None (block @ rest) consumed acts, Inl (Http_error code what))"
    by (simp add: http_turn_def take_header_bad [OF assms(1)])
  from http_loop_fault [OF this] Suc assms(2,3) show ?case
    by (simp add: http_catch_error)
qed simp

lemma http_pipelined:
  assumes "answered_with env block1 body1 acts1 hdr1" and "header_block block2 (Inr hdr2)"
    and "length rest < length (block1 @ body1)" and "length (block1 @ body1 @ block2) < 2 ^ 31"
  shows "http_on_data (Suc (Suc fuel)) env None (block1 @ body1 @ block2 @ rest) =
    (http_start (Some hdr2) (block2 @ rest) (int (length (block1 @ body1 @ block2)))
       (acts1 @ [Write (error_bytes env 500 ''uncaught error'') No_callback]), Inr (Some None))"
proof -
  define n where "n = length (block1 @ body1)"
  have bound: "length rest < n" "n + length block2 < 2 ^ 31"
    using assms(3,4) by (simp_all add: n_def)
  have total: "int n + int (length block2) = int (length (block1 @ body1 @ block2))"
    by (simp add: n_def)
  have "http_turn env (http_start None (block2 @ rest) (int n) acts1) =
      (http_start (Some hdr2) (block2 @ rest) (int n + int (length block2)) acts1, Inl out_of_range)"
    using take_header_block [OF assms(2), of "int n" rest acts1] bound by (simp add: http_turn_def Let_def)
  from http_loop_fault [OF this] have "http_loop (Suc fuel) env (http_start None (block2 @ rest) (int n) acts1) =
      (http_start (Some hdr2) (block2 @ rest) (int (length (block1 @ body1 @ block2)))
         (acts1 @ [Write (error_bytes env 500 ''uncaught error'') No_callback]), Inr (Some None))"
    by (simp only: total) (simp add: http_catch_out_of_range)
  then show ?thesis
    unfolding n_def
    using http_loop_answered [OF http_turn_request [OF assms(1), of "block2 @ rest" "[]"], of "Suc fuel"] assms(4)
    by (simp add: http_on_data_def)
qed

section \<open>Bounds\<close>

text \<open>The bytes consumed never get ahead of the data: they may fall behind the view, when it was
  advanced too far.\<close>

definition http_inv :: "int \<Rightarrow> http_state \<Rightarrow> bool" where
  "http_inv n st \<longleftrightarrow> 0 \<le> hs_consumed st \<and> hs_consumed st + int (length (hs_received st)) \<le> n \<and> n < 2 ^ 31"

definition http_bounded :: "int \<Rightarrow> http_state \<Rightarrow> bool" where
  "http_bounded n st \<longleftrightarrow> 0 \<le> hs_consumed st \<and> hs_consumed st \<le> n"

lemma http_inv_bounded: "http_inv n st \<Longrightarrow> http_bounded n st"
  by (simp add: http_inv_def http_bounded_def)

lemma http_inv_acts [simp]: "http_inv n (st\<lparr>hs_acts := acts\<rparr>) = http_inv n st"
  "http_bounded n (st\<lparr>hs_acts := acts\<rparr>) = http_bounded n st"
  by (simp_all add: http_inv_def http_bounded_def)

lemma take_header_inv:
  assumes "http_inv n st" and "take_header st = (st', r)"
  shows "http_bounded n st' \<and> (r = Inl out_of_range \<or> http_inv n st')"
proof (cases "hs_header st")
  case (Some h)
  with assms show ?thesis
    by (simp add: take_header_def http_inv_bounded)
next
  case None
  show ?thesis
  proof (cases "find_sub (bytes_of_string (crlf @ crlf)) (hs_received st) 0")
    case none: None
    with None assms show ?thesis
      by (simp add: take_header_def http_inv_bounded)
  next
    case (Some i)
    then have i: "i + 4 \<le> length (hs_received st)"
      by (auto dest: find_sub_bounds simp: crlf_def)
    let ?c = "hs_consumed st + int (i + 4)"
    have c: "to_int32 ?c = ?c" "?c mod 2 ^ 64 = ?c"
      using assms(1) i by (simp_all add: http_inv_def)
    show ?thesis
    proof (cases "parse_header (string_of_bytes (take (i + 2) (hs_received st)))")
      case (Inl e)
      with None Some assms show ?thesis
        by (simp add: take_header_def http_inv_bounded)
    next
      case (Inr h)
      with None Some assms c i show ?thesis
        by (auto simp: take_header_def Let_def substr_from_def http_inv_def http_bounded_def split: if_splits)
    qed
  qed
qed

lemma http_turn_inv:
  assumes "http_inv n st" and "http_turn env st = (st', r)"
  shows "http_bounded n st'"
    and "r = Inr (Answered change) \<or> r = Inl (Http_error code what) \<Longrightarrow> http_inv n st'"
proof -
  obtain st1 r1 where header: "take_header st = (st1, r1)"
    by (cases "take_header st")
  note inv1 = take_header_inv [OF assms(1) header]
  have "http_bounded n st' \<and> (r = Inr (Answered change) \<or> r = Inl (Http_error code what) \<longrightarrow> http_inv n st')"
  proof (cases r1)
    case (Inl e)
    with assms(2) header inv1 show ?thesis
      by (auto simp: http_turn_def out_of_range_def)
  next
    case (Inr u)
    with inv1 have inv: "http_inv n st1"
      by simp
    show ?thesis
    proof (cases "hs_header st1")
      case None
      with assms(2) header Inr inv show ?thesis
        by (auto simp: http_turn_def http_inv_bounded)
    next
      case (Some h)
      show ?thesis
      proof (cases "length (hs_received st1) < h_content_length h")
        case True
        with assms(2) header Inr inv Some show ?thesis
          by (auto simp: http_turn_def http_inv_bounded)
      next
        case False
        have "to_int32 (hs_consumed st1 + int (h_content_length h)) = hs_consumed st1 + int (h_content_length h)"
          using inv False by (intro to_int32_id) (auto simp: http_inv_def)
        with assms(2) header Inr inv Some False have "http_inv n st'"
          by (auto simp: http_turn_def http_inv_def Let_def split: prod.splits)
        then show ?thesis
          by (simp add: http_inv_bounded)
      qed
    qed
  qed
  then show "http_bounded n st'"
    and "r = Inr (Answered change) \<or> r = Inl (Http_error code what) \<Longrightarrow> http_inv n st'"
    by simp_all
qed

text \<open>A handler that lets the loop go on has caught a \<^verbatim>\<open>cndl::Error\<close> below 500.\<close>

lemma http_catch_state:
  "http_catch env e st = (st', r) \<Longrightarrow> \<exists>acts. st' = st\<lparr>hs_acts := hs_acts st @ acts\<rparr>"
  by (auto simp: http_catch_def split: sum.splits if_splits prod.splits intro: exI [of _ "[]"])

lemma http_catch_continues:
  "http_catch env e st = (st', Inr None) \<Longrightarrow> \<exists>code what. e = Http_error code what \<and> code < 500"
  by (cases e) (auto simp: http_catch_def error_of_fault_def split: sum.splits if_splits)

lemma http_loop_bounded:
  "http_inv n st \<Longrightarrow> http_loop fuel env st = (st', r) \<Longrightarrow> http_bounded n st'"
proof (induction fuel arbitrary: st)
  case (Suc fuel)
  obtain st1 r1 where turn: "http_turn env st = (st1, r1)"
    by (cases "http_turn env st")
  note inv = http_turn_inv [OF Suc.prems(1) turn]
  show ?case
  proof (cases r1)
    case (Inr e)
    with Suc.IH [of st1] Suc.prems(2) turn inv show ?thesis
      by (cases e) (auto simp: http_loop_stop http_loop_answered split: option.splits)
  next
    case (Inl e)
    obtain st2 r2 where catch: "http_catch env e st1 = (st2, r2)"
      by (cases "http_catch env e st1")
    from http_catch_state [OF catch] obtain acts where st2: "st2 = st1\<lparr>hs_acts := hs_acts st1 @ acts\<rparr>"
      by blast
    show ?thesis
    proof (cases "r2 = Inr None")
      case True
      with catch http_catch_continues obtain code what where "e = Http_error code what"
        by blast
      with inv(2) Inl have "http_inv n st2"
        by (simp add: st2)
      with Suc.IH [of st2] Suc.prems(2) turn Inl catch True show ?thesis
        by (simp add: http_loop_fault)
    next
      case False
      with Suc.prems(2) turn Inl catch have "st' = st2"
        by (auto simp: http_loop_fault split: sum.splits option.splits)
      with inv(1) show ?thesis
        by (simp add: st2)
    qed
  qed
qed (simp add: http_inv_bounded)

interpretation server_contract: protocol_contract "server_protocol env"
proof
  fix p bs acts p' consumed change
  assume data: "ph_data (server_protocol env) p bs = (acts, p', Inr (consumed, change))"
    and small: "length bs < 2 ^ 31"
  show "0 \<le> consumed \<and> nat consumed \<le> length bs"
  proof (cases p)
    case (Http h)
    obtain st r where run: "http_on_data (turns_needed bs) env h bs = (st, r)"
      by (cases "http_on_data (turns_needed bs) env h bs")
    with data Http have "consumed = hs_consumed st"
      by (auto simp: server_protocol_def server_data_def rbind_eq_Inr_iff)
    moreover have "http_bounded (int (length bs)) st"
      using run small by (intro http_loop_bounded [of _ "http_start h bs 0 []"])
        (auto simp: http_inv_def http_on_data_def)
    ultimately show ?thesis
      by (simp add: http_bounded_def nat_le_iff)
  next
    case (Ws app w)
    obtain w' r where run: "onDataReceived app bs w = (w', r)"
      by (cases "onDataReceived app bs w")
    with data Ws obtain change' where "r = Inr (consumed, change')"
      by (auto simp: server_protocol_def server_data_def rbind_eq_Inr_iff)
    with run on_data_bounds [of app bs 0 w w' consumed change'] small show ?thesis
      by (simp add: onDataReceived_def nat_le_iff)
  qed
qed

end
