(* ===== verification/Server.thy ===== *)
theory Server
  imports Http
begin

text \<open>
  Server.cpp, with the event loop (simplyfile's \<^verbatim>\<open>Epoll\<close>, not a part of the repository) as the
  environment: the loop holds a handler for every descriptor it was given, calls it when the
  descriptor is ready, and drops it with \<^verbatim>\<open>rmFD\<close>. What \<^verbatim>\<open>accept\<close> and the sockets answer is a
  part of the event.
\<close>

section \<open>State and events\<close>

text \<open>
  The listening sockets, with the registration of each, and the connections the loop holds.
\<close>

record server =
  sv_sockets :: "i32 option list"
  sv_conns :: "nat \<Rightarrow> protocol conn option"

text \<open>The flags the listening socket is registered with.\<close>

definition listen_flags :: i32 where
  "listen_flags = EPOLLIN OR EPOLLONESHOT"

definition make_server :: "server" where
  "make_server = \<lparr>sv_sockets = [], sv_conns = Map.empty\<rparr>"

definition listen :: "server \<Rightarrow> server" where
  "listen sv = sv\<lparr>sv_sockets := sv_sockets sv @ [Some listen_flags]\<rparr>"

text \<open>The constructor that takes a host listens at once.\<close>

definition make_listening_server :: "server" where
  "make_listening_server = listen make_server"

text \<open>\<^verbatim>\<open>~Pimpl\<close>: every listening socket leaves the loop; the connections stay in it.\<close>

definition destroy_server :: "server \<Rightarrow> server" where
  "destroy_server sv = sv\<lparr>sv_sockets := map (\<lambda>registration. None) (sv_sockets sv)\<rparr>"

text \<open>\<^verbatim>\<open>addFD\<close> of a client: a connection that speaks HTTP.\<close>

definition add_client :: "nat \<Rightarrow> server \<Rightarrow> server" where
  "add_client fd sv = sv\<lparr>sv_conns := (sv_conns sv)(fd \<mapsto> accepted (Http None))\<rparr>"

text \<open>The loop that accepts until there is no client (the listed descriptors).\<close>

fun accept_loop :: "nat list \<Rightarrow> server \<Rightarrow> server" where
  "accept_loop [] sv = sv"
| "accept_loop (fd # fds) sv = accept_loop fds (add_client fd sv)"

text \<open>The handler of the listening socket with a number; after another event than input the socket is
  taken from the loop and never accepts again.\<close>

definition on_accept :: "nat \<Rightarrow> i32 \<Rightarrow> nat list \<Rightarrow> server \<Rightarrow> server" where
  "on_accept i flags fds sv =
     (if flags \<noteq> EPOLLIN then sv\<lparr>sv_sockets := (sv_sockets sv)[i := None]\<rparr>
      else (accept_loop fds sv)\<lparr>sv_sockets := (sv_sockets sv)[i := Some listen_flags]\<rparr>)"

text \<open>
  The loop calls the handler of a client's descriptor; \<open>close_conn\<close> is the \<^verbatim>\<open>rmFD\<close> of
  \<^verbatim>\<open>ConnectionHandler::Pimpl::close\<close>, after which the loop has the handler no more.
\<close>

definition client_event :: "server_env \<Rightarrow> i32 \<Rightarrow> send_answer list \<Rightarrow> recv_answer list \<Rightarrow> protocol conn \<Rightarrow>
    protocol conn option \<times> unit result" where
  "client_event env flags sends recvs c =
     (let (c', r) = on_event (server_protocol env) flags (c\<lparr>cn_sends := sends, cn_recvs := recvs\<rparr>)
      in (if cn_open c' then Some c' else None, r))"

datatype server_event = Listens | Accepts nat i32 "nat list" | Client_event nat i32 "send_answer list" "recv_answer list"

definition server_step :: "server_env \<Rightarrow> server_event \<Rightarrow> server \<Rightarrow> server \<times> unit result" where
  "server_step env ev sv =
     (case ev of
        Listens \<Rightarrow> (listen sv, Inr ())
      | Accepts i flags fds \<Rightarrow> (on_accept i flags fds sv, Inr ())
      | Client_event fd flags sends recvs \<Rightarrow>
          (case sv_conns sv fd of
             None \<Rightarrow> (sv, Inr ())
           | Some c \<Rightarrow>
               (let (c', r) = client_event env flags sends recvs c
                in (sv\<lparr>sv_conns := (sv_conns sv)(fd := c')\<rparr>, r))))"

section \<open>Reachable states\<close>

text \<open>An exception of a handler leaves the loop, so the run ends there.\<close>

inductive reachable :: "server_env \<Rightarrow> server \<Rightarrow> bool" for env where
  reachable_start: "reachable env make_server"
| reachable_step: "reachable env sv \<Longrightarrow> server_step env ev sv = (sv', Inr ()) \<Longrightarrow> reachable env sv'"

definition registered :: "server \<Rightarrow> bool" where
  "registered sv \<longleftrightarrow> (\<forall>fd c. sv_conns sv fd = Some c \<longrightarrow> cn_open c \<and> armed_ok c)"

lemma accept_loop_conns:
  "sv_conns (accept_loop fds sv) fd = (if fd \<in> set fds then Some (accepted (Http None)) else sv_conns sv fd)"
  by (induction fds sv rule: accept_loop.induct) (auto simp: add_client_def)

lemma on_accept_conns:
  "sv_conns (on_accept i flags fds sv) fd =
     (if flags = EPOLLIN \<and> fd \<in> set fds then Some (accepted (Http None)) else sv_conns sv fd)"
  by (simp add: on_accept_def accept_loop_conns)

lemma client_event_registered:
  "client_event env flags sends recvs c = (Some c', Inr ()) \<Longrightarrow> cn_open c' \<and> armed_ok c'"
  using armed_on_event [of "server_protocol env" flags "c\<lparr>cn_sends := sends, cn_recvs := recvs\<rparr>" c']
  by (auto simp: client_event_def split: prod.splits if_splits)

lemma registered_step:
  assumes "registered sv" and "server_step env ev sv = (sv', Inr ())"
  shows "registered sv'"
proof (cases ev)
  case Listens
  with assms show ?thesis
    by (auto simp: server_step_def registered_def listen_def)
next
  case (Accepts i flags fds)
  with assms armed_accepted show ?thesis
    by (auto simp: server_step_def registered_def on_accept_conns accepted_def split: if_splits)
next
  case (Client_event fd flags sends recvs)
  with assms client_event_registered show ?thesis
    by (fastforce simp: server_step_def registered_def split: option.splits prod.splits if_splits)
qed

lemma reachable_registered: "reachable env sv \<Longrightarrow> registered sv"
  by (induction rule: reachable.induct) (auto simp: registered_step, simp add: registered_def make_server_def)

text \<open>
  A server that is destroyed leaves its clients in the loop, registered as before: their handlers,
  which refer to its dispatcher, are still called for the next request.
\<close>

lemma clients_outlive_server:
  assumes "reachable env sv" and "sv_conns sv fd = Some c"
  shows "sv_conns (destroy_server sv) fd = Some c \<and> cn_open c \<and> cn_armed c \<noteq> None \<and>
    (\<forall>registration \<in> set (sv_sockets (destroy_server sv)). registration = None)"
  using reachable_registered [OF assms(1)] assms(2)
  by (auto simp: destroy_server_def registered_def armed_ok_def)

text \<open>A listening socket that reports anything but input is lost.\<close>

lemma socket_lost:
  "flags \<noteq> EPOLLIN \<Longrightarrow> i < length (sv_sockets sv) \<Longrightarrow> sv_sockets (on_accept i flags fds sv) ! i = None"
  by (simp add: on_accept_def)

section \<open>One connection\<close>

text \<open>What an event means for the descriptor \<open>fd\<close> alone.\<close>

definition conn_step :: "server_env \<Rightarrow> nat \<Rightarrow> server_event \<Rightarrow> protocol conn option \<Rightarrow> protocol conn option" where
  "conn_step env fd ev c =
     (case ev of
        Listens \<Rightarrow> c
      | Accepts i flags fds \<Rightarrow> if flags = EPOLLIN \<and> fd \<in> set fds then Some (accepted (Http None)) else c
      | Client_event fd' flags sends recvs \<Rightarrow>
          if fd' = fd then Option.bind c (\<lambda>c. fst (client_event env flags sends recvs c)) else c)"

fun concerns :: "nat \<Rightarrow> server_event \<Rightarrow> bool" where
  "concerns fd Listens \<longleftrightarrow> False"
| "concerns fd (Accepts i flags fds) \<longleftrightarrow> fd \<in> set fds"
| "concerns fd (Client_event fd' flags sends recvs) \<longleftrightarrow> fd' = fd"

lemma server_step_conn: "sv_conns (fst (server_step env ev sv)) fd = conn_step env fd ev (sv_conns sv fd)"
  by (auto simp: server_step_def conn_step_def on_accept_conns listen_def split: server_event.split option.split prod.split)

lemma conn_step_other: "\<not> concerns fd ev \<Longrightarrow> conn_step env fd ev c = c"
  by (cases ev) (auto simp: conn_step_def)

section \<open>Why a client leaves\<close>



section \<open>Properties\<close>



text \<open>
  The clients do not affect each other: whatever happens on the server, in whatever order, the
  connection of a descriptor is in the state in which the events of this descriptor alone leave it.
\<close>

lemma clients_isolated:
  "sv_conns (fold (\<lambda>ev sv. fst (server_step env ev sv)) evs sv) fd =
     fold (conn_step env fd) (filter (concerns fd) evs) (sv_conns sv fd)"
  by (induction evs arbitrary: sv) (simp_all add: server_step_conn conn_step_other)

end
