(* ===== verification/Http_Loop.thy ===== *)
theory Http_Loop
  imports Http
begin

text \<open>
  The loop of \<open>HttpProtocol::onDataReceived\<close> as a whole: when it returns, and what it does with
  requests that arrive in one piece, in several pieces, or behind each other.
\<close>

section \<open>Functions that return\<close>

text \<open>The functions of the application return a value or throw: an assumption on the routes.\<close>

definition ws_route_returns :: "('ws, 'h) ws_route \<Rightarrow> bool" where
  "ws_route_returns r \<longleftrightarrow>
     (\<forall>types f. wr_canOpen r = Some (types, f) \<longrightarrow> (\<forall>req args. f req args \<noteq> Inl Out_of_fuel)) \<and>
     (\<forall>types f. wr_onOpen r = Some (types, f) \<longrightarrow> (\<forall>req w args. snd (f req w args) \<noteq> Inl Out_of_fuel))"

definition functions_return :: "('ws, 'h) dispatcher \<Rightarrow> bool" where
  "functions_return d \<longleftrightarrow>
     (\<forall>r \<in> set (dp_routes d). \<forall>req args. rt_ftor r req args \<noteq> Inl Out_of_fuel) \<and>
     (\<forall>r \<in> set (dp_ws_routes d). ws_route_returns r)"

lemma call_route_returns:
  "(\<And>args. rt_ftor r req args \<noteq> Inl Out_of_fuel) \<Longrightarrow> call_route r req caps \<noteq> Inl Out_of_fuel"
  by (auto simp: call_route_eq split: option.splits)

lemma response_of_outcome_fuel:
  "outcome \<noteq> Inl Out_of_fuel \<Longrightarrow> response_of_outcome generator outcome \<noteq> Inl Out_of_fuel"
  by (auto simp: response_of_outcome_def split: sum.splits option.splits fault.splits)

lemma route_request_returns:
  assumes "functions_return d"
  shows "route_request d req \<noteq> Inl Out_of_fuel"
proof (cases "max_element (\<lambda>l r. mi_score l < mi_score r) (collect_matches req (dp_routes d))")
  case (Some best)
  then have "best \<in> set (collect_matches req (dp_routes d))"
    by (auto dest!: first_max_element(1) simp: first_max_def)
  then have "mi_route best \<in> set (dp_routes d)"
    by (auto simp: collect_matches_mem)
  with assms Some show ?thesis
    by (auto simp: route_request_def functions_return_def intro!: response_of_outcome_fuel call_route_returns)
qed (simp add: route_request_def)

lemma canOpen_returns: "ws_route_returns r \<Longrightarrow> canOpen r req \<noteq> Inl Out_of_fuel"
  by (auto simp: canOpen_eq ws_route_returns_def split: option.splits)

lemma onOpen_returns: "ws_route_returns r \<Longrightarrow> snd (onOpen r req w) \<noteq> Inl Out_of_fuel"
  by (auto simp: onOpen_eq ws_route_returns_def incorrect_request_def split: option.splits)

lemma first_open_returns:
  "\<forall>r \<in> set rs. ws_route_returns r \<Longrightarrow>
   first_open req rs \<noteq> Inl Out_of_fuel \<and> (\<forall>r. first_open req rs = Inr r \<longrightarrow> r \<in> set rs)"
proof (induction rs)
  case (Cons r rs)
  then show ?case
    using canOpen_returns [of r req] by (auto simp: rbind_eq_Inl_iff rbind_eq_Inr_iff)
qed simp

lemma serialize_returns: "serialize r \<noteq> Inl Out_of_fuel"
  by (auto simp: serialize_text out_of_range_def split: option.splits)

lemma check_upgrade_returns: "check_upgrade hdr \<noteq> Inl Out_of_fuel"
  by (auto simp: check_upgrade_def split: option.splits)

lemma connection_upgrade_returns:
  assumes "functions_return (se_dispatcher env)"
  shows "snd (connection_upgrade env req) \<noteq> Inl Out_of_fuel"
proof -
  have routes: "\<forall>r \<in> set (dp_ws_routes (se_dispatcher env)). ws_route_returns r"
    using assms by (simp add: functions_return_def)
  show ?thesis
  proof (cases "\<exists>key route out. check_upgrade (rq_header req) = Inr key \<and>
      routeWS (se_dispatcher env) req = Inr route \<and> serialize (upgrade_response (se_sha1 env) key) = Inr out")
    case False
    with check_upgrade_returns [of "rq_header req"] first_open_returns [OF routes, of req] serialize_returns
    show ?thesis
      by (auto simp: connection_upgrade_def routeWS_def split: sum.split)
  next
    case True
    then obtain key route out where "check_upgrade (rq_header req) = Inr key"
      and route: "routeWS (se_dispatcher env) req = Inr route"
      and "serialize (upgrade_response (se_sha1 env) key) = Inr out"
      by blast
    moreover have "snd (onOpen route req new_ws) \<noteq> Inl Out_of_fuel"
      using first_open_returns [OF routes, of req] route routes
      by (intro onOpen_returns) (simp add: routeWS_def)
    ultimately show ?thesis
      by (cases "onOpen route req new_ws") (auto simp: connection_upgrade_def Let_def split: sum.split)
  qed
qed

lemma read_body_args_returns:
  assumes "small_values n (h_fields hdr)" and "n < npos32" and "length message < npos32"
  shows "read_body_args hdr message \<noteq> Inl Out_of_fuel"
proof (cases "umm_find ''content-type'' (h_fields hdr)")
  case (Some v)
  with assms have "length v < npos32"
    using small_values_find by fastforce
  with Some assms(3) show ?thesis
    by (auto simp: read_body_args_def rbind_eq_Inl_iff extractFieldVals_fuel readMultipartBody_fuel
        split: list.splits field_val.splits if_splits option.splits)
qed (simp add: read_body_args_def)

lemma wants_upgrade_returns:
  assumes "small_values n (h_fields hdr)" and "n < npos32"
  shows "wants_upgrade hdr \<noteq> Inl Out_of_fuel"
proof (cases "umm_find ''connection'' (h_fields hdr)")
  case (Some v)
  with assms have "length v < npos32"
    using small_values_find by fastforce
  with Some show ?thesis
    by (simp add: wants_upgrade_def rbind_eq_Inl_iff extractFieldVals_fuel)
qed (simp add: wants_upgrade_def)

lemma read_body_args_fields: "read_body_args hdr message = Inr hdr' \<Longrightarrow> h_fields hdr' = h_fields hdr"
  by (auto simp: read_body_args_def rbind_eq_Inr_iff split: option.splits list.splits field_val.splits if_splits)

lemma answer_request_returns:
  assumes "functions_return (se_dispatcher env)" and "small_values n (h_fields hdr)" and "n < npos32"
    and "length message < npos32"
  shows "snd (answer_request env hdr message) \<noteq> Inl Out_of_fuel"
proof -
  have "rbind (read_body_args hdr message) (\<lambda>hdr. rbind (wants_upgrade hdr) (\<lambda>up. Inr (hdr, up))) \<noteq> Inl Out_of_fuel"
    using assms read_body_args_returns wants_upgrade_returns read_body_args_fields
    by (auto simp: rbind_eq_Inl_iff)
  moreover have "rbind (route_request (se_dispatcher env) req) serialize \<noteq> Inl Out_of_fuel" for req
    using route_request_returns [OF assms(1)] serialize_returns by (auto simp: rbind_eq_Inl_iff)
  moreover have "connection_upgrade env req \<noteq> (acts, Inl Out_of_fuel)" for req acts
    using connection_upgrade_returns [OF assms(1), of req] by (metis snd_conv)
  ultimately show ?thesis
    by (auto simp: answer_request_def Let_def rbind_eq_Inl_iff split: sum.splits prod.splits)
qed

section \<open>Termination\<close>

text \<open>A malformed header at the front of the data: the loop finds it again in every turn.\<close>

definition malformed :: "http_state \<Rightarrow> bool" where
  "malformed st \<longleftrightarrow>
     (case snd (take_header st) of Inl (Http_error code what) \<Rightarrow> code < 500 | _ \<Rightarrow> False)"

definition small_header :: "header option \<Rightarrow> bool" where
  "small_header h \<longleftrightarrow> (case h of None \<Rightarrow> True | Some hdr \<Rightarrow> small_values (npos32 - 1) (h_fields hdr))"

definition http_fit :: "int \<Rightarrow> http_state \<Rightarrow> bool" where
  "http_fit n st \<longleftrightarrow> http_inv n st \<and> small_header (hs_header st)"

definition turns :: "http_state \<Rightarrow> nat" where
  "turns st = length (hs_received st) + (if hs_header st = None then 0 else 1)"

lemma turns_acts [simp]: "turns (st\<lparr>hs_acts := acts\<rparr>) = turns st" "http_fit n (st\<lparr>hs_acts := acts\<rparr>) = http_fit n st"
  by (simp_all add: turns_def http_fit_def)

lemma take_header_acts:
  "take_header (st\<lparr>hs_acts := acts\<rparr>) = (case take_header st of (st', r) \<Rightarrow> (st'\<lparr>hs_acts := acts\<rparr>, r))"
  by (auto simp: take_header_def Let_def split: option.splits sum.splits)

lemma malformed_acts [simp]: "malformed (st\<lparr>hs_acts := acts\<rparr>) = malformed st"
  by (auto simp: malformed_def take_header_acts split: prod.splits)

lemma small_header_parsed:
  assumes "parse_header text = Inr hdr" and "length text < npos32"
  shows "small_header (Some hdr)"
  using parse_header_small [OF assms(1)] assms(2) by (auto simp: small_header_def small_values_def npos32_def)

lemma take_header_fault:
  assumes "take_header st = (st', Inl e)"
  shows "e = out_of_range \<or> st' = st \<and> (\<exists>text. length text \<le> length (hs_received st) \<and> parse_header text = Inl e)"
proof (cases "\<exists>i. hs_header st = None \<and> find_sub (bytes_of_string (crlf @ crlf)) (hs_received st) 0 = Some i")
  case True
  then obtain i where i: "hs_header st = None" "find_sub (bytes_of_string (crlf @ crlf)) (hs_received st) 0 = Some i"
    by blast
  show ?thesis
  proof (cases "parse_header (string_of_bytes (take (i + 2) (hs_received st)))")
    case (Inl e')
    with i assms show ?thesis
      by (auto simp: take_header_def intro!: exI [of _ "string_of_bytes (take (i + 2) (hs_received st))"])
  next
    case (Inr hdr)
    with i assms show ?thesis
      by (auto simp: take_header_def Let_def substr_from_def split: if_splits)
  qed
next
  case False
  with assms show ?thesis
    by (auto simp: take_header_def split: option.splits)
qed

lemma take_header_progress:
  assumes "http_fit n st" and "take_header st = (st', Inr ())"
  shows "http_fit n st'" and "turns st' \<le> turns st"
proof -
  have small: "length (hs_received st) < npos32"
    using assms(1) by (simp add: http_fit_def http_inv_def npos32_def)
  have "small_header (hs_header st') \<and> turns st' \<le> turns st"
  proof (cases "hs_header st = None \<and> hs_header st' \<noteq> None")
    case False
    with assms show ?thesis
      by (auto simp: take_header_def Let_def http_fit_def turns_def substr_from_def split: option.splits sum.splits if_splits)
  next
    case True
    with assms(2) obtain i hdr where i: "find_sub (bytes_of_string (crlf @ crlf)) (hs_received st) 0 = Some i"
      and hdr: "parse_header (string_of_bytes (take (i + 2) (hs_received st))) = Inr hdr"
      and st': "hs_header st' = Some hdr"
        "hs_received st' = drop (nat (to_int32 (hs_consumed st + int (i + 4)) mod 2 ^ 64)) (hs_received st)"
      by (auto simp: take_header_def Let_def substr_from_def split: option.splits sum.splits if_splits)
    from i have bound: "i + 4 \<le> length (hs_received st)"
      by (auto dest: find_sub_bounds simp: crlf_def)
    have "to_int32 (hs_consumed st + int (i + 4)) = hs_consumed st + int (i + 4)"
      using assms(1) bound by (intro to_int32_id) (auto simp: http_fit_def http_inv_def)
    then have "4 \<le> nat (to_int32 (hs_consumed st + int (i + 4)) mod 2 ^ 64)"
      using assms(1) bound by (subst mod_pos_pos_trivial) (auto simp: http_fit_def http_inv_def)
    then have "turns st' \<le> turns st"
      using bound True st' by (auto simp: turns_def)
    moreover have "small_header (hs_header st')"
      unfolding st' using small by (intro small_header_parsed [OF hdr]) simp
    ultimately show ?thesis
      by simp
  qed
  moreover have "http_inv n st'"
    using take_header_inv [of n st st' "Inr ()"] assms by (simp add: http_fit_def)
  ultimately show "http_fit n st'" and "turns st' \<le> turns st"
    by (simp_all add: http_fit_def)
qed

lemma http_turn_progress:
  assumes "functions_return (se_dispatcher env)" and "http_fit n st" and "http_turn env st = (st', r)"
  shows "r \<noteq> Inl Out_of_fuel"
    and "r = Inr (Answered change) \<Longrightarrow> http_fit n st' \<and> turns st' < turns st"
    and "r = Inl (Http_error code what) \<Longrightarrow> code < 500 \<Longrightarrow>
      http_fit n st' \<and> (turns st' < turns st \<or> malformed st \<and> st' = st)"
proof -
  have small: "length (hs_received st) < npos32"
    using assms(2) by (simp add: http_fit_def http_inv_def npos32_def)
  obtain st1 r1 where header: "take_header st = (st1, r1)"
    by (cases "take_header st")
  have "r \<noteq> Inl Out_of_fuel \<and> (r = Inr (Answered change) \<longrightarrow> http_fit n st' \<and> turns st' < turns st) \<and>
    (r = Inl (Http_error code what) \<and> code < 500 \<longrightarrow>
      http_fit n st' \<and> (turns st' < turns st \<or> malformed st \<and> st' = st))"
  proof (cases r1)
    case (Inl e)
    with assms(3) header have "r = Inl e" "st' = st1"
      by (simp_all add: http_turn_def)
    moreover have "e \<noteq> Out_of_fuel"
      using take_header_fault [OF header [unfolded Inl]] small parse_header_fuel
      by (auto simp: out_of_range_def)
    moreover have "e = Http_error code what \<Longrightarrow> st1 = st"
      using take_header_fault [OF header [unfolded Inl]] by (auto simp: out_of_range_def)
    ultimately show ?thesis
      using header Inl assms(2) by (auto simp: malformed_def)
  next
    case (Inr u)
    note progress = take_header_progress [OF assms(2) header [unfolded Inr, simplified]]
    show ?thesis
    proof (cases "\<exists>h. hs_header st1 = Some h \<and> h_content_length h \<le> length (hs_received st1)")
      case False
      with assms(3) header Inr show ?thesis
        by (auto simp: http_turn_def split: option.splits if_splits)
    next
      case True
      then obtain h where h: "hs_header st1 = Some h" "h_content_length h \<le> length (hs_received st1)"
        by blast
      obtain acts answered where answer: "answer_request env h (take (h_content_length h) (hs_received st1)) = (acts, answered)"
        by (cases "answer_request env h (take (h_content_length h) (hs_received st1))")
      have "length (hs_received st1) < npos32" "small_values (npos32 - 1) (h_fields h)"
        using progress(1) h by (simp_all add: http_fit_def http_inv_def npos32_def small_header_def)
      then have "answered \<noteq> Inl Out_of_fuel"
        using answer_request_returns [OF assms(1), of "npos32 - 1" h "take (h_content_length h) (hs_received st1)"] answer
        by (simp add: npos32_def)
      moreover have "to_int32 (hs_consumed st1 + int (h_content_length h)) = hs_consumed st1 + int (h_content_length h)"
        using progress(1) h by (intro to_int32_id) (auto simp: http_fit_def http_inv_def)
      then have "http_fit n st' \<and> turns st' < turns st1"
        using progress(1) h answer assms(3) header Inr
        by (auto simp: http_turn_def Let_def http_fit_def http_inv_def small_header_def turns_def)
      ultimately show ?thesis
        using assms(3) header Inr h answer progress(2)
        by (auto simp: http_turn_def Let_def rbind_eq_Inl_iff)
    qed
  qed
  then show "r \<noteq> Inl Out_of_fuel"
    and "r = Inr (Answered change) \<Longrightarrow> http_fit n st' \<and> turns st' < turns st"
    and "r = Inl (Http_error code what) \<Longrightarrow> code < 500 \<Longrightarrow>
      http_fit n st' \<and> (turns st' < turns st \<or> malformed st \<and> st' = st)"
    by simp_all
qed

lemma http_turn_malformed: "malformed st \<Longrightarrow> \<exists>code what. http_turn env st = (st, Inl (Http_error code what)) \<and> code < 500"
  using take_header_fault [of st "fst (take_header st)"]
  by (cases "take_header st") (auto simp: malformed_def http_turn_def out_of_range_def split: sum.splits fault.splits)

lemma http_catch_fuel: "e \<noteq> Out_of_fuel \<Longrightarrow> snd (http_catch env e st) \<noteq> Inl Out_of_fuel"
  using serialize_returns
  by (auto simp: http_catch_def error_of_fault_def split: sum.splits fault.splits)

lemma http_loop_ends:
  "functions_return (se_dispatcher env) \<Longrightarrow> malformed st \<or> http_fit n st \<and> turns st < fuel \<Longrightarrow>
   http_loop fuel env st = (st', Inl Out_of_fuel) \<Longrightarrow> malformed st'"
proof (induction fuel arbitrary: st)
  case (Suc fuel)
  obtain st1 r1 where turn: "http_turn env st = (st1, r1)"
    by (cases "http_turn env st")
  show ?case
  proof (cases "\<exists>e. r1 = Inl e")
    case False
    with Suc.prems(2) turn have fit: "http_fit n st" "turns st < Suc fuel"
      using http_turn_malformed [of st env] by auto
    from False obtain e where "r1 = Inr e"
      by (cases r1) auto
    with Suc.IH [of st1] Suc.prems(1,3) turn fit http_turn_progress(2) [OF Suc.prems(1) fit(1) turn] show ?thesis
      by (cases e) (auto simp: http_loop_stop http_loop_answered split: option.splits)
  next
    case True
    then obtain e where e: "r1 = Inl e"
      by blast
    obtain st2 r2 where catch: "http_catch env e st1 = (st2, r2)"
      by (cases "http_catch env e st1")
    from http_catch_state [OF catch] obtain acts where st2: "st2 = st1\<lparr>hs_acts := hs_acts st1 @ acts\<rparr>"
      by blast
    have "e \<noteq> Out_of_fuel"
      using http_turn_malformed [of st env] http_turn_progress(1) [OF Suc.prems(1) _ turn] Suc.prems(2) turn e by auto
    with catch have "r2 \<noteq> Inl Out_of_fuel"
      using http_catch_fuel [of e env st1] by auto
    with Suc.prems(3) turn e catch have r2: "r2 = Inr None" "http_loop fuel env st2 = (st', Inl Out_of_fuel)"
      by (auto simp: http_loop_fault split: sum.splits option.splits)
    with catch http_catch_continues obtain code what where code: "e = Http_error code what" "code < 500"
      by blast
    have "malformed st1 \<or> http_fit n st1 \<and> turns st1 < fuel"
      using Suc.prems(2) http_turn_malformed [of st env] turn
        http_turn_progress(3) [OF Suc.prems(1) _ turn, of n code what] code e by auto
    with Suc.IH [OF Suc.prems(1) _ r2(2)] show ?thesis
      by (simp add: st2)
  qed
qed simp

text \<open>The fuel is no part of the result: more of it changes nothing.\<close>

lemma http_loop_more_fuel:
  "snd (http_loop fuel env st) \<noteq> Inl Out_of_fuel \<Longrightarrow> http_loop (fuel + k) env st = http_loop fuel env st"
proof (induction fuel arbitrary: st)
  case (Suc fuel)
  obtain st1 r1 where turn: "http_turn env st = (st1, r1)"
    by (cases "http_turn env st")
  show ?case
  proof (cases r1)
    case (Inr e)
    with Suc turn show ?thesis
      by (cases e) (auto simp: http_loop_stop http_loop_answered split: option.splits)
  next
    case (Inl e)
    with Suc turn show ?thesis
      by (cases "http_catch env e st1") (auto simp: http_loop_fault split: sum.splits option.splits)
  qed
qed simp

lemma http_on_data_ends:
  assumes "functions_return (se_dispatcher env)" and "length bs < 2 ^ 31" and "small_header h"
    and "turns_needed bs \<le> fuel" and "http_on_data fuel env h bs = (st, Inl Out_of_fuel)"
  shows "malformed st"
proof (rule http_loop_ends [OF assms(1)])
  show "http_loop fuel env (http_start h bs 0 []) = (st, Inl Out_of_fuel)"
    using assms(5) by (simp add: http_on_data_def)
  show "malformed (http_start h bs 0 []) \<or>
      http_fit (int (length bs)) (http_start h bs 0 []) \<and> turns (http_start h bs 0 []) < fuel"
    using assms(2-4) by (auto simp: http_fit_def http_inv_def turns_def turns_needed_def)
qed

section \<open>A request as a client writes it\<close>

definition request_head :: "string \<Rightarrow> string \<Rightarrow> string \<Rightarrow> (string \<times> string) list \<Rightarrow> bytes" where
  "request_head m raw_url v fs = bytes_of_string (request_text m raw_url v fs @ crlf)"

lemma index_sub_map: "inj f \<Longrightarrow> index_sub (map f pat) (map f xs) = index_sub pat xs"
proof (induction xs)
  case (Cons x xs)
  have "take (length (map f pat)) (map f (x # xs)) = map f pat \<longleftrightarrow> take (length pat) (x # xs) = pat"
    using Cons.prems by (simp only: length_map take_map inj_map_eq_map)
  with Cons show ?case
    by simp
qed simp

lemma inj_byte_of_char: "inj byte_of_char"
  by (rule inj_on_inverseI [of _ char_of_byte]) simp

lemma request_text_lines:
  "request_text m raw_url v fs =
     concat (map (\<lambda>l. l @ crlf) ((m @ '' '' @ raw_url @ '' '' @ v) # map field_line fs))"
  by (simp add: request_text_def comp_def)

lemma request_head_block:
  assumes "clean_word m" and "clean_word raw_url" and "CHR 0x0D \<notin> set v" and "\<forall>nv \<in> set fs. clean_field nv"
    and "parse_header (request_text m raw_url v fs) = parsed"
  shows "header_block (request_head m raw_url v fs) parsed"
proof -
  let ?lines = "(m @ '' '' @ raw_url @ '' '' @ v) # map field_line fs"
  have "index_sub (crlf @ crlf) (concat (map (\<lambda>l. l @ crlf) ?lines) @ crlf @ []) =
      Some (length (concat (map (\<lambda>l. l @ crlf) ?lines)) - 2)"
    using assms(1-4) by (intro index_empty_line) (auto simp: clean_word_def field_line_no_cr)
  then have "index_sub blank_line (request_head m raw_url v fs) = Some (length (request_text m raw_url v fs) - 2)"
    unfolding request_text_lines [symmetric] blank_line_def request_head_def
    by (simp only: index_sub_map [OF inj_byte_of_char] append_Nil2)
  moreover have "length (request_head m raw_url v fs) = length (request_text m raw_url v fs) + 2"
    by (simp add: request_head_def crlf_def)
  moreover have "2 \<le> length (request_text m raw_url v fs)"
    by (simp add: request_text_def)
  moreover have "string_of_bytes (take (length (request_text m raw_url v fs)) (request_head m raw_url v fs)) =
      request_text m raw_url v fs"
    by (simp add: request_head_def comp_def)
  ultimately show ?thesis
    using assms(5) by (simp add: header_block_def)
qed

text \<open>What a client has to respect for its request to be read as it was written.\<close>

definition clean_request ::
    "string \<Rightarrow> string \<Rightarrow> field_val list \<Rightarrow> string \<Rightarrow> (string \<times> string) list \<Rightarrow> field_val list list \<Rightarrow> nat option \<Rightarrow> bool" where
  "clean_request m path query v fs css len \<longleftrightarrow>
     clean_word m \<and> clean_path path \<and> clean_query query \<and> CHR 0x0D \<notin> set v \<and> (\<forall>nv \<in> set fs. clean_field nv) \<and>
     umm_equal_range ''cookie'' (lower_names fs) = map cookie_text css \<and> (\<forall>cs \<in> set css. clean_cookies cs) \<and>
     umm_find ''content-length'' (lower_names fs) = map_option nat_to_string len \<and>
     (case len of None \<Rightarrow> True | Some n \<Rightarrow> n \<le> size_max) \<and>
     length (request_text m (target path query) v fs) < npos32"

lemma clean_request_block:
  assumes "clean_request m path query v fs css len"
  shows "header_block (request_head m (target path query) v fs) (Inr (expected_header m path query v fs css len))"
proof (rule request_head_block)
  show "parse_header (request_text m (target path query) v fs) = Inr (expected_header m path query v fs css len)"
    using assms unfolding clean_request_def by (elim conjE) (rule parse_expected_header)
  show "clean_word (target path query)"
    using assms target_clean(1) by (simp add: clean_request_def)
qed (use assms in \<open>simp_all add: clean_request_def\<close>)

text \<open>The \<^verbatim>\<open>Connection\<close> field a client writes: a list of options.\<close>

definition connection_text :: "field_val list \<Rightarrow> string" where
  "connection_text options = join_values '', '' (map value_text options)"

lemma wants_upgrade_list:
  assumes "umm_find ''connection'' (h_fields hdr) = Some (connection_text options)" and "options \<noteq> []"
    and "\<forall>c \<in> set options. clean_value '',;'' c" and "length (connection_text options) < npos32"
  shows "wants_upgrade hdr = Inr (\<exists>s. Single s \<in> set options \<and> ignore_case_cmp s ''upgrade'')"
proof -
  have "extractFieldVals (connection_text options) '',;'' = Inr options"
    using extractFieldVals_list [of "map value_text options" "'',;''" "CHR '',''" "'' ''" "[]"]
      assms(2-4) read_clean_values [of options "'',;''"]
    by (simp add: connection_text_def clean_value_plain spaces_def)
  with assms(1) have "wants_upgrade hdr =
      Inr (\<exists>f \<in> set options. case f of Single s \<Rightarrow> ignore_case_cmp s ''upgrade'' | KV k v \<Rightarrow> False)"
    by (simp add: wants_upgrade_def)
  also have "(\<exists>f \<in> set options. case f of Single s \<Rightarrow> ignore_case_cmp s ''upgrade'' | KV k v \<Rightarrow> False) \<longleftrightarrow>
      (\<exists>s. Single s \<in> set options \<and> ignore_case_cmp s ''upgrade'')"
    (is "?l \<longleftrightarrow> ?r")
  proof
    assume ?l
    then obtain f where "f \<in> set options" "case f of Single s \<Rightarrow> ignore_case_cmp s ''upgrade'' | KV k v \<Rightarrow> False"
      by blast
    then show ?r
      by (auto split: field_val.splits)
  next
    assume ?r
    then show ?l
      by force
  qed
  finally show ?thesis .
qed

text \<open>A request that is routed, with the response the route gives.\<close>

lemma answered_with_response:
  assumes "header_block block (Inr hdr)" and "h_content_length hdr = length body"
    and "read_body_args hdr body = Inr hdr'" and "wants_upgrade hdr' = Inr False"
    and "route_request (se_dispatcher env) \<lparr>rq_header = hdr', rq_message_body = body\<rparr> = Inr resp"
    and "serialize resp = Inr out"
  shows "answered_with env block body [Write out No_callback] hdr"
  using assms by (simp add: answered_with_def answer_request_def moved_from_string_def)

text \<open>No version ends the connection: the comparison sees the header after it was moved away.\<close>

lemma http_10_kept_open:
  assumes "read_body_args hdr body = Inr hdr'" and "wants_upgrade hdr' = Inr False"
    and "answer_request env hdr body = (acts, Inr change)"
  shows "change = None"
  using assms by (auto simp: answer_request_def moved_from_string_def split: sum.splits)

lemma answered_with_write:
  assumes "answered_with env block body acts hdr"
  shows "\<exists>out. acts = [Write out No_callback]"
  using assms
  by (auto simp: answered_with_def answer_request_def Let_def rbind_eq_Inr_iff split: sum.splits if_splits prod.splits)

section \<open>The answer to an upgrade\<close>

lemma b64_digit_mem: "b64_digit n \<in> set base64_chars"
  unfolding b64_digit_def by (rule nth_mem) (simp add: base64_chars_def)

lemma set_base64_encode: "set (base64_encode s) \<subseteq> insert CHR ''='' (set base64_chars)"
  unfolding base64_encode_eq_ref
  by (induction s rule: rfc4648_encode.induct) (auto simp: Let_def b64_digit_mem)

lemma clean_accept_key:
  assumes "length (sha1 (bytes_of_string (key @ magic_ws_guid))) = 20"
  shows "clean_field (''Sec-WebSocket-Accept'', accept_key sha1 key)" and "length (accept_key sha1 key) = 28"
proof -
  show len: "length (accept_key sha1 key) = 28"
    using assms by (simp add: accept_key_def length_base64_encode)
  then have "accept_key sha1 key \<noteq> []"
    by auto
  moreover have "list_all (\<lambda>c. \<not> List.member (CHR ''%'' # CHR 0x0D # illegal_chars) c) (CHR ''='' # base64_chars)"
    by code_simp
  then have legal: "\<forall>c \<in> insert CHR ''='' (set base64_chars). c \<notin> {CHR ''%'', CHR 0x0D} \<union> set illegal_chars"
    by (simp add: list_all_iff)
  have "\<forall>c \<in> set (accept_key sha1 key). c \<notin> {CHR ''%'', CHR 0x0D} \<union> set illegal_chars"
    using legal subsetD [OF set_base64_encode] unfolding accept_key_def by (intro ballI) metis
  moreover have "clean_field (''Sec-WebSocket-Accept'', ''x'')"
    by (simp add: clean_field_def illegal_chars_def)
  ultimately show "clean_field (''Sec-WebSocket-Accept'', accept_key sha1 key)"
    unfolding clean_field_def fst_conv snd_conv disjoint_iff by (metis UnCI hd_in_set last_in_set)
qed

lemma upgrade_response_fields:
  "rs_fields (upgrade_response sha1 key) =
    [(''Connection'', ''Upgrade''), (''Content-Type'', ''text/html, charset=utf-8''),
     (''Sec-WebSocket-Accept'', accept_key sha1 key), (''Upgrade'', ''websocket'')]"
  by (simp add: upgrade_response_def default_response_def Let_def)

lemma serialize_upgrade:
  assumes "length (sha1 (bytes_of_string (key @ magic_ws_guid))) = 20"
  shows "\<exists>out. serialize (upgrade_response sha1 key) = Inr out \<and>
    client_read out = Some (''HTTP/1.1 101 Switching Protocols'',
      [(''connection'', ''Upgrade''), (''content-type'', ''text/html, charset=utf-8''),
       (''sec-websocket-accept'', accept_key sha1 key), (''upgrade'', ''websocket'')], [])"
proof -
  let ?r = "upgrade_response sha1 key"
  have sent: "sent_fields ?r = rs_fields ?r" "rs_message_body ?r = None"
    by (simp_all add: sent_fields_def) (simp_all add: upgrade_response_def default_response_def Let_def)
  have reason: "reason_of ?r = Some ''Switching Protocols''"
    by (simp add: reason_of_def upgrade_response_def default_response_def Let_def code2reason_def)
  have line: "status_line ?r ''Switching Protocols'' = ''HTTP/1.1 101 Switching Protocols''"
    by (simp add: status_line_def upgrade_response_def default_response_def Let_def int_to_string_def
        nat_to_string.simps digit_char_def char_of_def bit_0)
  have clean: "\<forall>nv \<in> set (rs_fields ?r). clean_field nv"
    using clean_accept_key(1) [of sha1 key, OF assms]
    by (simp add: upgrade_response_fields) (simp add: clean_field_def illegal_chars_def)
  have "length (concat (map (\<lambda>nv. field_line nv @ crlf) (sent_fields ?r))) < npos32"
    using clean_accept_key(2) [of sha1 key, OF assms]
    by (simp add: sent upgrade_response_fields field_line_def crlf_def npos32_def)
  from client_read_text [OF _ clean_sent_fields [OF clean] this, of "status_line ?r ''Switching Protocols''" "[]"] sent
  have "client_read (bytes_of_string (status_line ?r ''Switching Protocols'' @ crlf @
      concat (map (\<lambda>nv. field_line nv @ crlf) (sent_fields ?r)) @ crlf) @ []) =
    Some (''HTTP/1.1 101 Switching Protocols'', lower_names (rs_fields ?r), [])"
    by (simp add: line clean_line_def)
  moreover have "lower_names (rs_fields ?r) =
      [(''connection'', ''Upgrade''), (''content-type'', ''text/html, charset=utf-8''),
       (''sec-websocket-accept'', accept_key sha1 key), (''upgrade'', ''websocket'')]"
    by (simp add: upgrade_response_fields lower_names_def to_lower_def tolower_def char_of_def bit_0)
  ultimately show ?thesis
    using reason sent(2) by (simp add: serialize_text)
qed

text \<open>A request for a websocket.\<close>

definition upgrade_request :: "header \<Rightarrow> string \<Rightarrow> bool" where
  "upgrade_request hdr key \<longleftrightarrow> wants_upgrade hdr = Inr True \<and> h_content_length hdr = 0 \<and>
     umm_find ''content-type'' (h_fields hdr) = None \<and> check_upgrade hdr = Inr key"

lemma http_upgraded:
  assumes "header_block block (Inr hdr)" and "upgrade_request hdr key" and "length block < 2 ^ 31"
    and "routeWS (se_dispatcher env) \<lparr>rq_header = hdr, rq_message_body = []\<rparr> = Inr route"
    and "onOpen route \<lparr>rq_header = hdr, rq_message_body = []\<rparr> new_ws = (w, Inr ())"
    and "serialize (upgrade_response (se_sha1 env) key) = Inr out"
  shows "http_on_data (Suc fuel) env None (block @ rest) =
    (http_start None rest (int (length block)) (Write out No_callback # conn_actions (ws_trace w)),
     Inr (Some (Some (Ws (getHandler route) (setHandler w)))))"
proof -
  have "answer_request env hdr [] = (Write out No_callback # conn_actions (ws_trace w),
      Inr (Some (Some (Ws (getHandler route) (setHandler w)))))"
    using assms(2,4-6) by (simp add: upgrade_request_def answer_request_def read_body_args_def connection_upgrade_def)
  from http_turn_answer [OF _ _ _ this, of "int (length block)" rest "[]"]
    http_turn_block [OF assms(1), of 0 rest env "[]"] assms(2,3)
  have "http_turn env (http_start None (block @ rest) 0 []) =
      (http_start None rest (int (length block)) (Write out No_callback # conn_actions (ws_trace w)),
       Inr (Answered (Some (Some (Ws (getHandler route) (setHandler w))))))"
    by (simp add: upgrade_request_def)
  from http_loop_answered [OF this, of fuel] show ?thesis
    by (simp add: http_on_data_def)
qed

text \<open>A small server for the examples: every request is routed to a function that answers with one byte.\<close>

definition example_env :: server_env where
  "example_env = \<lparr>se_dispatcher = \<lparr>dp_error_body_generator = None,
       dp_routes = [\<lparr>rt_address = 1, rt_pattern = (\<lambda>s. Some []), rt_methods = [''GET''], rt_types = [],
          rt_ftor = (\<lambda>req args. Inr (Some (response_of_body [33])))\<rparr>],
       dp_ws_routes = [\<lparr>wr_address = 2, wr_pattern = (\<lambda>s. Some []), wr_canOpen = None, wr_onOpen = None,
          wr_handler = default_app\<rparr>]\<rparr>, se_sha1 = (\<lambda>bs. bs)\<rparr>"

definition example_out :: bytes where
  "example_out = (case serialize (response_of_body [33]) of Inr out \<Rightarrow> out | Inl e \<Rightarrow> [])"

definition example_block :: bytes where
  "example_block = request_head ''GET'' ''/'' ''HTTP/1.1'' []"

definition example_header :: header where
  "example_header = expected_header ''GET'' ''/'' [] ''HTTP/1.1'' [] [] None"

lemma example_header_block: "header_block example_block (Inr example_header)"
  using parse_expected_header [of "''GET''" "''/''" "[]" "''HTTP/1.1''" "[]" "[]" None]
  unfolding example_block_def example_header_def
  by (intro request_head_block) (simp_all add: clean_defs text_defs npos32_def size_max_def umm_equal_range_def umm_find_def
      lower_names_def)

lemma example_answered: "answered_with example_env example_block [] [Write example_out No_callback] example_header"
  by (rule answered_with_response [OF example_header_block, where hdr' = example_header and resp = "response_of_body [33]"])
    (simp_all add: example_env_def example_out_def example_header_def expected_header_def read_body_args_def
      wants_upgrade_def umm_find_def lower_names_def route_request_def match_route_def max_element_def call_route_eq
      response_of_outcome_def serialize_def response_of_body_def default_response_def code2reason_def)

lemma example_returns: "functions_return (se_dispatcher example_env)"
  by (simp add: functions_return_def ws_route_returns_def example_env_def)

section \<open>The handshake of a client\<close>

text \<open>
  The fields with which a client asks for a websocket (RFC 6455): the key it has chosen, the version,
  \<^verbatim>\<open>Upgrade\<close> and the option \<^verbatim>\<open>upgrade\<close> of \<^verbatim>\<open>Connection\<close>, in any case of letters.
\<close>

definition asks_for_websocket :: "(string \<times> string) list \<Rightarrow> field_val list \<Rightarrow> string \<Rightarrow> bool" where
  "asks_for_websocket fs options key \<longleftrightarrow>
     umm_find ''sec-websocket-key'' (lower_names fs) = Some key \<and>
     umm_find ''sec-websocket-version'' (lower_names fs) = Some ''13'' \<and>
     map_option to_lower (umm_find ''upgrade'' (lower_names fs)) = Some ''websocket'' \<and>
     umm_find ''connection'' (lower_names fs) = Some (connection_text options) \<and>
     (\<forall>c \<in> set options. clean_value '',;'' c) \<and>
     (\<exists>c \<in> set options. case c of Single s \<Rightarrow> to_lower s = ''upgrade'' | KV _ _ \<Rightarrow> False) \<and>
     umm_find ''content-type'' (lower_names fs) = None"

lemma ignore_case_cmp_lower: "ignore_case_cmp l r \<longleftrightarrow> to_lower l = to_lower r"
  by (auto simp: ignore_case_cmp_def to_lower_def list_all2_conv_all_nth list_eq_iff_nth_eq)

lemma lower_websocket: "to_lower ''websocket'' = ''websocket''" and lower_upgrade: "to_lower ''upgrade'' = ''upgrade''"
  by (simp_all add: to_lower_def tolower_def)

lemma field_found_length:
  assumes "umm_find k (lower_names fs) = Some v"
  shows "length v \<le> length (request_text m url version fs)"
proof -
  from assms obtain nv where "nv \<in> set fs" "v = snd nv"
    using map_of_SomeD [of "lower_names fs" k v] by (auto simp: umm_find_def lower_names_def)
  with field_value_length [of nv fs] show ?thesis
    by (simp add: request_text_def)
qed

lemma asks_upgrade_request:
  assumes "clean_request ''GET'' path query v fs css None" and "asks_for_websocket fs options key"
  shows "upgrade_request (expected_header ''GET'' path query v fs css None) key"
proof -
  let ?hdr = "expected_header ''GET'' path query v fs css None"
  note asks = assms(2) [unfolded asks_for_websocket_def]
  have hdr: "h_fields ?hdr = lower_names fs" "h_method ?hdr = ''GET''" "h_content_length ?hdr = 0"
    by (simp_all add: expected_header_def)
  have "length (request_text ''GET'' (target path query) v fs) < npos32"
    using assms(1) by (simp add: clean_request_def)
  then have short: "length (connection_text options) < npos32"
    using field_found_length [of "''connection''" fs "connection_text options" "''GET''" "target path query" v] asks
    by simp
  from asks obtain c where "c \<in> set options" "case c of Single s \<Rightarrow> to_lower s = ''upgrade'' | KV _ _ \<Rightarrow> False"
    by blast
  then obtain s where s: "Single s \<in> set options" "to_lower s = ''upgrade''"
    by - (cases c, auto)
  then have "options \<noteq> []"
    by auto
  with wants_upgrade_list [of ?hdr options] asks short s
  have "wants_upgrade ?hdr = Inr True"
    by (auto simp: hdr ignore_case_cmp_lower lower_upgrade)
  moreover have "check_upgrade ?hdr = Inr key"
    using asks by (auto simp: check_upgrade_def hdr ignore_case_cmp_lower lower_websocket)
  ultimately show ?thesis
    using asks by (simp add: upgrade_request_def hdr)
qed

definition upgrade_fields :: "(string \<times> string) list" where
  "upgrade_fields = [(''Upgrade'', ''websocket''), (''Connection'', ''Upgrade''),
     (''Sec-WebSocket-Key'', ''dGhlIHNhbXBsZSBub25jZQ==''), (''Sec-WebSocket-Version'', ''13'')]"

definition upgrade_header :: header where
  "upgrade_header = expected_header ''GET'' ''/'' [] ''HTTP/1.1'' upgrade_fields [] None"

definition upgrade_block :: bytes where
  "upgrade_block = request_head ''GET'' ''/'' ''HTTP/1.1'' upgrade_fields"

lemmas find_field_defs = umm_equal_range_def umm_find_def lower_names_def to_lower_def tolower_def char_of_def bit_0

lemma upgrade_names: "lower_names upgrade_fields = [(''upgrade'', ''websocket''), (''connection'', ''Upgrade''),
   (''sec-websocket-key'', ''dGhlIHNhbXBsZSBub25jZQ==''), (''sec-websocket-version'', ''13'')]"
  by (simp add: upgrade_fields_def find_field_defs)

lemma upgrade_fields_clean: "\<forall>nv \<in> set upgrade_fields. clean_field nv"
  by (simp add: upgrade_fields_def clean_field_def illegal_chars_def)

lemma upgrade_clean_request: "clean_request ''GET'' ''/'' [] ''HTTP/1.1'' upgrade_fields [] None"
  using upgrade_fields_clean unfolding clean_request_def
  by (simp add: upgrade_names) (simp add: clean_defs text_defs npos32_def umm_equal_range_def umm_find_def upgrade_fields_def)

lemma upgrade_asks: "asks_for_websocket upgrade_fields [Single ''Upgrade''] ''dGhlIHNhbXBsZSBub25jZQ==''"
  by (simp add: asks_for_websocket_def upgrade_names umm_find_def connection_text_def clean_defs)
    (simp add: to_lower_def tolower_def char_of_def bit_0)

lemma upgrade_block_head: "upgrade_block = request_head ''GET'' (target ''/'' []) ''HTTP/1.1'' upgrade_fields"
  by (simp add: upgrade_block_def target_def)

lemma upgrade_header_block: "header_block upgrade_block (Inr upgrade_header)"
  unfolding upgrade_block_head upgrade_header_def by (rule clean_request_block [OF upgrade_clean_request])

lemma upgrade_header_request: "upgrade_request upgrade_header ''dGhlIHNhbXBsZSBub25jZQ==''"
  unfolding upgrade_header_def by (rule asks_upgrade_request [OF upgrade_clean_request upgrade_asks])

section \<open>Properties\<close>

text \<open>
  C7. The loop of \<^verbatim>\<open>HttpProtocol::onDataReceived\<close> ends, whatever was received, when the functions of
  the application do: the only run that needs more turns than there are bytes (and three) is one that
  has a malformed header at the front of the data; every other result is the same for all larger
  fuels.
\<close>

theorem http_terminates:
  assumes "functions_return (se_dispatcher env)" and "length bs < 2 ^ 31" and "small_header h"
    and "http_on_data (turns_needed bs) env h bs = (st, r)"
  shows "(r = Inl Out_of_fuel \<longrightarrow> malformed st) \<and>
    (r \<noteq> Inl Out_of_fuel \<longrightarrow> (\<forall>k. http_on_data (turns_needed bs + k) env h bs = (st, r)))"
  using http_on_data_ends [OF assms(1-3) order_refl, of st] assms(4)
    http_loop_more_fuel [of "turns_needed bs" env "http_start h bs 0 []"]
  by (auto simp: http_on_data_def)

theorem http_terminates_witness:
  "http_on_data (turns_needed example_block + 7) example_env None example_block =
     http_on_data (turns_needed example_block) example_env None example_block"
proof -
  have short: "length example_block < 2 ^ 31"
    by (simp add: example_block_def request_head_def text_defs)
  have run: "http_on_data (turns_needed example_block) example_env None example_block =
      (http_start None [] (int (length example_block)) [Write example_out No_callback], Inr None)"
    using http_one_request [OF example_answered, of "Suc (length example_block)"] short
    by (simp add: turns_needed_def numeral_3_eq_3)
  have "small_header None"
    by (simp add: small_header_def)
  from http_terminates [OF example_returns short this run] run show ?thesis
    by simp
qed

text \<open>
  C10. A header the parser rejects is never removed from the data: the loop answers it with the same
  error response in every turn and returns for no number of turns.
\<close>

theorem http_malformed_header:
  assumes "header_block block (Inl (Http_error code what))" and "code \<in> fst ` set code2reason" and "code < 500"
  shows "http_on_data fuel env None (block @ rest) =
    (http_start None (block @ rest) 0 (replicate fuel (Write (error_bytes env code what) No_callback)),
     Inl Out_of_fuel)"
  using http_loop_malformed [OF assms, of fuel env rest 0 "[]"] by (simp add: http_on_data_def)

theorem http_malformed_header_witness:
  "\<exists>what. http_on_data 1000 example_env None (bytes_of_string (''GET'' @ crlf @ crlf)) =
    (http_start None (bytes_of_string (''GET'' @ crlf @ crlf)) 0
       (replicate 1000 (Write (error_bytes example_env 400 what) No_callback)), Inl Out_of_fuel)"
proof -
  have "header_block (bytes_of_string (''GET'' @ crlf @ crlf)) (Inl invalid_request_line)"
    unfolding header_block_def blank_line_def index_sub_map [OF inj_byte_of_char]
    by (simp add: crlf_def parse_header_def find_sub_def find_char_def find_if_from_def invalid_request_line_def)
  from http_malformed_header [OF this [unfolded invalid_request_line_def], of 1000 example_env "[]"] show ?thesis
    by auto
qed

text \<open>
  C11. A second request that has arrived with the first is not answered: its header is read, but the
  data is then advanced by the bytes of both requests, which throws unless at least as many bytes as
  the first request had are behind it. The client gets a 500 and the connection no longer listens.
\<close>

theorem http_pipelining_fails:
  assumes "answered_with env block1 body1 acts1 hdr1" and "header_block block2 (Inr hdr2)"
    and "length rest < length (block1 @ body1)" and "length (block1 @ body1 @ block2 @ rest) < 2 ^ 31"
  shows "\<exists>st. http_on_data (turns_needed (block1 @ body1 @ block2 @ rest)) env None (block1 @ body1 @ block2 @ rest) =
      (st, Inr (Some None)) \<and>
    hs_acts st = acts1 @ [Write (error_bytes env 500 ''uncaught error'') No_callback]"
  using http_pipelined [OF assms(1-3), of "Suc (length (block1 @ body1 @ block2 @ rest))"] assms(4)
  by (simp add: turns_needed_def numeral_3_eq_3)

theorem http_pipelining_fails_witness:
  "\<exists>st. http_on_data (turns_needed (example_block @ [] @ example_block @ [])) example_env None
        (example_block @ [] @ example_block @ []) = (st, Inr (Some None)) \<and>
    hs_acts st = [Write example_out No_callback] @ [Write (error_bytes example_env 500 ''uncaught error'') No_callback]"
  by (rule http_pipelining_fails [OF example_answered example_header_block])
    (simp_all add: example_block_def request_head_def text_defs)

text \<open>
  C8. The request with which a client asks for a websocket, when a route accepts it, is answered with
  101 and the hash of the key of its \<^verbatim>\<open>Sec-WebSocket-Key\<close> field (as the client checks it), the
  route's \<^verbatim>\<open>onOpen\<close> acts after the answer, the connection then speaks the websocket protocol with
  the route's handler, and the data behind the request is left for it.
\<close>

theorem http_upgrade:
  assumes "clean_request ''GET'' path query v fs css None" and "asks_for_websocket fs options key"
    and "block = request_head ''GET'' (target path query) v fs" and "length block < 2 ^ 31"
    and "req = \<lparr>rq_header = expected_header ''GET'' path query v fs css None, rq_message_body = []\<rparr>"
    and "routeWS (se_dispatcher env) req = Inr route" and "onOpen route req new_ws = (w, Inr ())"
    and "length (se_sha1 env (bytes_of_string (key @ magic_ws_guid))) = 20"
  shows "\<exists>out. http_on_data (turns_needed (block @ rest)) env None (block @ rest) =
      (http_start None rest (int (length block)) (Write out No_callback # conn_actions (ws_trace w)),
       Inr (Some (Some (Ws (getHandler route) (setHandler w))))) \<and>
    client_read out = Some (''HTTP/1.1 101 Switching Protocols'',
      [(''connection'', ''Upgrade''), (''content-type'', ''text/html, charset=utf-8''),
       (''sec-websocket-accept'', base64_encode (se_sha1 env (bytes_of_string (key @ magic_ws_guid)))),
       (''upgrade'', ''websocket'')], [])"
  using serialize_upgrade [of "se_sha1 env" key, OF assms(8)]
    http_upgraded [OF clean_request_block [OF assms(1)] asks_upgrade_request [OF assms(1,2)]
      assms(4) [unfolded assms(3)] assms(6,7) [unfolded assms(5)], of _ _ rest]
  unfolding assms(3) turns_needed_def numeral_3_eq_3 add_Suc_right accept_key_def by blast

theorem http_upgrade_witness:
  "\<exists>out. http_on_data (turns_needed (upgrade_block @ [1, 2])) (example_env\<lparr>se_sha1 := \<lambda>bs. replicate 20 7\<rparr>) None
        (upgrade_block @ [1, 2]) =
      (http_start None [1, 2] (int (length upgrade_block)) (Write out No_callback # conn_actions (ws_trace new_ws)),
       Inr (Some (Some (Ws default_app (setHandler new_ws))))) \<and>
    client_read out = Some (''HTTP/1.1 101 Switching Protocols'',
      [(''connection'', ''Upgrade''), (''content-type'', ''text/html, charset=utf-8''),
       (''sec-websocket-accept'', base64_encode (replicate 20 7)), (''upgrade'', ''websocket'')], [])"
proof -
  let ?env = "example_env\<lparr>se_sha1 := \<lambda>bs. replicate 20 7\<rparr>"
  let ?req = "\<lparr>rq_header = upgrade_header, rq_message_body = []\<rparr>"
  obtain route where "routeWS (se_dispatcher ?env) ?req = Inr route" and "onOpen route ?req new_ws = (new_ws, Inr ())"
    and handler: "getHandler route = default_app"
    by (simp add: example_env_def routeWS_def canOpen_eq onOpen_eq getHandler_def)
  from http_upgrade [OF upgrade_clean_request upgrade_asks upgrade_block_head _ _ this(1,2), of "[1, 2]"] show ?thesis
    by (simp add: handler upgrade_header_def) (simp add: upgrade_block_def request_head_def text_defs upgrade_fields_def)
qed

end
