(* ===== verification/Http_Stream.thy ===== *)
theory Http_Stream
  imports Http_Loop
begin

text \<open>
  A connection and its HTTP protocol together: what the event handler of ConnectionHandler.cpp does
  with a request, however the reads of the socket cut it into pieces.
\<close>

section \<open>One event\<close>

text \<open>The loop reports that the connection is readable, and the read returns these bytes.\<close>

definition receive :: "server_env \<Rightarrow> bytes \<Rightarrow> protocol conn \<Rightarrow> protocol conn" where
  "receive env bs c = fst (on_event (server_protocol env) EPOLLIN (c\<lparr>cn_recvs := [Received bs]\<rparr>))"

lemma recv_loop_one: "recv_loop [Received bs] in_buf = ([], in_buf @ bs, Inr ())"
  by simp

lemma epollin: "EPOLLIN AND (EPOLLERR OR EPOLLHUP OR EPOLLRDHUP) = 0" "EPOLLIN \<noteq> 0" "EPOLLIN AND EPOLLOUT = 0"
  by (simp_all add: epoll_flags)

text \<open>The state of a connection as far as its output is concerned.\<close>

definition output_state :: "'p conn \<Rightarrow> bool \<times> send_answer list \<times> bytes \<times> transmit_job list \<times> u64 \<times> after_sent list" where
  "output_state c = (cn_open c, cn_sends c, cn_wire c, cn_jobs c, cn_out_size c, cn_called c)"

lemma output_state_simps [simp]:
  "output_state (c\<lparr>cn_recvs := x\<rparr>) = output_state c" "output_state (c\<lparr>cn_in_buf := y\<rparr>) = output_state c"
  "output_state (c\<lparr>cn_protocol := z\<rparr>) = output_state c" "output_state (c\<lparr>cn_armed := a\<rparr>) = output_state c"
  by (simp_all add: output_state_def)

lemma output_state_rearm [simp]: "output_state (rearm c) = output_state c"
  by (simp add: rearm_def modFD_def output_state_def)

lemma rearm_simps [simp]: "cn_protocol (rearm c) = cn_protocol c" "cn_in_buf (rearm c) = cn_in_buf c"
  by (simp_all add: rearm_def modFD_def)

lemma run_callback_output:
  "output_state c = output_state d \<Longrightarrow> output_state (run_callback cb c) = output_state (run_callback cb d)"
  by (simp add: run_callback_def close_conn_def output_state_def Let_def)

lemma flush_job_output:
  assumes "output_state c = output_state d"
  obtains sent job' c' d' where "flush_job job c = (sent, job', c')" and "flush_job job d = (sent, job', d')"
    and "output_state c' = output_state d'"
proof -
  obtain finished sent answers wire where loop:
    "flush_loop (cn_open c) (tj_buf job) (tj_sent job) (cn_sends c) (cn_wire c) = (finished, sent, answers, wire)"
    by (metis prod_cases4)
  have same: "cn_open d = cn_open c" "cn_sends d = cn_sends c" "cn_wire d = cn_wire c"
    and updated: "output_state (c\<lparr>cn_sends := answers, cn_wire := wire\<rparr>) = output_state (d\<lparr>cn_sends := answers, cn_wire := wire\<rparr>)"
    using assms by (simp_all add: output_state_def)
  show ?thesis
  proof (rule that)
    show "flush_job job c = (finished, job\<lparr>tj_sent := sent\<rparr>, if finished
        then run_callback (tj_cb job) (c\<lparr>cn_sends := answers, cn_wire := wire\<rparr>) else c\<lparr>cn_sends := answers, cn_wire := wire\<rparr>)"
      using loop by (simp add: flush_job_def)
    show "flush_job job d = (finished, job\<lparr>tj_sent := sent\<rparr>, if finished
        then run_callback (tj_cb job) (d\<lparr>cn_sends := answers, cn_wire := wire\<rparr>) else d\<lparr>cn_sends := answers, cn_wire := wire\<rparr>)"
      using loop same by (simp add: flush_job_def)
    show "output_state (if finished then run_callback (tj_cb job) (c\<lparr>cn_sends := answers, cn_wire := wire\<rparr>)
          else c\<lparr>cn_sends := answers, cn_wire := wire\<rparr>) =
        output_state (if finished then run_callback (tj_cb job) (d\<lparr>cn_sends := answers, cn_wire := wire\<rparr>)
          else d\<lparr>cn_sends := answers, cn_wire := wire\<rparr>)"
      using updated run_callback_output [OF updated, of "tj_cb job"] by simp
  qed
qed

lemma output_state_action:
  assumes "output_state c = output_state d"
  shows "output_state (run_action a c) = output_state (run_action a d)"
proof (cases a)
  case (Write bs cb)
  have jobs: "cn_jobs c = cn_jobs d" "cn_out_size c = cn_out_size d"
    using assms by (simp_all add: output_state_def)
  obtain sent job' c' d' where "flush_job \<lparr>tj_buf = bs, tj_sent = 0, tj_cb = cb\<rparr> c = (sent, job', c')"
    "flush_job \<lparr>tj_buf = bs, tj_sent = 0, tj_cb = cb\<rparr> d = (sent, job', d')" "output_state c' = output_state d'"
    using flush_job_output [OF assms] by blast
  with Write jobs assms show ?thesis
    by (cases "cn_jobs d = []"; cases sent) (simp_all add: write_conn_def modFD_def output_state_def Let_def)
qed (use assms in \<open>simp add: close_conn_def output_state_def\<close>)

lemma output_state_actions:
  "output_state c = output_state d \<Longrightarrow> output_state (run_actions acts c) = output_state (run_actions acts d)"
proof (induction acts arbitrary: c d)
  case (Cons a acts)
  from Cons.IH [OF output_state_action [OF Cons.prems]] show ?case
    by (simp add: run_actions_def)
qed (simp add: run_actions_def)

lemma receive_data:
  assumes "cn_protocol c = Some p"
    and "server_data env p (cn_in_buf c @ bs) = (acts, p', Inr (consumed, change))"
    and "length (cn_in_buf c @ bs) < 2 ^ 31"
  shows "output_state (receive env bs c) = output_state (run_actions acts c)"
    and "cn_in_buf (receive env bs c) = drop (nat consumed) (cn_in_buf c @ bs)"
    and "cn_protocol (receive env bs c) =
      (case change of None \<Rightarrow> Some p' | Some p \<Rightarrow> p)"
proof -
  define d where "d = run_actions acts (c\<lparr>cn_armed := None, cn_recvs := [], cn_in_buf := cn_in_buf c @ bs,
      cn_protocol := Some p'\<rparr>)"
  have "ph_data (server_protocol env) p (cn_in_buf c @ bs) = (acts, p', Inr (consumed, change))"
    using assms(2) by (simp add: server_protocol_def)
  from server_contract.erase_defined [OF this assms(3)] assms(1) this
  have receive: "receive env bs c = rearm (d\<lparr>cn_in_buf := drop (nat consumed) (cn_in_buf c @ bs),
      cn_protocol := (case change of None \<Rightarrow> cn_protocol d | Some p \<Rightarrow> p)\<rparr>)"
    by (simp add: receive_def on_event_def on_readable_def d_def epollin Let_def del: drop_append split: option.split)
  have "output_state d = output_state (run_actions acts c)"
    unfolding d_def by (rule output_state_actions) (simp add: output_state_def)
  then show "output_state (receive env bs c) = output_state (run_actions acts c)"
    and "cn_in_buf (receive env bs c) = drop (nat consumed) (cn_in_buf c @ bs)"
    and "cn_protocol (receive env bs c) = (case change of None \<Rightarrow> Some p' | Some p \<Rightarrow> p)"
    by (simp_all add: receive d_def split: option.split)
qed

section \<open>One request in pieces\<close>

lemma server_data_http:
  "http_on_data (turns_needed bs) env h bs = (st, Inr change) \<Longrightarrow>
   server_data env (Http h) bs = (hs_acts st, Http (hs_header st), Inr (hs_consumed st, change))"
  by (simp add: server_data_def)

lemma server_data_no_header:
  "index_sub blank_line bs = None \<Longrightarrow> server_data env (Http None) bs = ([], Http None, Inr (0, None))"
  by (simp add: server_data_http turns_needed_def numeral_3_eq_3 http_no_header)

lemma server_data_early_header:
  assumes "answered_with env block body acts hdr" and "length block < 2 ^ 31" and "k < length body"
  shows "server_data env (Http None) (block @ take k body) = ([], Http (Some hdr), Inr (int (length block), None))"
  using http_early_header [OF assms] by (simp add: server_data_http turns_needed_def numeral_3_eq_3)

lemma server_data_request:
  assumes "answered_with env block body acts hdr" and "length (block @ body) < 2 ^ 31"
  shows "server_data env (Http None) (block @ body) = (acts, Http None, Inr (int (length (block @ body)), None))"
  using http_one_request [OF assms] by (simp add: server_data_http turns_needed_def numeral_3_eq_3)

lemma server_data_request_rest:
  assumes "answered_with env block body acts hdr" and "length (block @ body) < 2 ^ 31"
    and "index_sub blank_line rest = None"
  shows "server_data env (Http None) (block @ body @ rest) = (acts, Http None, Inr (int (length (block @ body)), None))"
  using http_loop_answered [OF http_turn_request [OF assms(1,2), of rest "[]"]]
    http_loop_stop [OF http_turn_incomplete [OF assms(3)]]
  by (simp add: server_data_http turns_needed_def numeral_3_eq_3 http_on_data_def)

lemma server_data_missing:
  "length bs < h_content_length hdr \<Longrightarrow> server_data env (Http (Some hdr)) bs = ([], Http (Some hdr), Inr (0, None))"
  by (simp add: server_data_http turns_needed_def numeral_3_eq_3 http_on_data_def http_loop_stop http_turn_body_missing)

lemma server_data_late_body:
  assumes "answered_with env block body acts hdr" and "length body < 2 ^ 31"
  shows "server_data env (Http (Some hdr)) body = (acts, Http None, Inr (int (length body), None))"
  using http_late_body [OF assms] by (simp add: server_data_http turns_needed_def numeral_3_eq_3)

lemma prefix_no_blank_line:
  assumes "header_block block parsed" and "s @ t = block @ rest" and "length s < length block"
  shows "index_sub blank_line s = None"
proof (rule ccontr)
  assume "index_sub blank_line s \<noteq> None"
  then obtain i where i: "index_sub blank_line s = Some i"
    by blast
  from index_sub_append [OF i] assms(2) have "index_sub blank_line (block @ rest) = Some i"
    by metis
  moreover have "index_sub blank_line (block @ rest) = Some (length block - 4)"
    using assms(1) by (intro index_sub_append) (simp add: header_block_def)
  ultimately show False
    using index_sub_bound [OF i] assms(1,3) by (simp add: header_block_def)
qed

text \<open>The protocol and the input buffer after a prefix of a request.\<close>

definition request_progress :: "bytes \<Rightarrow> bytes \<Rightarrow> header \<Rightarrow> bytes \<Rightarrow> protocol \<times> bytes" where
  "request_progress block body hdr s =
     (if length s < length block then (Http None, s)
      else if length s < length (block @ body) then (Http (Some hdr), drop (length block) s)
      else (Http None, []))"

definition progressed :: "bytes \<Rightarrow> bytes \<Rightarrow> header \<Rightarrow> bytes \<Rightarrow> protocol conn \<Rightarrow> bool" where
  "progressed block body hdr s c \<longleftrightarrow>
     (cn_protocol c = Some (fst (request_progress block body hdr s)) \<and>
      cn_in_buf c = snd (request_progress block body hdr s))"

lemma progress_step:
  assumes "answered_with env block body acts hdr" and "length (block @ body) < 2 ^ 31"
    and "s @ bs @ t = block @ body"
    and "request_progress block body hdr s = (p, buf)" and "request_progress block body hdr (s @ bs) = (p', buf')"
  shows "\<exists>consumed. server_data env p (buf @ bs) =
      (if s \<noteq> block @ body \<and> s @ bs = block @ body then acts else [], p', Inr (consumed, None)) \<and>
    drop (nat consumed) (buf @ bs) = buf'"
proof -
  have block: "header_block block (Inr hdr)" "4 \<le> length block" "h_content_length hdr = length body"
    using assms(1) by (simp_all add: answered_with_def header_block_def)
  have total: "length s + length bs + length t = length block + length body"
    using arg_cong [OF assms(3), of length] by simp
  have all: "s @ bs = block @ body \<longleftrightarrow> length s + length bs = length block + length body"
  proof
    assume "s @ bs = block @ body"
    from arg_cong [OF this, of length] show "length s + length bs = length block + length body"
      by simp
  qed (use total assms(3) in auto)
  have start: "s = block @ body \<longleftrightarrow> length s = length block + length body"
  proof
    assume "length s = length block + length body"
    with total assms(3) show "s = block @ body"
      by auto
  qed simp
  have front: "s @ bs = take (length s + length bs) (block @ body)"
    using arg_cong [OF assms(3), of "take (length s + length bs)"] by simp
  consider "length (s @ bs) < length block" | "length s < length block" "length block \<le> length (s @ bs)" "length (s @ bs) < length (block @ body)"
    | "length s < length block" "s @ bs = block @ body"
    | "length block \<le> length s" "length (s @ bs) < length (block @ body)"
    | "length block \<le> length s" "length s < length (block @ body)" "s @ bs = block @ body"
    | "s = block @ body" "bs = []"
    using total all start by force
  then show ?thesis
  proof cases
    case 1
    have "index_sub blank_line (s @ bs) = None"
      using prefix_no_blank_line [OF block(1), of "s @ bs" t body] assms(3) 1 by simp
    with 1 assms(4,5) all show ?thesis
      by (auto simp: request_progress_def server_data_no_header)
  next
    case 2
    define k where "k = length s + length bs - length block"
    have k: "s @ bs = block @ take k body" "k < length body"
      using front 2 by (auto simp: k_def)
    have "p = Http None" "buf = s" "p' = Http (Some hdr)" "buf' = drop (length block) (s @ bs)"
      using 2 assms(4,5) by (simp_all add: request_progress_def)
    with 2 all k(2) server_data_early_header [OF assms(1) _ k(2)] assms(2) show ?thesis
      by (simp add: k(1))
  next
    case 3
    have "p = Http None" "buf = s" "p' = Http None" "buf' = []"
      using 3 assms(4) assms(5) [unfolded 3(2)] by (simp_all add: request_progress_def)
    with 3 server_data_request [OF assms(1,2)] start show ?thesis
      by auto
  next
    case 4
    have "p = Http (Some hdr)" "buf = drop (length block) s" "p' = Http (Some hdr)" "buf' = drop (length block) (s @ bs)"
      using 4 assms(4,5) by (simp_all add: request_progress_def)
    moreover have "length (drop (length block) s @ bs) < h_content_length hdr"
      using 4 block(3) by simp
    ultimately show ?thesis
      using 4 all server_data_missing [of "buf @ bs" hdr env] by simp
  next
    case 5
    have "drop (length block) s @ bs = drop (length block) (s @ bs)"
      using 5(1) by simp
    then have "drop (length block) s @ bs = body"
      unfolding 5(3) by simp
    moreover have "p = Http (Some hdr)" "buf = drop (length block) s" "p' = Http None" "buf' = []"
      using 5(1,2) assms(4) assms(5) [unfolded 5(3)] by (simp_all add: request_progress_def)
    ultimately show ?thesis
      using 5 start server_data_late_body [OF assms(1)] assms(2) by auto
  next
    case 6
    with assms(4,5) show ?thesis
      using server_data_no_header [OF index_blank_line_short, of "[]" env] by (auto simp: request_progress_def)
  qed
qed

lemma receive_progress:
  assumes "answered_with env block body acts hdr" and "length (block @ body) < 2 ^ 31"
    and "s @ bs @ t = block @ body" and "progressed block body hdr s c"
  shows "progressed block body hdr (s @ bs) (receive env bs c)"
    and "output_state (receive env bs c) =
      output_state (if s \<noteq> block @ body \<and> s @ bs = block @ body then run_actions acts c else c)"
proof -
  obtain p buf p' buf' where before: "request_progress block body hdr s = (p, buf)"
    and after: "request_progress block body hdr (s @ bs) = (p', buf')"
    by (metis prod.collapse)
  from progress_step [OF assms(1-3) before after] obtain consumed where
    data: "server_data env p (buf @ bs) =
      (if s \<noteq> block @ body \<and> s @ bs = block @ body then acts else [], p', Inr (consumed, None))"
    and rest: "drop (nat consumed) (buf @ bs) = buf'"
    by blast
  have c: "cn_protocol c = Some p" "cn_in_buf c = buf"
    using assms(4) before by (simp_all add: progressed_def)
  have "length buf \<le> length s"
    using before by (auto simp: request_progress_def split: if_splits)
  then have "length (cn_in_buf c @ bs) < 2 ^ 31"
    using c arg_cong [OF assms(3), of length] assms(2) by simp
  note receive = receive_data [OF c(1) data [folded c(2)] this]
  show "progressed block body hdr (s @ bs) (receive env bs c)"
    using receive(2,3) c rest after by (simp add: progressed_def)
  show "output_state (receive env bs c) =
      output_state (if s \<noteq> block @ body \<and> s @ bs = block @ body then run_actions acts c else c)"
    using receive(1) by (simp add: run_actions_def)
qed

lemma receive_pieces:
  assumes "answered_with env block body acts hdr" and "length (block @ body) < 2 ^ 31"
    and "progressed block body hdr s c" and "s @ concat pieces = block @ body"
  shows "progressed block body hdr (block @ body) (fold (receive env) pieces c) \<and>
    output_state (fold (receive env) pieces c) = output_state (if s = block @ body then c else run_actions acts c)"
  using assms(3,4)
proof (induction pieces arbitrary: s c)
  case (Cons bs pieces)
  note step = receive_progress [OF assms(1,2) Cons.prems(2) [simplified] Cons.prems(1)]
  have "output_state (run_actions acts (receive env bs c)) = output_state (run_actions acts c)" if "s @ bs \<noteq> block @ body"
    using step(2) that by (intro output_state_actions) simp
  with Cons.IH [OF step(1)] step(2) Cons.prems(2) show ?case
    by auto
qed simp

lemma receive_whole:
  assumes "answered_with env block body acts hdr" and "length (block @ body) < 2 ^ 31"
    and "cn_protocol c = Some (Http None)" and "cn_in_buf c = []" and "concat pieces = block @ body"
  shows "output_state (fold (receive env) pieces c) = output_state (run_actions acts c) \<and>
    cn_protocol (fold (receive env) pieces c) = Some (Http None) \<and> cn_in_buf (fold (receive env) pieces c) = []"
proof -
  have block: "4 \<le> length block"
    using assms(1) by (simp add: answered_with_def header_block_def)
  then have "progressed block body hdr [] c" "[] \<noteq> block @ body"
    using assms(3,4) by (auto simp: progressed_def request_progress_def)
  from receive_pieces [OF assms(1,2) this(1)] this(2) assms(5) show ?thesis
    by (auto simp: progressed_def request_progress_def)
qed

section \<open>Output on a socket with room\<close>

text \<open>Actions that only write, without a callback.\<close>

fun plain_writes :: "conn_action list \<Rightarrow> bool" where
  "plain_writes [] \<longleftrightarrow> True"
| "plain_writes (Write bs cb # acts) \<longleftrightarrow> length bs < 2 ^ 31 \<and> cb = No_callback \<and> plain_writes acts"
| "plain_writes (Close # acts) \<longleftrightarrow> False"

lemma write_conn_room:
  assumes "cn_open c" and "cn_jobs c = []" and "length bs < 2 ^ 31" and "has_room (cn_sends c) (length bs + n)"
  shows "cn_open (write_conn bs No_callback c)" and "cn_jobs (write_conn bs No_callback c) = []"
    and "has_room (cn_sends (write_conn bs No_callback c)) n"
    and "cn_wire (write_conn bs No_callback c) = cn_wire c @ bs"
proof -
  let ?job = "\<lparr>tj_buf = bs, tj_sent = 0, tj_cb = No_callback\<rparr>"
  obtain sent job' c' where job: "flush_job ?job c = (sent, job', c')"
    by (metis prod_cases3)
  have ok: "job_ok ?job" "unsent ?job = bs"
    using assms(3) by (simp_all add: job_ok_def unsent_def)
  have room: "sent \<and> has_room (cn_sends c') n"
    using flush_job_room [OF job assms(1) ok(1)] assms(4) ok(2) by simp
  with flush_job_open [OF job assms(1) ok(1) has_room_no_error [OF assms(4)]] ok assms(2)
  show "cn_open (write_conn bs No_callback c)" and "cn_jobs (write_conn bs No_callback c) = []"
    and "has_room (cn_sends (write_conn bs No_callback c)) n"
    and "cn_wire (write_conn bs No_callback c) = cn_wire c @ bs"
    by (auto simp: write_conn_def job)
qed

lemma run_actions_room:
  "plain_writes acts \<Longrightarrow> cn_open c \<Longrightarrow> cn_jobs c = [] \<Longrightarrow> has_room (cn_sends c) (length (written_by acts)) \<Longrightarrow>
   cn_open (run_actions acts c) \<and> cn_jobs (run_actions acts c) = [] \<and>
   cn_wire (run_actions acts c) = cn_wire c @ written_by acts"
proof (induction acts arbitrary: c rule: plain_writes.induct)
  case (2 bs cb acts)
  then have "has_room (cn_sends c) (length bs + length (written_by acts))" "length bs < 2 ^ 31"
    by simp_all
  note room = write_conn_room [OF 2(3,4) this(2,1)]
  from 2(1) [OF _ room(1-3)] 2(2) room(4) show ?case
    by (simp add: run_actions_def)
qed (simp_all add: run_actions_def)

section \<open>From a request to its response\<close>

text \<open>What a response has to respect for the client to read it as it was set.\<close>

definition clean_response :: "response \<Rightarrow> string \<Rightarrow> bool" where
  "clean_response r reason \<longleftrightarrow> reason_of r = Some reason \<and> clean_line (status_line r reason) \<and>
     (\<forall>nv \<in> set (rs_fields r). clean_field nv) \<and>
     length (concat (map (\<lambda>nv. field_line nv @ crlf) (sent_fields r))) < npos32"

definition response_view :: "response \<Rightarrow> string \<Rightarrow> string \<times> field_map \<times> bytes" where
  "response_view r reason = (status_line r reason, lower_names (sent_fields r),
     case rs_message_body r of Some body \<Rightarrow> body | None \<Rightarrow> [])"

lemma clean_response_view:
  assumes "clean_response r reason" and "serialize r = Inr out"
  shows "client_read out = Some (response_view r reason)"
  using client_read_text [of "status_line r reason" "sent_fields r" "case rs_message_body r of Some body \<Rightarrow> body | None \<Rightarrow> []"]
    clean_sent_fields [of r] assms
  by (simp add: serialize_text clean_response_def response_view_def)

section \<open>A connection without a protocol\<close>

definition reading :: i32 where
  "reading = EPOLLIN OR EPOLLHUP OR EPOLLRDHUP OR EPOLLONESHOT"

lemma receive_unheard:
  assumes "cn_protocol c = None" and "cn_open c" and "cn_jobs c = []"
  shows "receive env bs c = c\<lparr>cn_recvs := [Received bs], cn_armed := Some reading\<rparr>"
  using assms by (simp add: receive_def on_event_def epollin rearm_def modFD_def reading_def)

lemma receives_unheard:
  "cn_protocol c = None \<Longrightarrow> cn_open c \<Longrightarrow> cn_jobs c = [] \<Longrightarrow>
   \<exists>unread armed. fold (receive env) later c = c\<lparr>cn_recvs := unread, cn_armed := armed\<rparr>"
proof (induction later arbitrary: c)
  case Nil
  show ?case
    by (rule exI [of _ "cn_recvs c"], rule exI [of _ "cn_armed c"]) simp
next
  case (Cons bs later)
  from Cons.IH [of "receive env bs c"] Cons.prems receive_unheard [OF Cons.prems, of env bs] show ?case
    by auto
qed

text \<open>Two requests at once, on a socket that takes every answer.\<close>

definition example_actions :: "conn_action list" where
  "example_actions = [Write example_out No_callback, Write (error_bytes example_env 500 ''uncaught error'') No_callback]"

definition example_conn :: "protocol conn" where
  "example_conn = (accepted (Http None))\<lparr>cn_sends := replicate (length (written_by example_actions)) (Room 1)\<rparr>"

lemma example_actions_plain: "plain_writes example_actions"
  by (simp add: example_actions_def example_out_def error_bytes_def serialize_def response_of_body_def response_of_error_def
      default_response_def code2reason_def example_env_def int_to_string_def nat_to_string.simps crlf_def)

lemma example_pipelined: "\<exists>p' consumed. server_data example_env (Http None) (example_block @ example_block) =
    (example_actions, p', Inr (consumed, Some None))"
proof -
  have "length (example_block @ [] @ example_block @ []) < 2 ^ 31" "length [] < length (example_block @ [])"
    by (simp_all add: example_block_def request_head_def text_defs)
  with http_pipelined [OF example_answered example_header_block, of "[]" "Suc (length (example_block @ example_block))"]
  show ?thesis
    by (simp add: server_data_def turns_needed_def numeral_3_eq_3 example_actions_def)
qed

lemma example_clean_request: "clean_request ''GET'' ''/'' [] ''HTTP/1.1'' [] [] None"
  by (simp add: clean_request_def, simp add: clean_defs text_defs npos32_def umm_equal_range_def umm_find_def lower_names_def)

lemma example_request_read:
  "read_body_args example_header body = Inr example_header" "wants_upgrade example_header = Inr False"
  "h_content_length example_header = 0"
  by (simp_all add: example_header_def expected_header_def read_body_args_def wants_upgrade_def umm_find_def lower_names_def)

lemma example_routed:
  "route_request (se_dispatcher example_env) \<lparr>rq_header = example_header, rq_message_body = []\<rparr> =
    Inr (response_of_body [33])"
  by (simp add: example_env_def example_header_def expected_header_def route_request_def match_route_def max_element_def
      call_route_eq response_of_outcome_def)

lemma example_response:
  "clean_response (response_of_body [33]) ''OK''" "serialize (response_of_body [33]) = Inr example_out"
  "length example_out < 2 ^ 31"
  by (simp_all add: clean_response_def clean_line_def status_line_def reason_of_def sent_fields_def omm_find_def
      clean_field_def illegal_chars_def field_line_def crlf_def npos32_def int_to_string_def nat_to_string.simps
      digit_char_def char_of_def bit_0
      example_out_def serialize_def response_of_body_def default_response_def code2reason_def)

section \<open>Properties\<close>

text \<open>
  However the reads of the socket cut a request into pieces (inside the header, the empty line or
  the body, empty pieces included), the connection does exactly what it does with the request in one
  piece: the actions of its answer, once; then it waits for the next request with an empty buffer.
\<close>

lemma http_request_in_pieces:
  assumes "answered_with env block body acts hdr" and "length (block @ body) < 2 ^ 31"
    and "cn_protocol c = Some (Http None)" and "cn_in_buf c = []" and "concat pieces = block @ body"
  shows "output_state (fold (receive env) pieces c) = output_state (run_actions acts c) \<and>
    cn_protocol (fold (receive env) pieces c) = Some (Http None) \<and> cn_in_buf (fold (receive env) pieces c) = []"
  using receive_whole [OF assms] .

text \<open>
  C18. A connection the protocol gives up (after an error of 500 or more) while the socket takes the
  whole answer is not closed by the server: it stays open and registered for reading, and what
  arrives is neither read nor answered, however often the loop reports it.
\<close>

theorem given_up_stays_open:
  assumes "cn_protocol c = Some p" and "server_data env p (cn_in_buf c @ bs) = (acts, p', Inr (consumed, Some None))"
    and "length (cn_in_buf c @ bs) < 2 ^ 31"
    and "plain_writes acts" and "cn_open c" and "cn_jobs c = []" and "has_room (cn_sends c) (length (written_by acts))"
  shows "\<exists>unread. fold (receive env) (later @ [again]) (receive env bs c) =
      (receive env bs c)\<lparr>cn_recvs := unread, cn_armed := Some reading\<rparr> \<and>
    cn_open (receive env bs c) \<and> cn_wire (receive env bs c) = cn_wire c @ written_by acts"
proof -
  note data = receive_data [OF assms(1-3)]
  have out: "cn_open (receive env bs c)" "cn_jobs (receive env bs c) = []"
    "cn_wire (receive env bs c) = cn_wire c @ written_by acts"
    using data(1) run_actions_room [OF assms(4-7)] by (simp_all add: output_state_def)
  have prot: "cn_protocol (receive env bs c) = None"
    using data(3) by simp
  from receives_unheard [OF prot out(1,2), of env later] obtain unread armed where
    later: "fold (receive env) later (receive env bs c) = (receive env bs c)\<lparr>cn_recvs := unread, cn_armed := armed\<rparr>"
    by blast
  have "receive env again (fold (receive env) later (receive env bs c)) =
      (receive env bs c)\<lparr>cn_recvs := [Received again], cn_armed := Some reading\<rparr>"
    unfolding later using prot out by (subst receive_unheard) simp_all
  with out show ?thesis
    by auto
qed

theorem given_up_stays_open_witness:
  "\<exists>unread. fold (receive example_env) ([[1], [2]] @ [[3]]) (receive example_env (example_block @ example_block) example_conn) =
      (receive example_env (example_block @ example_block) example_conn)\<lparr>cn_recvs := unread, cn_armed := Some reading\<rparr> \<and>
    cn_open (receive example_env (example_block @ example_block) example_conn) \<and>
    cn_wire (receive example_env (example_block @ example_block) example_conn) = [] @ written_by example_actions"
proof -
  obtain p' consumed where "server_data example_env (Http None) (example_block @ example_block) =
      (example_actions, p', Inr (consumed, Some None))"
    using example_pipelined by blast
  with given_up_stays_open [of example_conn "Http None" example_env "example_block @ example_block" example_actions
      p' consumed "[[1], [2]]" "[3]", OF _ _ _ example_actions_plain]
  show ?thesis
    by (simp add: example_conn_def accepted_def has_room_def)
      (simp add: example_block_def request_head_def text_defs)
qed

end
