(* ===== verification/Ws_Stream.thy ===== *)
theory Ws_Stream
  imports Http_Stream
begin

text \<open>
  A connection and its websocket over a sequence of reads: frames with a payload of at most 125
  bytes arrive whatever the pieces in which the socket delivers them. (A longer frame does not, see
  \<open>ws_partial_frame\<close>.)
\<close>

section \<open>The trace only grows\<close>

definition grows :: "ws \<Rightarrow> ws \<Rightarrow> bool" where
  "grows w w' \<longleftrightarrow> prefix (ws_trace w) (ws_trace w')"

lemma grows_refl [simp]: "grows w w"
  by (simp add: grows_def)

lemma grows_trans: "grows w1 w2 \<Longrightarrow> grows w2 w3 \<Longrightarrow> grows w1 w3"
  by (auto simp: grows_def)

lemma grows_emit [simp]: "grows w (emit out w)"
  by (simp add: grows_def emit_def)

lemma grows_update [simp]:
  "grows w (w'\<lparr>ws_frag_buffer := b\<rparr>) = grows w w'" "grows (w\<lparr>ws_frag_buffer := b\<rparr>) w' = grows w w'"
  "grows w (w'\<lparr>ws_cur_opcode := oc\<rparr>) = grows w w'" "grows (w\<lparr>ws_cur_opcode := oc\<rparr>) w' = grows w w'"
  by (simp_all add: grows_def)

lemma and_then_grows:
  assumes "grows w (fst m)" and "\<And>x w1. m = (w1, Inr x) \<Longrightarrow> grows w1 (fst (f x w1))"
  shows "grows w (fst (and_then m f))"
  using assms by (cases m; cases "snd m") (auto intro: grows_trans)

lemma grows_send: "grows w (fst (run_send op w))"
proof (induction op w rule: run_send.induct)
  case (1 m cb w)
  then show ?case
    by (cases m) (simp_all add: send_frame_def)
qed (simp_all add: send_frame_def ping_ws_def)

lemma grows_sends: "grows w (fst (run_sends ops w))"
  by (induction ops arbitrary: w) (auto intro: and_then_grows grows_send)

lemma grows_timers: "grows w (rm_timers w)"
  unfolding rm_timers_def using grows_trans [OF grows_emit grows_emit] by simp

lemma grows_on_close: "grows w (fst (call_on_close app w))"
  using grows_trans [OF grows_emit grows_sends] by (simp add: call_on_close_def)

lemma grows_close: "grows w (fst (close_ws app code reason w))"
  unfolding close_ws_def
  by (simp, intro impI and_then_grows grows_trans [OF grows_timers grows_on_close]) (simp add: send_frame_def)

lemma grows_ops: "grows w (fst (run_ops app ops w))"
proof (induction ops arbitrary: w)
  case (Cons op ops)
  have "grows w (fst (run_op app op w))"
    by (cases op) (simp_all add: grows_send grows_close)
  with Cons.IH show ?case
    by (auto intro: and_then_grows)
qed simp

lemma grows_handler: "grows w (fst (call_handler app call w))"
  using grows_trans [OF grows_emit grows_ops] by (simp add: call_handler_def)

lemma grows_then:
  "grows w (fst m) \<Longrightarrow> (\<And>x w1. grows w1 (fst (f x w1))) \<Longrightarrow> grows w (fst (and_then m f))"
  by (rule and_then_grows)

lemma grows_frame: "grows w (fst (handle_frame app fin opcode p w))"
proof (cases fin)
  case False
  then show ?thesis
    by (auto simp: handle_frame_def intro!: grows_then grows_close)
next
  case True
  have pong: "grows w (if ws_auto_ping w then emit (Loop Cancel_timeout) w else w)"
    by simp
  have continued: "grows w (fst (call_handler app call (w\<lparr>ws_frag_buffer := b\<rparr>)))" for call b
    using grows_handler [of "w\<lparr>ws_frag_buffer := b\<rparr>"] by simp
  from True show ?thesis
    using grows_trans [OF pong grows_handler]
    by (cases opcode) (auto simp: handle_frame_def Let_def intro!: grows_then grows_handler grows_close continued)
qed

lemma grows_frames: "grows w (fst (handle_frames app fs w))"
proof (induction app fs w rule: handle_frames.induct)
  case (2 app fin opcode p fs w)
  then show ?case
    by (auto intro!: and_then_grows grows_frame)
qed simp

section \<open>Frames and prefixes of them\<close>

lemma handle_frames_prefix:
  assumes "handle_frames app (fs @ gs) w = (w', Inr False)"
  obtains w1 where "handle_frames app fs w = (w1, Inr False)" and "handle_frames app gs w1 = (w', Inr False)"
proof -
  have "\<exists>w1. handle_frames app fs w = (w1, Inr False) \<and> handle_frames app gs w1 = (w', Inr False)"
    using assms
  proof (induction app fs w rule: handle_frames.induct)
    case (2 app fin opcode p fs w)
    obtain w1 r where frame: "handle_frame app fin opcode p w = (w1, r)"
      by (cases "handle_frame app fin opcode p w")
    with 2(2) have "r = Inr False"
      by (cases r) (auto split: if_splits)
    with 2(1) [of False w1] 2(2) frame show ?case
      by simp
  qed simp
  with that show ?thesis
    by blast
qed

text \<open>A frame whose length fits the seven bits.\<close>

definition short_frame :: "bytes \<times> frame \<Rightarrow> bool" where
  "short_frame mf = (case mf of (mask_key, fin, opcode, p) \<Rightarrow> good_frame mf \<and> length p \<le> 125)"

lemma short_frame_cut:
  "short_frame mf \<Longrightarrow> k < length (frame_bytes mf) \<Longrightarrow> read_frame (take k (frame_bytes mf)) = Inr Need_more"
  using read_frame_cut by (auto simp: short_frame_def good_frame_def frame_bytes_def split: prod.splits)

abbreviation stream :: "(bytes \<times> frame) list \<Rightarrow> bytes" where
  "stream mfs \<equiv> concat (map frame_bytes mfs)"

lemma stream_prefix:
  assumes "\<forall>mf \<in> set mfs. short_frame mf" and "x @ t = stream mfs"
  obtains fs gs p where "mfs = fs @ gs" and "x = stream fs @ p" and "read_frame p = Inr Need_more"
    and "p @ t = stream gs"
proof -
  have "\<exists>fs gs p. mfs = fs @ gs \<and> x = stream fs @ p \<and> read_frame p = Inr Need_more \<and> p @ t = stream gs"
    using assms
  proof (induction mfs arbitrary: x)
    case Nil
    then show ?case
      by (simp add: read_frame_short)
  next
    case (Cons mf mfs)
    show ?case
    proof (cases "length x < length (frame_bytes mf)")
      case True
      have "x = take (length x) (frame_bytes mf)"
        using arg_cong [OF Cons.prems(2), of "take (length x)"] True by simp
      with True Cons.prems short_frame_cut [of mf "length x"] have "read_frame x = Inr Need_more"
        by simp
      with Cons.prems(2) show ?thesis
        by (intro exI [of _ "[]"] exI [of _ "mf # mfs"] exI [of _ x]) simp
    next
      case False
      define y where "y = drop (length (frame_bytes mf)) x"
      have x: "x = frame_bytes mf @ y"
        using arg_cong [OF Cons.prems(2), of "take (length (frame_bytes mf))"] False
        by (simp add: y_def) (metis append_take_drop_id)
      with Cons.prems(2) have "y @ t = stream mfs"
        by simp
      from Cons.IH [OF _ this] Cons.prems(1) obtain fs gs p where
        "mfs = fs @ gs" "y = stream fs @ p" "read_frame p = Inr Need_more" "p @ t = stream gs"
        by auto
      with x show ?thesis
        by (intro exI [of _ "mf # fs"] exI [of _ gs] exI [of _ p]) simp
    qed
  qed
  with that show ?thesis
    by blast
qed

section \<open>A connection that reads them\<close>

lemma conn_actions_append: "conn_actions (xs @ ys) = conn_actions xs @ conn_actions ys"
  by (induction xs rule: conn_actions.induct) simp_all

lemma conn_actions_grows: "grows w w' \<Longrightarrow> conn_actions (ws_trace w') = conn_actions (ws_trace w) @ new_actions w w'"
  by (auto simp: grows_def new_actions_def conn_actions_append elim!: prefixE)

lemma new_actions_trans:
  assumes "grows w w1" and "grows w1 w2"
  shows "new_actions w w2 = new_actions w w1 @ new_actions w1 w2"
  using assms by (auto simp: grows_def new_actions_def conn_actions_append elim!: prefixE)

lemma run_actions_append: "run_actions (as @ bs) c = run_actions bs (run_actions as c)"
  by (simp add: run_actions_def)

text \<open>
  A connection to which the bytes \<open>t\<close> of the frames are still to come: its websocket has handled the
  frames that are complete, and is in the state \<open>w1\<close>.
\<close>

definition frames_at :: "ws_app \<Rightarrow> (bytes \<times> frame) list \<Rightarrow> ws \<Rightarrow> bytes \<Rightarrow> ws \<Rightarrow> protocol conn \<Rightarrow> bool" where
  "frames_at app mfs w t w1 c \<longleftrightarrow> (\<exists>fs gs. mfs = fs @ gs \<and> handle_frames app (map snd fs) w = (w1, Inr False) \<and>
     cn_protocol c = Some (Ws app w1) \<and> cn_in_buf c @ t = stream gs \<and> read_frame (cn_in_buf c) = Inr Need_more)"

lemma frames_at_start:
  assumes "cn_protocol c = Some (Ws app w)" and "cn_in_buf c = []"
  shows "frames_at app mfs w (stream mfs) w c"
  unfolding frames_at_def using assms by (intro exI [of _ "[]"] exI [of _ mfs]) (simp add: read_frame_short)

lemma frames_at_cong:
  "cn_protocol c = cn_protocol d \<Longrightarrow> cn_in_buf c = cn_in_buf d \<Longrightarrow> frames_at app mfs w t w1 c = frames_at app mfs w t w1 d"
  by (simp add: frames_at_def)

lemma frames_at_step:
  assumes "\<forall>mf \<in> set mfs. short_frame mf" and "handle_frames app (map snd mfs) w = (w', Inr False)"
    and "length (stream mfs) < 2 ^ 31" and "frames_at app mfs w (bs @ t) w1 c"
  obtains w2 consumed where
    "server_data env (Ws app w1) (cn_in_buf c @ bs) = (new_actions w1 w2, Ws app w2, Inr (consumed, None))"
    and "length (cn_in_buf c @ bs) < 2 ^ 31" and "grows w w1" and "grows w1 w2" and "grows w2 w'"
    and "\<And>d. cn_protocol d = Some (Ws app w2) \<Longrightarrow> cn_in_buf d = drop (nat consumed) (cn_in_buf c @ bs) \<Longrightarrow>
      frames_at app mfs w t w2 d"
proof -
  from assms(4) obtain fs gs where split: "mfs = fs @ gs" "handle_frames app (map snd fs) w = (w1, Inr False)"
    and c: "(cn_in_buf c @ bs) @ t = stream gs"
    by (auto simp: frames_at_def)
  have "\<forall>mf \<in> set gs. short_frame mf"
    using assms(1) split(1) by simp
  from stream_prefix [OF this c] obtain fs2 gs2 p where
    rest: "gs = fs2 @ gs2" "cn_in_buf c @ bs = stream fs2 @ p" "read_frame p = Inr Need_more" "p @ t = stream gs2" .
  have "handle_frames app (map snd (fs @ fs2) @ map snd gs2) w = (w', Inr False)"
    using assms(2) split(1) rest(1) by simp
  then obtain w2 where w2: "handle_frames app (map snd (fs @ fs2)) w = (w2, Inr False)"
    and last: "handle_frames app (map snd gs2) w2 = (w', Inr False)"
    by (rule handle_frames_prefix)
  then have frames: "handle_frames app (map snd fs2) w1 = (w2, Inr False)"
    using handle_frames_append [OF split(2), of "map snd fs2"] by simp
  have small: "length (stream fs2 @ p) < 2 ^ 31"
    using arg_cong [OF c, of length] assms(3) split(1) unfolding rest(2) by simp
  have "onDataReceived app (cn_in_buf c @ bs) w1 = (w2, Inr (int (length (stream fs2)), None))"
  proof -
    have "on_data_loop app (stream fs2 @ p) 0 w1 = on_data_loop app p (0 + int (length (stream fs2))) w2"
      using small assms(1) split(1) rest(1) by (intro on_data_frames [OF _ frames]) (auto simp: short_frame_def)
    then show ?thesis
      by (simp add: onDataReceived_def rest(2) on_data_loop.simps [of app p] rest(3))
  qed
  then have "server_data env (Ws app w1) (cn_in_buf c @ bs) =
      (new_actions w1 w2, Ws app w2, Inr (int (length (stream fs2)), None))"
    by (simp add: server_data_def)
  moreover have "frames_at app mfs w t w2 d" if "cn_protocol d = Some (Ws app w2)"
    "cn_in_buf d = drop (nat (int (length (stream fs2)))) (cn_in_buf c @ bs)" for d
    unfolding frames_at_def using that split(1) rest w2 by (intro exI [of _ "fs @ fs2"] exI [of _ gs2]) simp
  moreover have "grows w w1" "grows w1 w2" "grows w2 w'"
    using grows_frames [of w app "map snd fs"] grows_frames [of w1 app "map snd fs2"]
      grows_frames [of w2 app "map snd gs2"] split(2) frames last by simp_all
  ultimately show ?thesis
    using that small [folded rest(2)] by blast
qed

lemma frames_at_end:
  assumes "frames_at app mfs w [] w1 c" and "\<forall>mf \<in> set mfs. short_frame mf"
    and "handle_frames app (map snd mfs) w = (w', Inr False)"
  shows "w1 = w' \<and> cn_protocol c = Some (Ws app w') \<and> cn_in_buf c = []"
proof -
  from assms(1) obtain fs gs where split: "mfs = fs @ gs" "handle_frames app (map snd fs) w = (w1, Inr False)"
    and c: "cn_protocol c = Some (Ws app w1)" "cn_in_buf c = stream gs" "read_frame (cn_in_buf c) = Inr Need_more"
    by (auto simp: frames_at_def)
  have "gs = []"
  proof (cases gs)
    case (Cons g gs')
    then have "short_frame g"
      using assms(2) split(1) by simp
    then obtain mask_key fin opcode p where g: "g = (mask_key, fin, opcode, p)" "length mask_key = 4"
      "standard_op opcode" "length p < 2 ^ 64"
      by (auto simp: short_frame_def good_frame_def split: prod.splits)
    have "cn_in_buf c = client_frame mask_key fin opcode p @ stream gs'"
      using c(2) Cons g(1) by (simp add: frame_bytes_def)
    with read_frame_client [OF g(2-4), of fin "stream gs'"] c(3) show ?thesis
      by simp
  qed simp
  with split assms(3) c show ?thesis
    by simp
qed

lemma frames_read_pieces:
  assumes "\<forall>mf \<in> set mfs. short_frame mf" and "handle_frames app (map snd mfs) w = (w', Inr False)"
    and "length (stream mfs) < 2 ^ 31"
  shows "frames_at app mfs w (concat pieces @ t) w1 c1 \<Longrightarrow> output_state c1 = output_state (run_actions (new_actions w w1) c) \<Longrightarrow>
    \<exists>w2. frames_at app mfs w t w2 (fold (receive env) pieces c1) \<and>
      output_state (fold (receive env) pieces c1) = output_state (run_actions (new_actions w w2) c)"
proof (induction pieces arbitrary: c1 w1)
  case (Cons bs pieces)
  have here: "frames_at app mfs w (bs @ concat pieces @ t) w1 c1"
    using Cons.prems(1) by simp
  from frames_at_step [OF assms here] obtain w2 consumed where
    data: "server_data env (Ws app w1) (cn_in_buf c1 @ bs) = (new_actions w1 w2, Ws app w2, Inr (consumed, None))"
      "length (cn_in_buf c1 @ bs) < 2 ^ 31"
    and grows: "grows w w1" "grows w1 w2"
    and at: "\<And>d. cn_protocol d = Some (Ws app w2) \<Longrightarrow> cn_in_buf d = drop (nat consumed) (cn_in_buf c1 @ bs) \<Longrightarrow>
      frames_at app mfs w (concat pieces @ t) w2 d"
    by blast
  have "cn_protocol c1 = Some (Ws app w1)"
    using here by (auto simp: frames_at_def)
  note receive = receive_data [OF this data]
  have "output_state (receive env bs c1) = output_state (run_actions (new_actions w w2) c)"
    using receive(1) output_state_actions [OF Cons.prems(2), of "new_actions w1 w2"]
    by (simp add: new_actions_trans [OF grows] run_actions_append)
  from Cons.IH [OF at this] receive(2,3) show ?case
    by simp
qed auto

text \<open>A text message in two fragments with a ping between them, in four pieces.\<close>

definition example_pieces :: "bytes list" where
  "example_pieces = [[0x01], [0x81, 1, 2, 3, 4, 73, 0x89, 0x80, 5, 6], [7, 8], [0x80, 0x81, 0, 0, 0, 0, 105]]"

definition example_ws_conn :: "protocol conn" where
  "example_ws_conn = accepted (Ws default_app (setHandler new_ws))"

section \<open>Properties\<close>

text \<open>
  Messages, pings and pongs whose frames have payloads of at most 125 bytes reach the
  application once, in order and complete, however the reads of the socket cut the bytes of the
  frames; the connection carries out the calls the application makes on them, in order, and is left
  with an empty buffer.
\<close>

lemma ws_messages_in_pieces:
  assumes "polite app" and "ws_handler w" and "ws_frag_buffer w = []"
    and "map snd mfs = concat (map frames_of items)" and "\<forall>mf \<in> set mfs. short_frame mf"
    and "length (stream mfs) < 2 ^ 31" and "cn_protocol c = Some (Ws app w)" and "cn_in_buf c = []"
    and "concat pieces = stream mfs"
  shows "\<exists>w'. cn_protocol (fold (receive env) pieces c) = Some (Ws app w') \<and>
    cn_in_buf (fold (receive env) pieces c) = [] \<and>
    calls_of (ws_trace w') = calls_of (ws_trace w) @ concat (map item_calls items) \<and>
    output_state (fold (receive env) pieces c) = output_state (run_actions (new_actions w w') c)"
proof -
  from handle_items [OF assms(1-3), of items] obtain w' where
    w': "handle_frames app (map snd mfs) w = (w', Inr False)"
      "calls_of (ws_trace w') = calls_of (ws_trace w) @ concat (map item_calls items)"
    unfolding assms(4) by blast
  have "output_state c = output_state (run_actions (new_actions w w) c)"
    by (simp add: new_actions_def run_actions_def)
  from frames_read_pieces [OF assms(5) w'(1) assms(6) _ this, of pieces "[]" env] frames_at_start [OF assms(7,8)] assms(9)
  obtain w2 where at: "frames_at app mfs w [] w2 (fold (receive env) pieces c)"
    and out: "output_state (fold (receive env) pieces c) = output_state (run_actions (new_actions w w2) c)"
    by auto
  from frames_at_end [OF at assms(5) w'(1)] out w'(2) show ?thesis
    by blast
qed

end
