(* ===== verification/Serving.thy ===== *)
theory Serving
  imports Server Ws_Stream
begin

text \<open>
  A client of the server from its \<^verbatim>\<open>accept\<close> on (Server.cpp, ConnectionHandler.cpp, HttpProtocol.cpp,
  Websocket.cpp together): its reads and the room of its socket come in any order and mix with the
  events of all other descriptors.
\<close>

section \<open>The events of one client\<close>

text \<open>Data arrives, or the socket has room again; the kernel's answers to \<^verbatim>\<open>send\<close> come with either.\<close>

datatype client_io = Reads "send_answer list" bytes | Writes "send_answer list"

fun io_event :: "nat \<Rightarrow> client_io \<Rightarrow> server_event" where
  "io_event fd (Reads sends bs) = Client_event fd EPOLLIN sends [Received bs]"
| "io_event fd (Writes sends) = Client_event fd EPOLLOUT sends []"

fun io_data :: "client_io \<Rightarrow> bytes" where
  "io_data (Reads sends bs) = bs"
| "io_data (Writes sends) = []"

fun io_sends :: "client_io \<Rightarrow> send_answer list" where
  "io_sends (Reads sends bs) = sends"
| "io_sends (Writes sends) = sends"

definition no_errors :: "client_io list \<Rightarrow> bool" where
  "no_errors ios \<longleftrightarrow> (\<forall>io \<in> set ios. Send_error \<notin> set (io_sends io))"

abbreviation received :: "client_io list \<Rightarrow> bytes" where
  "received ios \<equiv> concat (map io_data ios)"

fun client_step :: "server_env \<Rightarrow> client_io \<Rightarrow> protocol conn \<Rightarrow> protocol conn" where
  "client_step env (Reads sends bs) c = receive env bs (c\<lparr>cn_sends := sends\<rparr>)"
| "client_step env (Writes sends) c =
     fst (on_event (server_protocol env) EPOLLOUT (c\<lparr>cn_sends := sends, cn_recvs := []\<rparr>))"

lemma conn_step_io:
  "cn_open (client_step env io c) \<Longrightarrow> conn_step env fd (io_event fd io) (Some c) = Some (client_step env io c)"
  by (cases io) (auto simp: conn_step_def client_event_def receive_def split: prod.splits)

text \<open>An invariant of the steps that keeps the connection open; its argument is what is still to come.\<close>

lemma conn_steps:
  assumes "\<And>io ios c. I (io # ios) c \<Longrightarrow> I ios (client_step env io c) \<and> cn_open (client_step env io c)"
    and "I ios c"
  obtains c' where "fold (conn_step env fd) (map (io_event fd) ios) (Some c) = Some c'" and "I [] c'"
proof -
  have "\<exists>c'. fold (conn_step env fd) (map (io_event fd) ios) (Some c) = Some c' \<and> I [] c'"
    using assms(2)
  proof (induction ios arbitrary: c)
    case (Cons io ios)
    from assms(1) [OF Cons.prems] have "I ios (client_step env io c)" and "cn_open (client_step env io c)"
      by simp_all
    with Cons.IH conn_step_io show ?case
      by simp
  qed simp
  with that show ?thesis
    by blast
qed

section \<open>A connection in order\<close>

text \<open>It is open, the wire and the queue hold what was written, and no callback will close it.\<close>

definition healthy :: "bytes \<Rightarrow> 'p conn \<Rightarrow> bool" where
  "healthy written c \<longleftrightarrow> cn_open c \<and> (\<exists>cbs. queue_ok written cbs c \<and> Close_after \<notin> set cbs)"

lemma healthy_output:
  "output_state c = output_state d \<Longrightarrow> healthy written c = healthy written d"
  by (simp add: healthy_def queue_ok_def output_state_def)

lemma healthy_sends:
  "healthy written c \<Longrightarrow> Send_error \<notin> set sends \<Longrightarrow> healthy written (c\<lparr>cn_sends := sends\<rparr>)"
  by (auto simp: healthy_def queue_ok_def)

lemma healthy_accepted: "healthy [] (accepted p)"
  using queue_ok_accepted by (fastforce simp: healthy_def accepted_def)

text \<open>Calls of a protocol that only write.\<close>

definition writes_only :: "conn_action list \<Rightarrow> bool" where
  "writes_only acts \<longleftrightarrow> (\<forall>act \<in> set acts. \<exists>bs cb. act = Write bs cb \<and> length bs < 2 ^ 31 \<and> cb \<noteq> Close_after)"

lemma writes_only_simps [simp]:
  "writes_only []" "writes_only (Write bs cb # acts) \<longleftrightarrow> length bs < 2 ^ 31 \<and> cb \<noteq> Close_after \<and> writes_only acts"
  "\<not> writes_only (Close # acts)" "writes_only (acts @ acts') \<longleftrightarrow> writes_only acts \<and> writes_only acts'"
  by (auto simp: writes_only_def)

lemma healthy_write:
  assumes "healthy written c" and "length bs < 2 ^ 31" and "cb \<noteq> Close_after"
  shows "healthy (written @ bs) (write_conn bs cb c)"
proof -
  from assms(1) obtain cbs where "queue_ok written cbs c" "Close_after \<notin> set cbs" "cn_open c"
    by (auto simp: healthy_def)
  from queue_ok_write [OF this(1) assms(2), of cb] this(2,3) assms(3) show ?thesis
    unfolding healthy_def
    by (intro conjI exI [of _ "cbs @ filter (\<lambda>cb. cb \<noteq> No_callback) [cb]"]) (simp_all add: write_keeps_open)
qed

lemma healthy_actions:
  "healthy written c \<Longrightarrow> writes_only acts \<Longrightarrow> healthy (written @ written_by acts) (run_actions acts c)"
proof (induction acts arbitrary: written c rule: written_by.induct)
  case (2 bs cb acts)
  then have "healthy ((written @ bs) @ written_by acts) (run_actions acts (write_conn bs cb c))"
    by (intro 2(1) healthy_write) simp_all
  then show ?case
    by (simp add: run_actions_def)
qed (simp_all add: run_actions_def)

lemma healthy_writable:
  assumes "healthy written c" and "cn_protocol c \<noteq> None"
  shows "healthy written (on_writable c) \<and> cn_protocol (on_writable c) = cn_protocol c \<and>
    cn_in_buf (on_writable c) = cn_in_buf c"
proof -
  obtain jobs' c' where flush: "flush_jobs (cn_jobs c) c = (jobs', c')"
    by (metis surj_pair)
  from assms(1) obtain cbs where cbs: "queue_ok written cbs c" "Close_after \<notin> set cbs"
    by (auto simp: healthy_def)
  then have "Close_after \<notin> set (callbacks (cn_jobs c))"
    by (auto simp: queue_ok_def)
  from flush_jobs_keeps [OF flush this] assms flush queue_ok_writable [OF cbs(1)] cbs(2) show ?thesis
    by (auto simp: healthy_def on_writable_def Let_def)
qed

lemma client_writes:
  assumes "healthy written c" and "cn_protocol c \<noteq> None" and "Send_error \<notin> set sends"
  shows "healthy written (client_step env (Writes sends) c) \<and> cn_protocol (client_step env (Writes sends) c) = cn_protocol c \<and>
    cn_in_buf (client_step env (Writes sends) c) = cn_in_buf c"
proof -
  let ?c = "c\<lparr>cn_sends := sends, cn_recvs := [], cn_armed := None\<rparr>"
  have "output_state ?c = output_state (c\<lparr>cn_sends := sends\<rparr>)"
    by (simp add: output_state_def)
  with assms(1,3) have "healthy written ?c"
    using healthy_output healthy_sends by blast
  from healthy_writable [OF this] assms(2) show ?thesis
    by (simp add: on_event_writable healthy_output [OF output_state_rearm])
qed

lemma client_reads:
  assumes "healthy written c" and "cn_protocol c = Some p" and "Send_error \<notin> set sends"
    and "server_data env p (cn_in_buf c @ bs) = (acts, p', Inr (consumed, change))"
    and "length (cn_in_buf c @ bs) < 2 ^ 31" and "writes_only acts"
  shows "healthy (written @ written_by acts) (client_step env (Reads sends bs) c)"
    and "cn_in_buf (client_step env (Reads sends bs) c) = drop (nat consumed) (cn_in_buf c @ bs)"
    and "cn_protocol (client_step env (Reads sends bs) c) = (case change of None \<Rightarrow> Some p' | Some p \<Rightarrow> p)"
proof -
  let ?c = "c\<lparr>cn_sends := sends\<rparr>"
  have c: "cn_protocol ?c = Some p" "server_data env p (cn_in_buf ?c @ bs) = (acts, p', Inr (consumed, change))"
    "length (cn_in_buf ?c @ bs) < 2 ^ 31"
    using assms(2,4,5) by simp_all
  note receive = receive_data [OF c]
  have "healthy (written @ written_by acts) (run_actions acts ?c)"
    by (rule healthy_actions [OF healthy_sends [OF assms(1,3)] assms(6)])
  with healthy_output [OF receive(1)] show "healthy (written @ written_by acts) (client_step env (Reads sends bs) c)"
    by simp
  show "cn_in_buf (client_step env (Reads sends bs) c) = drop (nat consumed) (cn_in_buf c @ bs)"
    and "cn_protocol (client_step env (Reads sends bs) c) = (case change of None \<Rightarrow> Some p' | Some p \<Rightarrow> p)"
    using receive(2,3) by simp_all
qed

section \<open>Requests one after the other\<close>

text \<open>Between two requests.\<close>

definition at_rest :: "bytes \<Rightarrow> protocol conn \<Rightarrow> bool" where
  "at_rest written c \<longleftrightarrow> healthy written c \<and> cn_protocol c = Some (Http None) \<and> cn_in_buf c = []"

text \<open>While a request arrives: a prefix of it has been read.\<close>

definition in_request :: "bytes \<Rightarrow> bytes \<Rightarrow> header \<Rightarrow> conn_action list \<Rightarrow> bytes \<Rightarrow> client_io list \<Rightarrow> protocol conn \<Rightarrow> bool" where
  "in_request block body hdr acts written ios c \<longleftrightarrow> no_errors ios \<and>
     (\<exists>s. s @ received ios = block @ body \<and> progressed block body hdr s c \<and>
       healthy (written @ (if s = block @ body then written_by acts else [])) c)"

lemma in_request_step:
  assumes "answered_with env block body acts hdr" and "length (block @ body) < 2 ^ 31" and "writes_only acts"
    and "in_request block body hdr acts written (io # ios) c"
  shows "in_request block body hdr acts written ios (client_step env io c) \<and> cn_open (client_step env io c)"
proof -
  from assms(4) obtain s where s: "s @ io_data io @ received ios = block @ body" "progressed block body hdr s c"
    and healthy: "healthy (written @ (if s = block @ body then written_by acts else [])) c"
    and fits: "Send_error \<notin> set (io_sends io)" "no_errors ios"
    by (auto simp: in_request_def no_errors_def)
  show ?thesis
  proof (cases io)
    case (Reads sends bs)
    have c: "progressed block body hdr s (c\<lparr>cn_sends := sends\<rparr>)"
      "healthy (written @ (if s = block @ body then written_by acts else [])) (c\<lparr>cn_sends := sends\<rparr>)"
      using s(2) healthy fits(1) Reads by (simp_all add: progressed_def healthy_sends)
    have split: "s @ bs @ received ios = block @ body"
      using s(1) Reads by simp
    note step = receive_progress [OF assms(1,2) split c(1)]
    have "healthy (written @ (if s @ bs = block @ body then written_by acts else [])) (receive env bs (c\<lparr>cn_sends := sends\<rparr>))"
    proof (cases "s \<noteq> block @ body \<and> s @ bs = block @ body")
      case True
      with c(2) have "healthy (written @ written_by acts) (run_actions acts (c\<lparr>cn_sends := sends\<rparr>))"
        by (intro healthy_actions [OF _ assms(3)]) simp
      with True healthy_output [OF step(2)] show ?thesis
        by simp
    next
      case False
      have same: "s = block @ body \<longleftrightarrow> s @ bs = block @ body"
        using False split by (cases "s = block @ body") simp_all
      have "output_state (receive env bs (c\<lparr>cn_sends := sends\<rparr>)) = output_state (c\<lparr>cn_sends := sends\<rparr>)"
        using step(2) unfolding if_not_P [OF False] .
      from healthy_output [OF this] c(2) show ?thesis
        unfolding same by (rule iffD2)
    qed
    with step(1) split fits(2) Reads show ?thesis
      unfolding in_request_def by (intro conjI exI [of _ "s @ bs"]) (simp_all add: healthy_def)
  next
    case (Writes sends)
    with client_writes [OF healthy, of sends env] s fits show ?thesis
      unfolding in_request_def by (intro conjI exI [of _ s]) (simp_all add: progressed_def healthy_def)
  qed
qed

lemma serve_request:
  assumes "answered_with env block body acts hdr" and "length (block @ body) < 2 ^ 31" and "writes_only acts"
    and "at_rest written c" and "received ios = block @ body" and "no_errors ios"
  obtains c' where "fold (conn_step env fd) (map (io_event fd) ios) (Some c) = Some c'"
    and "at_rest (written @ written_by acts) c'"
proof -
  have block: "4 \<le> length block"
    using assms(1) by (simp add: answered_with_def header_block_def)
  then have "in_request block body hdr acts written ios c"
    using assms(4-6) unfolding in_request_def at_rest_def
    by (intro conjI exI [of _ "[]"]) (auto simp: progressed_def request_progress_def)
  from conn_steps [where I = "in_request block body hdr acts written", OF in_request_step [OF assms(1-3)] this]
  obtain c' where "fold (conn_step env fd) (map (io_event fd) ios) (Some c) = Some c'"
    and "in_request block body hdr acts written [] c'"
    by metis
  with that show ?thesis
    by (auto simp: in_request_def at_rest_def progressed_def request_progress_def)
qed

text \<open>A request of a client and the response of the route, and their bytes.\<close>

record exchange =
  ex_method :: string
  ex_path :: string
  ex_query :: "field_val list"
  ex_version :: string
  ex_fields :: "(string \<times> string) list"
  ex_cookies :: "field_val list list"
  ex_length :: "nat option"
  ex_body :: bytes
  ex_response :: response
  ex_reason :: string

definition exchange_block :: "exchange \<Rightarrow> bytes" where
  "exchange_block ex = request_head (ex_method ex) (target (ex_path ex) (ex_query ex)) (ex_version ex) (ex_fields ex)"

definition exchange_header :: "exchange \<Rightarrow> header" where
  "exchange_header ex = expected_header (ex_method ex) (ex_path ex) (ex_query ex) (ex_version ex) (ex_fields ex)
     (ex_cookies ex) (ex_length ex)"

definition exchange_reply :: "exchange \<Rightarrow> bytes" where
  "exchange_reply ex = (case serialize (ex_response ex) of Inr out \<Rightarrow> out | Inl e \<Rightarrow> [])"

text \<open>A request that is no request for a websocket, and that a route answers with this response.\<close>

definition proper_exchange :: "server_env \<Rightarrow> exchange \<Rightarrow> bool" where
  "proper_exchange env ex \<longleftrightarrow>
     clean_request (ex_method ex) (ex_path ex) (ex_query ex) (ex_version ex) (ex_fields ex) (ex_cookies ex) (ex_length ex) \<and>
     length (ex_body ex) = h_content_length (exchange_header ex) \<and>
     length (exchange_block ex @ ex_body ex) < 2 ^ 31 \<and> length (exchange_reply ex) < 2 ^ 31 \<and>
     read_body_args (exchange_header ex) (ex_body ex) = Inr (exchange_header ex) \<and>
     wants_upgrade (exchange_header ex) = Inr False \<and>
     route_request (se_dispatcher env) \<lparr>rq_header = exchange_header ex, rq_message_body = ex_body ex\<rparr> =
       Inr (ex_response ex) \<and>
     clean_response (ex_response ex) (ex_reason ex)"

lemma proper_exchange_answered:
  assumes "proper_exchange env ex"
  shows "answered_with env (exchange_block ex) (ex_body ex) [Write (exchange_reply ex) No_callback] (exchange_header ex)"
    and "client_read (exchange_reply ex) = Some (response_view (ex_response ex) (ex_reason ex))"
proof -
  have out: "serialize (ex_response ex) = Inr (exchange_reply ex)"
    using assms by (simp add: proper_exchange_def exchange_reply_def clean_response_def serialize_text)
  show "answered_with env (exchange_block ex) (ex_body ex) [Write (exchange_reply ex) No_callback] (exchange_header ex)"
    unfolding exchange_block_def exchange_header_def
    by (rule answered_with_response [OF clean_request_block, where hdr' = "exchange_header ex" and resp = "ex_response ex"])
      (use assms out in \<open>simp_all add: proper_exchange_def exchange_header_def\<close>)
  show "client_read (exchange_reply ex) = Some (response_view (ex_response ex) (ex_reason ex))"
    using assms out by (intro clean_response_view) (simp_all add: proper_exchange_def)
qed

lemma serve_exchanges:
  assumes "\<forall>ex \<in> set exs. proper_exchange env ex"
    and "map received groups = map (\<lambda>ex. exchange_block ex @ ex_body ex) exs" and "no_errors (concat groups)"
    and "at_rest written c"
  obtains c' where "fold (conn_step env fd) (map (io_event fd) (concat groups)) (Some c) = Some c'"
    and "at_rest (written @ concat (map exchange_reply exs)) c'"
proof -
  have "\<exists>c'. fold (conn_step env fd) (map (io_event fd) (concat groups)) (Some c) = Some c' \<and>
      at_rest (written @ concat (map exchange_reply exs)) c'"
    using assms
  proof (induction exs arbitrary: groups written c)
    case (Cons ex exs)
    then obtain ios rest where groups: "groups = ios # rest" "received ios = exchange_block ex @ ex_body ex"
      "map received rest = map (\<lambda>ex. exchange_block ex @ ex_body ex) exs"
      by (auto simp: map_eq_Cons_conv)
    have ex: "proper_exchange env ex"
      using Cons.prems(1) by simp
    then have size: "length (exchange_block ex @ ex_body ex) < 2 ^ 31" "length (exchange_reply ex) < 2 ^ 31"
      by (simp_all add: proper_exchange_def)
    have errors: "no_errors ios" "no_errors (concat rest)"
      using Cons.prems(3) groups(1) by (auto simp: no_errors_def)
    have "writes_only [Write (exchange_reply ex) No_callback]"
      using size(2) by simp
    from serve_request [OF proper_exchange_answered(1) [OF ex] size(1) this Cons.prems(4) groups(2) errors(1), of fd]
    obtain c1 where c1: "fold (conn_step env fd) (map (io_event fd) ios) (Some c) = Some c1"
      "at_rest (written @ exchange_reply ex) c1"
      by auto
    from Cons.IH [OF _ groups(3) errors(2) c1(2)] Cons.prems(1) c1(1) groups(1) show ?case
      by simp
  qed simp
  with that show ?thesis
    by blast
qed

text \<open>The events of a client are the only ones that matter to its connection.\<close>

lemma client_alone:
  assumes "filter (concerns fd) evs = Accepts i EPOLLIN fds # map (io_event fd) ios"
  shows "sv_conns (fold (\<lambda>ev sv. fst (server_step env ev sv)) evs sv) fd =
    fold (conn_step env fd) (map (io_event fd) ios) (Some (accepted (Http None)))"
proof -
  have "concerns fd (Accepts i EPOLLIN fds)"
    using arg_cong [OF assms, of set] by (auto simp del: concerns.simps)
  then have "conn_step env fd (Accepts i EPOLLIN fds) c = Some (accepted (Http None))" for c
    by (simp add: conn_step_def)
  then show ?thesis
    by (simp add: clients_isolated assms)
qed

lemma has_room_less: "has_room answers n \<Longrightarrow> m \<le> n \<Longrightarrow> has_room answers m"
  by (simp add: has_room_def)

lemma drain_client:
  assumes "at_rest written c" and "has_room sends (length written)"
  shows "\<exists>c'. conn_step env fd (io_event fd (Writes sends)) (Some c) = Some c' \<and> at_rest written c' \<and>
    cn_wire c' = written \<and> cn_jobs c' = [] \<and> cn_armed c' = Some (EPOLLIN OR EPOLLHUP OR EPOLLRDHUP OR EPOLLONESHOT)"
proof -
  let ?c = "c\<lparr>cn_sends := sends, cn_recvs := []\<rparr>"
  have errors: "Send_error \<notin> set sends"
    by (rule has_room_no_error [OF assms(2)])
  from assms(1) obtain cbs where cbs: "queue_ok written cbs c" "Close_after \<notin> set cbs" "cn_open c"
    and http: "cn_protocol c = Some (Http None)" "cn_in_buf c = []"
    by (auto simp: at_rest_def healthy_def)
  have "length (pending (cn_jobs c)) \<le> length written"
    using cbs(1,3) by (auto simp: queue_ok_def)
  from has_room_less [OF assms(2) this] have room: "has_room (cn_sends ?c) (length (pending (cn_jobs ?c)))"
    by simp
  have "queue_ok written cbs ?c" "Close_after \<notin> set (callbacks (cn_jobs ?c))"
    using cbs errors by (auto simp: queue_ok_def)
  from drain_event [OF this(1) _ _ room this(2), of "server_protocol env"] cbs(3) http(1)
  obtain c' where c': "on_event (server_protocol env) EPOLLOUT ?c = (c', Inr ())" "cn_open c'" "cn_jobs c' = []"
    "cn_wire c' = written" "cn_armed c' = Some (EPOLLIN OR EPOLLHUP OR EPOLLRDHUP OR EPOLLONESHOT)"
    by auto
  have step: "client_step env (Writes sends) c = c'"
    using c'(1) by simp
  have "at_rest written c'"
    using client_writes [OF _ _ errors, of written c env] assms(1) http unfolding step by (simp add: at_rest_def)
  with c' conn_step_io [of env "Writes sends" c fd] step show ?thesis
    by simp
qed

definition example_exchange :: exchange where
  "example_exchange = \<lparr>ex_method = ''GET'', ex_path = ''/'', ex_query = [], ex_version = ''HTTP/1.1'', ex_fields = [],
     ex_cookies = [], ex_length = None, ex_body = [], ex_response = response_of_body [33], ex_reason = ''OK''\<rparr>"

lemma example_exchange_simps:
  "exchange_block example_exchange = example_block" "exchange_header example_exchange = example_header"
  "exchange_reply example_exchange = example_out" "ex_body example_exchange = []"
  by (simp_all add: example_exchange_def exchange_block_def exchange_header_def exchange_reply_def example_block_def
      example_header_def example_out_def target_def)

lemma proper_example_exchange: "proper_exchange example_env example_exchange"
  using example_clean_request example_request_read example_routed example_response
  by (simp add: proper_exchange_def example_exchange_simps)
    (simp add: example_exchange_def example_block_def example_header_def expected_header_def request_head_def text_defs)

text \<open>Two clients, one of which sends two requests and one nothing but a byte.\<close>

definition example_events :: "server_event list" where
  "example_events = [Listens, Accepts 0 EPOLLIN [4, 5], Client_event 4 EPOLLIN [] [Received (take 3 example_block)],
     Client_event 5 EPOLLIN [Room 1] [Received [71]], Client_event 4 EPOLLIN [Room 2] [Received (drop 3 example_block)],
     Client_event 4 EPOLLIN [] [Received example_block], Client_event 5 EPOLLHUP [] [],
     Client_event 4 EPOLLOUT (replicate (length (example_out @ example_out)) (Room 1)) []]"

section \<open>Properties\<close>

text \<open>
  C1. A client is served. Its requests follow each other on one connection, each cut into pieces in
  any way, between the pieces the socket takes as much output as it likes, and the events of all
  other descriptors and listening sockets come in between. Once the socket has room, the client has
  received the responses that the routes gave to its requests, in their order and nothing else, reads
  each of them back, and the connection waits for the next request.
\<close>

theorem server_serves_client:
  assumes "\<forall>ex \<in> set exs. proper_exchange env ex"
    and "map received groups = map (\<lambda>ex. exchange_block ex @ ex_body ex) exs" and "no_errors (concat groups)"
    and "has_room sends (length (concat (map exchange_reply exs)))"
    and "filter (concerns fd) evs = Accepts i EPOLLIN fds # map (io_event fd) (concat groups @ [Writes sends])"
  shows "\<exists>c. sv_conns (fold (\<lambda>ev sv. fst (server_step env ev sv)) evs sv) fd = Some c \<and>
    cn_wire c = concat (map exchange_reply exs) \<and> cn_jobs c = [] \<and> cn_in_buf c = [] \<and>
    cn_armed c = Some (EPOLLIN OR EPOLLHUP OR EPOLLRDHUP OR EPOLLONESHOT) \<and>
    (\<forall>ex \<in> set exs. client_read (exchange_reply ex) = Some (response_view (ex_response ex) (ex_reason ex)))"
proof -
  have "at_rest [] (accepted (Http None))"
    using healthy_accepted by (simp add: at_rest_def accepted_def)
  from serve_exchanges [OF assms(1-3) this, of fd] obtain c where
    c: "fold (conn_step env fd) (map (io_event fd) (concat groups)) (Some (accepted (Http None))) = Some c"
      "at_rest (concat (map exchange_reply exs)) c"
    by auto
  from drain_client [OF c(2) assms(4), of env fd] c(1) client_alone [OF assms(5), of env sv] assms(1)
    proper_exchange_answered(2) show ?thesis
    by (auto simp: at_rest_def simp del: io_event.simps)
qed

theorem server_serves_client_witness:
  "\<exists>c. sv_conns (fold (\<lambda>ev sv. fst (server_step example_env ev sv)) example_events make_server) 4 = Some c \<and>
    cn_wire c = example_out @ example_out"
proof -
  let ?sends = "replicate (length (example_out @ example_out)) (Room 1)"
  let ?groups = "[[Reads [] (take 3 example_block), Reads [Room 2] (drop 3 example_block)], [Reads [] example_block]]"
  have "filter (concerns 4) example_events = Accepts 0 EPOLLIN [4, 5] # map (io_event 4) (concat ?groups @ [Writes ?sends])"
    by (simp add: example_events_def)
  moreover have "has_room ?sends (length (concat (map exchange_reply [example_exchange, example_exchange])))"
    by (simp add: has_room_def example_exchange_simps)
  moreover have "map received ?groups = map (\<lambda>ex. exchange_block ex @ ex_body ex) [example_exchange, example_exchange]"
    by (simp add: example_exchange_simps)
  ultimately obtain c where "sv_conns (fold (\<lambda>ev sv. fst (server_step example_env ev sv)) example_events make_server) 4 = Some c"
    and "cn_wire c = concat (map exchange_reply [example_exchange, example_exchange])"
    using server_serves_client [of "[example_exchange, example_exchange]" example_env ?groups ?sends 4 example_events 0 "[4, 5]"
        make_server] proper_example_exchange by (auto simp: no_errors_def)
  then show ?thesis
    by (simp add: example_exchange_simps)
qed

end
