(* ===== verification/Ws_Serving.thy ===== *)
theory Ws_Serving
  imports Serving
begin

text \<open>
  A client of the server that opens a websocket: from its \<^verbatim>\<open>accept\<close> over the handshake to the messages
  in both directions, with the events of other descriptors in between.
\<close>

section \<open>Frames\<close>

text \<open>The websocket has handled the complete frames, and the output is that of its calls so far.\<close>

definition frames_served :: "ws_app \<Rightarrow> (bytes \<times> frame) list \<Rightarrow> ws \<Rightarrow> bytes \<Rightarrow> bytes \<Rightarrow> protocol conn \<Rightarrow> bool" where
  "frames_served app mfs w out t c \<longleftrightarrow>
     (\<exists>w1. frames_at app mfs w t w1 c \<and> healthy (out @ written_by (conn_actions (ws_trace w1))) c)"

lemma frames_served_step:
  assumes "\<forall>mf \<in> set mfs. short_frame mf" and "handle_frames app (map snd mfs) w = (w', Inr False)"
    and "length (stream mfs) < 2 ^ 31" and "writes_only (conn_actions (ws_trace w'))"
    and "frames_served app mfs w out (io_data io @ t) c" and "Send_error \<notin> set (io_sends io)"
  shows "frames_served app mfs w out t (client_step env io c) \<and> cn_open (client_step env io c)"
proof -
  from assms(5) obtain w1 where at: "frames_at app mfs w (io_data io @ t) w1 c"
    and healthy: "healthy (out @ written_by (conn_actions (ws_trace w1))) c"
    by (auto simp: frames_served_def)
  have prot: "cn_protocol c = Some (Ws app w1)"
    using at by (auto simp: frames_at_def)
  show ?thesis
  proof (cases io)
    case (Reads sends bs)
    have here: "frames_at app mfs w (bs @ t) w1 c"
      using at Reads by simp
    from frames_at_step [OF assms(1-3) here] obtain w2 consumed where
      data: "server_data env (Ws app w1) (cn_in_buf c @ bs) = (new_actions w1 w2, Ws app w2, Inr (consumed, None))"
        "length (cn_in_buf c @ bs) < 2 ^ 31"
      and grows: "grows w1 w2" "grows w2 w'"
      and next_at: "\<And>d. cn_protocol d = Some (Ws app w2) \<Longrightarrow> cn_in_buf d = drop (nat consumed) (cn_in_buf c @ bs) \<Longrightarrow>
        frames_at app mfs w t w2 d"
      by blast
    have acts: "conn_actions (ws_trace w2) = conn_actions (ws_trace w1) @ new_actions w1 w2"
      by (rule conn_actions_grows [OF grows(1)])
    have "writes_only (new_actions w1 w2)"
      using assms(4) conn_actions_grows [OF grows(2)] acts by simp
    from client_reads [OF healthy prot _ data this, of sends] assms(6) Reads next_at show ?thesis
      unfolding frames_served_def by (intro conjI exI [of _ w2]) (simp_all add: acts written_by_append healthy_def)
  next
    case (Writes sends)
    with client_writes [OF healthy, of sends env] prot assms(6) at show ?thesis
      unfolding frames_served_def
      by (intro conjI exI [of _ w1]) (auto simp: frames_at_def healthy_def)
  qed
qed

lemma serve_frames:
  assumes "\<forall>mf \<in> set mfs. short_frame mf" and "handle_frames app (map snd mfs) w = (w', Inr False)"
    and "length (stream mfs) < 2 ^ 31" and "writes_only (conn_actions (ws_trace w'))"
    and "frames_served app mfs w out (received ios) c" and "no_errors ios"
  obtains c' where "fold (conn_step env fd) (map (io_event fd) ios) (Some c) = Some c'"
    and "cn_protocol c' = Some (Ws app w')" and "cn_in_buf c' = []"
    and "healthy (out @ written_by (conn_actions (ws_trace w'))) c'"
proof -
  let ?I = "\<lambda>ios c. no_errors ios \<and> frames_served app mfs w out (received ios) c"
  have "?I ios (client_step env io c) \<and> cn_open (client_step env io c)" if "?I (io # ios) c" for io ios c
    using that frames_served_step [OF assms(1-4), of out io "received ios" c env] by (simp add: no_errors_def)
  from conn_steps [where I = ?I, OF this, of ios c fd] assms(5,6) obtain c' where
    c': "fold (conn_step env fd) (map (io_event fd) ios) (Some c) = Some c'" "frames_served app mfs w out [] c'"
    by auto
  from c'(2) obtain w1 where "frames_at app mfs w [] w1 c'" "healthy (out @ written_by (conn_actions (ws_trace w1))) c'"
    by (auto simp: frames_served_def)
  with frames_at_end [OF this(1) assms(1,2)] c'(1) that show ?thesis
    by blast
qed

section \<open>The handshake\<close>

text \<open>A request for a websocket that a route accepts, what the server answers and the websocket it makes.\<close>

definition opens_websocket :: "server_env \<Rightarrow> bytes \<Rightarrow> header \<Rightarrow> (ws, ws_app) ws_route \<Rightarrow> ws \<Rightarrow> bytes \<Rightarrow> bool" where
  "opens_websocket env block hdr route w out \<longleftrightarrow>
     header_block block (Inr hdr) \<and> length block < 2 ^ 31 \<and> length out < 2 ^ 31 \<and>
     wants_upgrade hdr = Inr True \<and> h_content_length hdr = 0 \<and> umm_find ''content-type'' (h_fields hdr) = None \<and>
     (case check_upgrade hdr of Inl e \<Rightarrow> False | Inr key \<Rightarrow> serialize (upgrade_response (se_sha1 env) key) = Inr out) \<and>
     (case routeWS (se_dispatcher env) \<lparr>rq_header = hdr, rq_message_body = []\<rparr> of
        Inl e \<Rightarrow> False | Inr r \<Rightarrow> r = route) \<and>
     onOpen route \<lparr>rq_header = hdr, rq_message_body = []\<rparr> new_ws = (w, Inr ())"

lemma server_data_opens:
  assumes "opens_websocket env block hdr route w out"
  shows "server_data env (Http None) block =
    (Write out No_callback # conn_actions (ws_trace w), Http None,
     Inr (int (length block), Some (Some (Ws (getHandler route) (setHandler w)))))"
proof -
  from assms obtain key where "upgrade_request hdr key" "serialize (upgrade_response (se_sha1 env) key) = Inr out"
    and "header_block block (Inr hdr)" "length block < 2 ^ 31"
    and "routeWS (se_dispatcher env) \<lparr>rq_header = hdr, rq_message_body = []\<rparr> = Inr route"
    and "onOpen route \<lparr>rq_header = hdr, rq_message_body = []\<rparr> new_ws = (w, Inr ())"
    by (auto simp: opens_websocket_def upgrade_request_def split: sum.splits)
  from http_upgraded [OF this(3,1,4,5,6,2), of "Suc (Suc (length block))" "[]"] show ?thesis
    by (simp add: server_data_def turns_needed_def numeral_3_eq_3)
qed

definition in_opening ::
    "bytes \<Rightarrow> ws_app \<Rightarrow> (bytes \<times> frame) list \<Rightarrow> ws \<Rightarrow> bytes \<Rightarrow> client_io list \<Rightarrow> protocol conn \<Rightarrow> bool" where
  "in_opening block app mfs w out ios c \<longleftrightarrow> no_errors ios \<and>
     (\<exists>s. s @ received ios = block \<and>
        (if s = block then frames_served app mfs (setHandler w) out (stream mfs) c
         else cn_protocol c = Some (Http None) \<and> cn_in_buf c = s \<and> healthy [] c))"

lemma in_opening_step:
  assumes "opens_websocket env block hdr route w out" and "app = getHandler route"
    and "\<forall>mf \<in> set mfs. short_frame mf" and "handle_frames app (map snd mfs) (setHandler w) = (w', Inr False)"
    and "length (stream mfs) < 2 ^ 31" and "writes_only (conn_actions (ws_trace w'))"
    and "in_opening block app mfs w out (io # ios) c"
  shows "in_opening block app mfs w out ios (client_step env io c) \<and> cn_open (client_step env io c)"
proof -
  from assms(7) obtain s where s: "s @ io_data io @ received ios = block" and fits: "Send_error \<notin> set (io_sends io)" "no_errors ios"
    and c: "if s = block then frames_served app mfs (setHandler w) out (stream mfs) c
       else cn_protocol c = Some (Http None) \<and> cn_in_buf c = s \<and> healthy [] c"
    by (auto simp: in_opening_def no_errors_def)
  show ?thesis
  proof (cases "s = block")
    case True
    then have "io_data io = []"
      using s by simp
    with frames_served_step [OF assms(3-6), of out io "stream mfs" c env] c True fits s show ?thesis
      unfolding in_opening_def by (intro conjI exI [of _ block]) simp_all
  next
    case False
    then have http: "cn_protocol c = Some (Http None)" "cn_in_buf c = s" "healthy [] c"
      using c by simp_all
    show ?thesis
    proof (cases io)
      case (Writes sends)
      with client_writes [OF http(3), of sends env] http False fits s show ?thesis
        unfolding in_opening_def by (intro conjI exI [of _ s]) (simp_all add: healthy_def)
    next
      case (Reads sends bs)
      have sent: "Send_error \<notin> set sends" and split: "(s @ bs) @ received ios = block"
        using fits(1) s Reads by simp_all
      have block: "header_block block (Inr hdr)" "length block < 2 ^ 31" "length out < 2 ^ 31"
        using assms(1) by (simp_all add: opens_websocket_def)
      have small: "length (cn_in_buf c @ bs) < 2 ^ 31"
        using arg_cong [OF split, of length] block(2) http(2) by simp
      show ?thesis
      proof (cases "s @ bs = block")
        case True
        have data: "server_data env (Http None) (cn_in_buf c @ bs) =
            (Write out No_callback # conn_actions (ws_trace w), Http None,
             Inr (int (length block), Some (Some (Ws (getHandler route) (setHandler w)))))"
          using server_data_opens [OF assms(1)] True http(2) by simp
        have "grows (setHandler w) w'"
          using grows_frames [of "setHandler w" app "map snd mfs"] assms(4) by simp
        from conn_actions_grows [OF this] assms(6) have "writes_only (conn_actions (ws_trace w))"
          by (simp add: setHandler_def)
        then have "writes_only (Write out No_callback # conn_actions (ws_trace w))"
          using block(3) by simp
        note reads = client_reads [OF http(3,1) sent data small this]
        have "frames_at app mfs (setHandler w) (stream mfs) (setHandler w) (client_step env (Reads sends bs) c)"
          using reads(2,3) True http(2) assms(2) by (intro frames_at_start) simp_all
        with reads(1) have "frames_served app mfs (setHandler w) out (stream mfs) (client_step env (Reads sends bs) c)"
          unfolding frames_served_def by (intro exI [of _ "setHandler w"]) (simp add: setHandler_def)
        with reads(1) True split fits(2) Reads show ?thesis
          unfolding in_opening_def by (intro conjI exI [of _ block]) (simp_all add: healthy_def)
      next
        case False
        have "length (s @ bs) < length block"
          using split False by (cases "received ios") auto
        then have "index_sub blank_line (s @ bs) = None"
          using prefix_no_blank_line [OF block(1), of "s @ bs" "received ios" "[]"] split by simp
        then have data: "server_data env (Http None) (cn_in_buf c @ bs) = ([], Http None, Inr (0, None))"
          using server_data_no_header http(2) by simp
        from client_reads [OF http(3,1) sent data small] False split fits(2) Reads http(2) show ?thesis
          unfolding in_opening_def by (intro conjI exI [of _ "s @ bs"]) (simp_all add: healthy_def)
      qed
    qed
  qed
qed

lemma serve_opening:
  assumes "opens_websocket env block hdr route w out" and "app = getHandler route"
    and "\<forall>mf \<in> set mfs. short_frame mf" and "handle_frames app (map snd mfs) (setHandler w) = (w', Inr False)"
    and "length (stream mfs) < 2 ^ 31" and "writes_only (conn_actions (ws_trace w'))"
    and "received ios = block" and "no_errors ios"
  obtains c where "fold (conn_step env fd) (map (io_event fd) ios) (Some (accepted (Http None))) = Some c"
    and "frames_served app mfs (setHandler w) out (stream mfs) c"
proof -
  have "4 \<le> length block"
    using assms(1) by (simp add: opens_websocket_def header_block_def)
  then have "in_opening block app mfs w out ios (accepted (Http None))"
    using assms(7,8) healthy_accepted unfolding in_opening_def
    by (intro conjI exI [of _ "[]"]) (auto simp: accepted_def)
  from conn_steps [where I = "in_opening block app mfs w out", OF in_opening_step [OF assms(1-6)] this, of fd]
  obtain c where c: "fold (conn_step env fd) (map (io_event fd) ios) (Some (accepted (Http None))) = Some c"
    "in_opening block app mfs w out [] c"
    by metis
  then have "frames_served app mfs (setHandler w) out (stream mfs) c"
    by (auto simp: in_opening_def)
  with c(1) that show ?thesis
    by blast
qed

lemma upgrade_bytes:
  assumes "length (sha1 (bytes_of_string (key @ magic_ws_guid))) = 20"
  shows "\<exists>out. serialize (upgrade_response sha1 key) = Inr out \<and> length out = 169"
proof -
  let ?r = "upgrade_response sha1 key"
  have "rs_version ?r = ''HTTP/1.1''" "rs_reason_phrase ?r = []" "rs_status_code ?r = 101" "rs_message_body ?r = None"
    by (simp_all add: upgrade_response_def default_response_def Let_def)
  then show ?thesis
    using clean_accept_key(2) [of sha1 key, OF assms]
    by (simp add: serialize_def upgrade_response_fields code2reason_def int_to_string_def nat_to_string.simps crlf_def)
qed

text \<open>A websocket of the handler that answers pings, with another descriptor's event in between.\<close>

definition example_ws_env :: server_env where
  "example_ws_env = example_env\<lparr>se_sha1 := \<lambda>bs. replicate 20 7\<rparr>"

definition example_ws_route :: "(ws, ws_app) ws_route" where
  "example_ws_route = hd (dp_ws_routes (se_dispatcher example_ws_env))"

lemma example_opens:
  obtains out where "opens_websocket example_ws_env upgrade_block upgrade_header example_ws_route new_ws out"
proof -
  have env: "se_sha1 example_ws_env = (\<lambda>bs. replicate 20 7)"
    by (simp add: example_ws_env_def)
  then obtain out where "serialize (upgrade_response (se_sha1 example_ws_env) ''dGhlIHNhbXBsZSBub25jZQ=='') = Inr out" "length out = 169"
    using upgrade_bytes [of "se_sha1 example_ws_env" "''dGhlIHNhbXBsZSBub25jZQ==''"] by auto
  moreover have "routeWS (se_dispatcher example_ws_env) req = Inr example_ws_route" "onOpen example_ws_route req new_ws = (new_ws, Inr ())" for req
    by (simp_all add: example_ws_env_def example_ws_route_def example_env_def routeWS_def canOpen_eq onOpen_eq)
  moreover have "length upgrade_block < 2 ^ 31"
    by (simp add: upgrade_block_def request_head_def text_defs upgrade_fields_def)
  ultimately show ?thesis
    using upgrade_header_block upgrade_header_request that
    by (simp add: opens_websocket_def upgrade_request_def)
qed

definition example_frames :: "(bytes \<times> frame) list" where
  "example_frames = [([1, 2, 3, 4], False, Op_text, [72]), ([5, 6, 7, 8], True, Op_ping, []),
     ([0, 0, 0, 0], True, Op_continuation, [105])]"

definition example_ws_events :: "server_event list" where
  "example_ws_events = [Accepts 0 EPOLLIN [4, 5], Client_event 4 EPOLLIN [] [Received (take 9 upgrade_block)],
     Client_event 4 EPOLLIN [Room 5] [Received (drop 9 upgrade_block)], Client_event 5 EPOLLIN [] [Received [71]],
     Client_event 4 EPOLLIN [] [Received [0x01, 0x81, 1, 2, 3, 4, 73, 0x89, 0x80, 5, 6]], Client_event 4 EPOLLOUT [Room 9] [],
     Client_event 4 EPOLLIN [] [Received [7, 8, 0x80, 0x81, 0, 0, 0, 0, 105]]]"

section \<open>Properties\<close>

text \<open>
  C2. A websocket is served. A client opens it with a request that a route accepts and, when it has
  the answer, sends messages, pings and pongs in frames of at most 125 bytes; request and frames are
  cut into pieces in any way, the socket takes as much output as it likes in between, and other
  descriptors have events of their own. The application gets every message once, in order and
  complete, and the output of the connection is the answer to the request followed by the bytes of
  every frame the application has sent, in their order and nothing else.
\<close>

theorem server_serves_websocket:
  assumes "opens_websocket env block hdr route w out" and "polite (getHandler route)" and "ws_frag_buffer w = []"
    and "map snd mfs = concat (map frames_of items)" and "\<forall>mf \<in> set mfs. short_frame mf" and "length (stream mfs) < 2 ^ 31"
    and "w' = fst (handle_frames (getHandler route) (map snd mfs) (setHandler w))" and "writes_only (conn_actions (ws_trace w'))"
    and "received opening = block" and "received ios = stream mfs" and "no_errors (opening @ ios)"
    and "filter (concerns fd) evs = Accepts i EPOLLIN fds # map (io_event fd) (opening @ ios)"
  shows "\<exists>c. sv_conns (fold (\<lambda>ev sv. fst (server_step env ev sv)) evs sv) fd = Some c \<and>
    cn_protocol c = Some (Ws (getHandler route) w') \<and> cn_in_buf c = [] \<and>
    calls_of (ws_trace w') = calls_of (ws_trace w) @ concat (map item_calls items) \<and>
    cn_wire c @ pending (cn_jobs c) = out @ written_by (conn_actions (ws_trace w'))"
proof -
  have "ws_handler (setHandler w)" "ws_frag_buffer (setHandler w) = []" "ws_trace (setHandler w) = ws_trace w"
    using assms(3) by (simp_all add: setHandler_def)
  with handle_items [OF assms(2), of "setHandler w" items]
  have w': "handle_frames (getHandler route) (map snd mfs) (setHandler w) = (w', Inr False)"
    and calls: "calls_of (ws_trace w') = calls_of (ws_trace w) @ concat (map item_calls items)"
    unfolding assms(4,7) by auto
  have errors: "no_errors opening" "no_errors ios"
    using assms(11) by (simp_all add: no_errors_def)
  from serve_opening [OF assms(1) refl assms(5) w' assms(6,8,9) errors(1)] obtain c1 where
    c1: "fold (conn_step env fd) (map (io_event fd) opening) (Some (accepted (Http None))) = Some c1"
      "frames_served (getHandler route) mfs (setHandler w) out (received ios) c1"
    unfolding assms(10) by blast
  from serve_frames [OF assms(5) w' assms(6,8) c1(2) errors(2)] obtain c where
    c: "fold (conn_step env fd) (map (io_event fd) ios) (Some c1) = Some c" "cn_protocol c = Some (Ws (getHandler route) w')"
      "cn_in_buf c = []" "healthy (out @ written_by (conn_actions (ws_trace w'))) c"
    by blast
  with client_alone [OF assms(12), of env sv] c1(1) calls show ?thesis
    by (auto simp: healthy_def queue_ok_def)
qed

theorem server_serves_websocket_witness:
  "\<exists>c w'. sv_conns (fold (\<lambda>ev sv. fst (server_step example_ws_env ev sv)) example_ws_events make_server) 4 = Some c \<and>
    cn_protocol c = Some (Ws default_app w') \<and> calls_of (ws_trace w') = [On_ping [], On_message (Text_message ''Hi'')]"
proof -
  let ?items = "[Message True [72] [([Ping_frame []], [105])]]"
  let ?opening = "[Reads [] (take 9 upgrade_block), Reads [Room 5] (drop 9 upgrade_block)]"
  let ?ios = "[Reads [] [0x01, 0x81, 1, 2, 3, 4, 73, 0x89, 0x80, 5, 6], Writes [Room 9], Reads [] [7, 8, 0x80, 0x81, 0, 0, 0, 0, 105]]"
  define w' where "w' = fst (handle_frames (getHandler example_ws_route) (map snd example_frames) (setHandler new_ws))"
  have app: "getHandler example_ws_route = default_app"
    by (simp add: example_ws_route_def example_ws_env_def example_env_def getHandler_def)
  have polite: "polite default_app"
    by (simp add: polite_def default_app_def split: ws_call.split)
  obtain out where opens: "opens_websocket example_ws_env upgrade_block upgrade_header example_ws_route new_ws out"
    by (rule example_opens)
  have frames: "map snd example_frames = concat (map frames_of ?items)" "\<forall>mf \<in> set example_frames. short_frame mf"
    "length (stream example_frames) < 2 ^ 31" "received ?ios = stream example_frames"
    by (simp_all add: example_frames_def short_frame_def good_frame_def data_op_def frame_bytes_def client_frame_def length_field_def
        first_byte_def unmask_def)
  have writes: "writes_only (conn_actions (ws_trace w'))"
    by (simp add: w'_def app example_frames_def handle_frame_def call_handler_def default_app_def and_then_def emit_def send_frame_def
        setHandler_def new_ws_def serialize_frame_def)
  have events: "filter (concerns 4) example_ws_events = Accepts 0 EPOLLIN [4, 5] # map (io_event 4) (?opening @ ?ios)"
    by (simp add: example_ws_events_def)
  from server_serves_websocket [OF opens _ _ frames(1-3) w'_def writes _ frames(4) _ events, of make_server]
  obtain c where "sv_conns (fold (\<lambda>ev sv. fst (server_step example_ws_env ev sv)) example_ws_events make_server) 4 = Some c"
    "cn_protocol c = Some (Ws default_app w')" "calls_of (ws_trace w') = calls_of (ws_trace new_ws) @ concat (map item_calls ?items)"
    using polite by (auto simp: app new_ws_def no_errors_def)
  then show ?thesis
    by (simp add: new_ws_def message_of_def text_of_def char_of_byte_def char_of_def bit_0)
qed

end
