(* ===== verification/Threads.thy ===== *)
theory Threads
  imports Connection
begin

text \<open>
  ConnectionHandler.cpp on several threads: any of them may run the event loop, and the application
  may call \<^verbatim>\<open>write\<close> and \<^verbatim>\<open>close\<close> from others. The code that runs under \<^verbatim>\<open>transmit_job_mutex\<close> is
  one step; the handler \<^verbatim>\<open>operator()\<close> is a sequence of steps, between which the other threads act:
  it holds the lock for \<^verbatim>\<open>write\<close>, for the loop over the queue and for the look at the queue, but not
  for the reading, for the protocol's other work and for the call of \<^verbatim>\<open>epoll.modFD\<close> at its end.
\<close>

section \<open>A thread in the handler\<close>

text \<open>What the handler does when the protocol's calls on the connection have been made.\<close>

datatype 'p after_acts = Then_close | Then_consume i32 int "'p option option" | Then_throw fault

text \<open>
  Where a thread is: outside the handler, at its beginning, in the protocol with calls still to be
  made, before the branch for \<^verbatim>\<open>EPOLLOUT\<close>, behind it, between the look at the queue and \<^verbatim>\<open>modFD\<close>,
  or ended by an exception.
\<close>

datatype 'p phase =
    Idle
  | Entered i32
  | Acting "conn_action list" "'p after_acts"
  | Ready i32
  | Flushed
  | Checked i32
  | Thrown fault

definition data_phase ::
  "'p protocol_handler \<Rightarrow> 'p \<Rightarrow> i32 \<Rightarrow> 'p conn \<Rightarrow> 'p phase \<times> 'p conn" where
  "data_phase ph p flags c =
     (let (answers, in_buf, received) = recv_loop (cn_recvs c) (cn_in_buf c);
          c = c\<lparr>cn_recvs := answers, cn_in_buf := in_buf\<rparr>
      in case received of
           Inl e \<Rightarrow> (Thrown e, c)
         | Inr _ \<Rightarrow>
             (let (acts, p', outcome) = ph_data ph p in_buf
              in (Acting acts (case outcome of
                    Inl e \<Rightarrow> Then_throw e
                  | Inr (consumed, prot_change) \<Rightarrow> Then_consume flags consumed prot_change),
                  c\<lparr>cn_protocol := Some p'\<rparr>)))"

definition hang_up_phase :: "'p protocol_handler \<Rightarrow> 'p conn \<Rightarrow> 'p phase \<times> 'p conn" where
  "hang_up_phase ph c =
     (case cn_protocol c of
        None \<Rightarrow> (Acting [] Then_close, c)
      | Some p \<Rightarrow>
          (let (acts, p', outcome) = ph_peer_close ph p
           in (Acting acts (case outcome of Inl e \<Rightarrow> Then_throw e | Inr _ \<Rightarrow> Then_close),
               c\<lparr>cn_protocol := Some p'\<rparr>)))"

definition consumed_phase :: "i32 \<Rightarrow> int \<Rightarrow> 'p option option \<Rightarrow> 'p conn \<Rightarrow> 'p phase \<times> 'p conn" where
  "consumed_phase flags consumed prot_change c =
     (case erase_consumed consumed (cn_in_buf c) of
        Inl e \<Rightarrow> (Thrown e, c)
      | Inr rest \<Rightarrow>
          (Ready flags, c\<lparr>cn_in_buf := rest,
             cn_protocol := (case prot_change of None \<Rightarrow> cn_protocol c | Some change \<Rightarrow> change)\<rparr>))"

definition mod_flags :: "'p conn \<Rightarrow> i32" where
  "mod_flags c = (EPOLLIN OR EPOLLHUP OR EPOLLRDHUP OR EPOLLONESHOT)
     OR (if cn_jobs c \<noteq> [] then EPOLLOUT else 0)"

text \<open>The next step of a thread: where it is then, the call on the connection, the connection.\<close>

fun advance :: "'p protocol_handler \<Rightarrow> 'p phase \<Rightarrow> 'p conn \<Rightarrow> conn_action list \<times> 'p phase \<times> 'p conn" where
  "advance ph (Entered flags) c =
     ([], if flags AND (EPOLLERR OR EPOLLHUP OR EPOLLRDHUP) \<noteq> 0 then hang_up_phase ph c
          else case cn_protocol c of
                 Some p \<Rightarrow> if flags AND EPOLLIN \<noteq> 0 then data_phase ph p flags c else (Ready flags, c)
               | None \<Rightarrow> (Ready flags, c))"
| "advance ph (Acting (act # acts) after) c = ([act], Acting acts after, run_action act c)"
| "advance ph (Acting [] Then_close) c = ([], Idle, close_conn c)"
| "advance ph (Acting [] (Then_consume flags consumed prot_change)) c =
     ([], consumed_phase flags consumed prot_change c)"
| "advance ph (Acting [] (Then_throw e)) c = ([], Thrown e, c)"
| "advance ph (Ready flags) c = ([], Flushed, if flags AND EPOLLOUT \<noteq> 0 then on_writable c else c)"
| "advance ph Flushed c = ([], Checked (mod_flags c), c)"
| "advance ph (Checked flags) c = ([], Idle, modFD flags c)"
| "advance ph Idle c = ([], Idle, c)"
| "advance ph (Thrown e) c = ([], Thrown e, c)"

section \<open>Several threads\<close>

text \<open>The connection and the threads of the loop, by number.\<close>

record 'p threads =
  th_conn :: "'p conn"
  th_phases :: "'p phase list"

text \<open>
  An event: the loop calls the handler on a thread, a thread in the handler makes its next step,
  the application calls the connection from a thread of its own, the kernel has room or data.
\<close>

datatype thread_event =
    Deliver nat i32
  | Advance nat
  | Call conn_action
  | Kernel "send_answer list" "recv_answer list"

text \<open>
  What the loop may report of a descriptor that is armed: some of what it asked for, input only when
  \<^verbatim>\<open>recv\<close> has something to answer and output only when \<^verbatim>\<open>send\<close> has, and errors.
\<close>

definition reported :: "i32 \<Rightarrow> 'p conn \<Rightarrow> bool" where
  "reported flags c =
     (case cn_armed c of
        None \<Rightarrow> False
      | Some m \<Rightarrow> flags \<noteq> 0 \<and>
          flags AND ((m AND (EPOLLIN OR EPOLLOUT OR EPOLLRDHUP)) OR EPOLLERR OR EPOLLHUP) = flags \<and>
          (flags AND EPOLLIN \<noteq> 0 \<longrightarrow> cn_recvs c \<noteq> []) \<and> (flags AND EPOLLOUT \<noteq> 0 \<longrightarrow> cn_sends c \<noteq> []))"

text \<open>One step, with the calls it makes on the connection. Events that cannot happen change
  nothing.\<close>

fun thread_step :: "'p protocol_handler \<Rightarrow> thread_event \<Rightarrow> 'p threads \<Rightarrow> conn_action list \<times> 'p threads" where
  "thread_step ph (Deliver t flags) s =
     ([], if t < length (th_phases s) \<and> th_phases s ! t = Idle \<and> reported flags (th_conn s)
          then s\<lparr>th_conn := (th_conn s)\<lparr>cn_armed := None\<rparr>, th_phases := (th_phases s)[t := Entered flags]\<rparr>
          else s)"
| "thread_step ph (Advance t) s =
     (if t < length (th_phases s)
      then (let (acts, phase, c) = advance ph (th_phases s ! t) (th_conn s)
            in (acts, s\<lparr>th_conn := c, th_phases := (th_phases s)[t := phase]\<rparr>))
      else ([], s))"
| "thread_step ph (Call act) s = ([act], s\<lparr>th_conn := run_action act (th_conn s)\<rparr>)"
| "thread_step ph (Kernel sends recvs) s =
     ([], s\<lparr>th_conn := (th_conn s)\<lparr>cn_sends := cn_sends (th_conn s) @ sends,
              cn_recvs := cn_recvs (th_conn s) @ recvs\<rparr>\<rparr>)"

fun thread_run :: "'p protocol_handler \<Rightarrow> thread_event list \<Rightarrow> 'p threads \<Rightarrow> conn_action list \<times> 'p threads" where
  "thread_run ph [] s = ([], s)"
| "thread_run ph (e # es) s =
     (let (acts, s1) = thread_step ph e s; (rest, s2) = thread_run ph es s1 in (acts @ rest, s2))"

lemma thread_run_Cons:
  "snd (thread_run ph (e # es) s) = snd (thread_run ph es (snd (thread_step ph e s)))"
  "fst (thread_run ph (e # es) s) = fst (thread_step ph e s) @ fst (thread_run ph es (snd (thread_step ph e s)))"
  by (simp_all split: prod.split)

definition start_threads :: "nat \<Rightarrow> 'p \<Rightarrow> 'p threads" where
  "start_threads n p = \<lparr>th_conn = accepted p, th_phases = replicate n Idle\<rparr>"


section \<open>The handler alone\<close>

fun alone :: "'p protocol_handler \<Rightarrow> nat \<Rightarrow> 'p phase \<times> 'p conn \<Rightarrow> 'p phase \<times> 'p conn" where
  "alone ph 0 s = s"
| "alone ph (Suc n) (phase, c) = alone ph n (snd (advance ph phase c))"

definition leads_to :: "'p protocol_handler \<Rightarrow> 'p phase \<times> 'p conn \<Rightarrow> 'p phase \<times> 'p conn \<Rightarrow> bool" where
  "leads_to ph s s' \<longleftrightarrow> (\<exists>n. alone ph n s = s')"

lemma alone_add: "alone ph (m + n) s = alone ph n (alone ph m s)"
  by (induction m arbitrary: s) (auto, metis alone.simps(2) old.prod.exhaust)

lemma leads_to_refl [intro]: "leads_to ph s s"
  unfolding leads_to_def by (metis alone.simps(1))

lemma leads_to_trans: "leads_to ph s t \<Longrightarrow> leads_to ph t u \<Longrightarrow> leads_to ph s u"
  unfolding leads_to_def by (metis alone_add)

lemma leads_to_step: "leads_to ph (snd (advance ph phase c)) s \<Longrightarrow> leads_to ph (phase, c) s"
  unfolding leads_to_def by (metis alone.simps(2))

lemma leads_to_acts: "leads_to ph (Acting acts after, c) (Acting [] after, run_actions acts c)"
proof (induction acts arbitrary: c)
  case (Cons act acts)
  from Cons.IH [of "run_action act c"] show ?case
    by (intro leads_to_step) (simp add: run_actions_def)
qed (simp add: run_actions_def leads_to_refl)

lemma leads_to_rearm:
  "leads_to ph (Ready flags, c) (Idle, rearm (if flags AND EPOLLOUT \<noteq> 0 then on_writable c else c))"
  by (intro leads_to_step) (simp add: rearm_def mod_flags_def leads_to_refl leads_to_step)

definition left_as :: "unit result \<Rightarrow> 'p phase" where
  "left_as outcome = (case outcome of Inl e \<Rightarrow> Thrown e | Inr _ \<Rightarrow> Idle)"

lemma leads_to_hang_up:
  assumes "on_hang_up ph c = (c', outcome)"
  shows "leads_to ph (hang_up_phase ph c) (left_as outcome, c')"
proof (cases "cn_protocol c")
  case None
  with assms show ?thesis
    by (auto simp: on_hang_up_def hang_up_phase_def left_as_def intro!: leads_to_step leads_to_refl)
next
  case (Some p)
  obtain acts p' res where ph: "ph_peer_close ph p = (acts, p', res)"
    by (metis prod_cases3)
  let ?after = "case res of Inl e \<Rightarrow> Then_throw e | Inr _ \<Rightarrow> Then_close"
  have "leads_to ph (Acting [] ?after, run_actions acts (c\<lparr>cn_protocol := Some p'\<rparr>)) (left_as outcome, c')"
    using assms Some ph
    by (cases res) (auto simp: on_hang_up_def left_as_def intro!: leads_to_step leads_to_refl)
  with leads_to_trans [OF leads_to_acts] Some ph show ?thesis
    by (simp add: hang_up_phase_def)
qed

lemma leads_to_data:
  assumes "on_readable ph p c = (c', outcome)"
  shows "leads_to ph (data_phase ph p flags c) (case outcome of Inl e \<Rightarrow> Thrown e | Inr _ \<Rightarrow> Ready flags, c')"
proof -
  obtain answers in_buf received where recv: "recv_loop (cn_recvs c) (cn_in_buf c) = (answers, in_buf, received)"
    by (metis prod_cases3)
  let ?c = "c\<lparr>cn_recvs := answers, cn_in_buf := in_buf\<rparr>"
  obtain acts p' res where ph: "ph_data ph p in_buf = (acts, p', res)"
    by (metis prod_cases3)
  let ?after = "case res of Inl e \<Rightarrow> Then_throw e | Inr (consumed, change) \<Rightarrow> Then_consume flags consumed change"
  let ?c1 = "run_actions acts (?c\<lparr>cn_protocol := Some p'\<rparr>)"
  show ?thesis
  proof (cases received)
    case (Inl e)
    with assms recv show ?thesis
      by (auto simp: on_readable_def data_phase_def)
  next
    case (Inr u)
    have "leads_to ph (Acting [] ?after, ?c1) (case outcome of Inl e \<Rightarrow> Thrown e | Inr _ \<Rightarrow> Ready flags, c')"
      using assms recv Inr ph
      by (auto simp: on_readable_def consumed_phase_def Let_def split: sum.splits
          intro!: leads_to_step leads_to_refl)
    with leads_to_trans [OF leads_to_acts] recv Inr ph show ?thesis
      by (simp add: data_phase_def)
  qed
qed


lemma leads_to_event:
  assumes "on_event ph flags c = (c', outcome)"
  shows "leads_to ph (Entered flags, c\<lparr>cn_armed := None\<rparr>) (left_as outcome, c')"
proof (rule leads_to_step)
  let ?c = "c\<lparr>cn_armed := None\<rparr>"
  consider (hang_up) "flags AND (EPOLLERR OR EPOLLHUP OR EPOLLRDHUP) \<noteq> 0"
    | (data) p where "flags AND (EPOLLERR OR EPOLLHUP OR EPOLLRDHUP) = 0" "flags AND EPOLLIN \<noteq> 0" "cn_protocol c = Some p"
    | (neither) "flags AND (EPOLLERR OR EPOLLHUP OR EPOLLRDHUP) = 0" "flags AND EPOLLIN = 0 \<or> cn_protocol c = None"
    by fastforce
  then show "leads_to ph (snd (advance ph (Entered flags) ?c)) (left_as outcome, c')"
  proof cases
    case hang_up
    with assms leads_to_hang_up [of ph ?c c' outcome] show ?thesis
      by (simp add: on_event_def)
  next
    case data
    obtain c1 readable where readable: "on_readable ph p ?c = (c1, readable)"
      by (metis surj_pair)
    note leads_to_data [OF readable, of flags]
    moreover have "leads_to ph (case readable of Inl e \<Rightarrow> Thrown e | Inr _ \<Rightarrow> Ready flags, c1) (left_as outcome, c')"
      using assms data readable leads_to_rearm [of ph flags c1]
      by (auto simp: on_event_def left_as_def split: sum.splits)
    ultimately show ?thesis
      using leads_to_trans data by fastforce
  next
    case neither
    with assms leads_to_rearm [of ph flags ?c] show ?thesis
      by (auto simp: on_event_def left_as_def Let_def split: option.splits)
  qed
qed

lemma run_advance:
  "t < length (th_phases s) \<Longrightarrow> snd (thread_run ph (replicate n (Advance t)) s) =
    (let (phase, c) = alone ph n (th_phases s ! t, th_conn s)
     in s\<lparr>th_conn := c, th_phases := (th_phases s)[t := phase]\<rparr>)"
proof (induction n arbitrary: s)
  case (Suc n)
  obtain acts phase c where "advance ph (th_phases s ! t) (th_conn s) = (acts, phase, c)"
    by (metis prod_cases3)
  with Suc.IH [of "s\<lparr>th_conn := c, th_phases := (th_phases s)[t := phase]\<rparr>"] Suc.prems show ?case
    by (auto simp: Let_def split: prod.splits)
qed simp

section \<open>The order of the output\<close>

lemma queue_ok_advance:
  assumes "advance ph phase c = (acts, phase', c')" and "queue_ok written cbs c" and "small_writes acts"
  shows "queue_ok (written @ written_by acts) (cbs @ callbacks_of acts) c'"
proof (cases "\<exists>act rest after. phase = Acting (act # rest) after")
  case True
  then obtain act rest after where "phase = Acting (act # rest) after"
    by blast
  with assms queue_ok_actions [OF assms(2,3)] show ?thesis
    by (auto simp: run_actions_def)
next
  case False
  with assms(1,2) show ?thesis
    by (cases "(ph, phase, c)" rule: advance.cases)
      (auto simp: data_phase_def hang_up_phase_def consumed_phase_def queue_ok_frame queue_ok_close
        queue_ok_writable modFD_def Let_def split: if_splits option.splits prod.splits sum.splits)
qed

fun kernel_works :: "thread_event \<Rightarrow> bool" where
  "kernel_works (Kernel sends recvs) \<longleftrightarrow> Send_error \<notin> set sends"
| "kernel_works _ \<longleftrightarrow> True"

lemma queue_ok_thread_step:
  assumes "thread_step ph e s = (acts, s')" and "queue_ok written cbs (th_conn s)"
    and "kernel_works e" and "small_writes acts"
  shows "queue_ok (written @ written_by acts) (cbs @ callbacks_of acts) (th_conn s')"
proof (cases e)
  case (Deliver t flags)
  with assms show ?thesis
    by (auto simp: queue_ok_frame split: if_splits)
next
  case (Advance t)
  with assms queue_ok_advance show ?thesis
    by (fastforce split: prod.splits if_splits)
next
  case (Call act)
  with assms queue_ok_actions [OF assms(2,4)] show ?thesis
    by (auto simp: run_actions_def)
next
  case (Kernel sends recvs)
  with assms show ?thesis
    by (auto simp: queue_ok_def)
qed

lemma small_writes_append: "small_writes (as @ bs) \<longleftrightarrow> small_writes as \<and> small_writes bs"
  by (induction as rule: small_writes.induct) auto

lemma queue_ok_thread_run:
  assumes "thread_run ph es s = (acts, s')" and "queue_ok written cbs (th_conn s)"
    and "\<forall>e \<in> set es. kernel_works e" and "small_writes acts"
  shows "queue_ok (written @ written_by acts) (cbs @ callbacks_of acts) (th_conn s')"
  using assms
proof (induction es arbitrary: s acts written cbs)
  case (Cons e es)
  obtain first s1 rest where step: "thread_step ph e s = (first, s1)" "thread_run ph es s1 = (rest, s')"
    "acts = first @ rest"
    using Cons.prems(1) by (auto split: prod.splits)
  with Cons.prems have "queue_ok (written @ written_by first) (cbs @ callbacks_of first) (th_conn s1)"
    by (intro queue_ok_thread_step [OF step(1)]) (simp_all add: small_writes_append)
  from Cons.IH [OF step(2) this] Cons.prems step(3) show ?case
    by (simp add: small_writes_append written_by_append callbacks_of_append)
qed simp


section \<open>The loop's registration\<close>

fun is_checked :: "'p phase \<Rightarrow> bool" where
  "is_checked (Checked flags) \<longleftrightarrow> True"
| "is_checked _ \<longleftrightarrow> False"

text \<open>No call on the connection comes between a thread's look at the queue and its \<^verbatim>\<open>modFD\<close>.\<close>

fun timely :: "'p protocol_handler \<Rightarrow> thread_event list \<Rightarrow> 'p threads \<Rightarrow> bool" where
  "timely ph [] s \<longleftrightarrow> True"
| "timely ph (e # es) s \<longleftrightarrow>
     (fst (thread_step ph e s) = [] \<or> \<not> list_ex is_checked (th_phases s)) \<and>
     timely ph es (snd (thread_step ph e s))"

definition waits_for :: "i32 \<Rightarrow> 'p threads \<Rightarrow> bool" where
  "waits_for flags s \<longleftrightarrow> (\<exists>armed. cn_armed (th_conn s) = Some armed \<and> flags AND armed = flags) \<or>
     (\<exists>phase \<in> set (th_phases s). phase \<noteq> Idle)"

definition input_flags :: i32 where
  "input_flags = EPOLLIN OR EPOLLHUP OR EPOLLRDHUP OR EPOLLONESHOT"

definition wakeup_ok :: "'p threads \<Rightarrow> bool" where
  "wakeup_ok s \<longleftrightarrow>
     (cn_open (th_conn s) \<longrightarrow> waits_for input_flags s \<and> (cn_jobs (th_conn s) \<noteq> [] \<longrightarrow> waits_for EPOLLOUT s)) \<and>
     (\<forall>flags. Checked flags \<in> set (th_phases s) \<longrightarrow> input_flags AND flags = input_flags \<and>
        (cn_open (th_conn s) \<and> cn_jobs (th_conn s) \<noteq> [] \<longrightarrow> EPOLLOUT AND flags = EPOLLOUT))"

lemma mod_flags_covers:
  "input_flags AND mod_flags c = input_flags"
  "cn_jobs c \<noteq> [] \<Longrightarrow> EPOLLOUT AND mod_flags c = EPOLLOUT"
  by (simp_all add: mod_flags_def input_flags_def epoll_flags)

lemma write_flags_cover:
  "input_flags AND (EPOLLIN OR EPOLLOUT OR EPOLLHUP OR EPOLLRDHUP OR EPOLLONESHOT) = input_flags"
  "EPOLLOUT AND (EPOLLIN OR EPOLLOUT OR EPOLLHUP OR EPOLLRDHUP OR EPOLLONESHOT) = EPOLLOUT"
  by (simp_all add: input_flags_def epoll_flags)

lemma flush_jobs_shrinks: "flush_jobs jobs c = (jobs', c') \<Longrightarrow> jobs' \<noteq> [] \<Longrightarrow> jobs \<noteq> []"
  by (cases jobs) auto

lemma flush_jobs_stays_closed: "flush_jobs jobs c = (jobs', c') \<Longrightarrow> cn_open c' \<Longrightarrow> cn_open c"
proof (induction jobs arbitrary: c)
  case (Cons job jobs)
  obtain sent job' c1 where flush: "flush_job job c = (sent, job', c1)"
    by (metis prod_cases3)
  from Cons.IH [of "c1\<lparr>cn_out_size := cn_out_size c1 - (remaining job - remaining job')\<rparr>"] Cons.prems flush
    armed_flush_job [OF flush]
  show ?case
    by (auto simp: Let_def split: if_splits)
qed simp

lemma writable_shrinks:
  "cn_jobs (on_writable c) \<noteq> [] \<Longrightarrow> cn_jobs c \<noteq> []" "cn_open (on_writable c) \<Longrightarrow> cn_open c"
  using flush_jobs_shrinks [of "cn_jobs c" c] flush_jobs_stays_closed [of "cn_jobs c" c]
  by (auto simp: on_writable_def close_conn_def Let_def split: prod.splits if_splits)

lemma action_registers:
  assumes "cn_open (run_action act c)"
  shows "cn_open c" and
    "cn_armed (run_action act c) = cn_armed c \<and> cn_jobs (run_action act c) = [] \<and> cn_jobs c = [] \<or>
     cn_armed (run_action act c) = Some (EPOLLIN OR EPOLLOUT OR EPOLLHUP OR EPOLLRDHUP OR EPOLLONESHOT) \<and>
     cn_jobs (run_action act c) \<noteq> []"
proof -
  obtain bs cb where act: "act = Write bs cb"
    using assms by (cases act) (auto simp: close_conn_def)
  obtain sent job' c' where "flush_job \<lparr>tj_buf = bs, tj_sent = 0, tj_cb = cb\<rparr> c = (sent, job', c')"
    by (metis prod_cases3)
  with armed_flush_job [OF this] assms act show "cn_open c" and
    "cn_armed (run_action act c) = cn_armed c \<and> cn_jobs (run_action act c) = [] \<and> cn_jobs c = [] \<or>
     cn_armed (run_action act c) = Some (EPOLLIN OR EPOLLOUT OR EPOLLHUP OR EPOLLRDHUP OR EPOLLONESHOT) \<and>
     cn_jobs (run_action act c) \<noteq> []"
    by (auto simp: write_conn_def modFD_def Let_def split: if_splits)
qed

text \<open>A step of a thread that makes no call: the queue does not grow, a closed connection stays
  closed, a thread that leaves the handler has closed or armed the connection.\<close>

lemma advance_quiet:
  assumes "advance ph phase c = ([], phase', c')"
  shows "cn_open c' \<longrightarrow> cn_open c" and "cn_jobs c' \<noteq> [] \<longrightarrow> cn_jobs c \<noteq> []"
    and "phase' = Checked flags \<longrightarrow> flags = mod_flags c' "
    and "phase' = Idle \<longrightarrow> phase = Idle \<and> c' = c \<or> \<not> cn_open c' \<or> (\<exists>m. phase = Checked m \<and> cn_armed c' = Some m)"
  using assms writable_shrinks
  by (cases "(ph, phase, c)" rule: advance.cases;
      auto simp: data_phase_def hang_up_phase_def consumed_phase_def close_conn_def modFD_def Let_def
        split: if_splits option.splits prod.splits sum.splits)+


lemma waits_for_phase: "phase \<in> set (th_phases s) \<Longrightarrow> phase \<noteq> Idle \<Longrightarrow> waits_for flags s"
  by (auto simp: waits_for_def)

lemma waits_for_same:
  "th_phases s' = th_phases s \<Longrightarrow> cn_armed (th_conn s') = cn_armed (th_conn s) \<Longrightarrow> waits_for flags s' = waits_for flags s"
  by (simp add: waits_for_def)

lemma checked_update:
  "Checked flags \<in> set (phases[t := phase]) \<Longrightarrow> phase = Checked flags \<or> Checked flags \<in> set phases"
  using set_update_subset_insert by fastforce

lemma wakeup_advance:
  assumes "wakeup_ok s" and "t < length (th_phases s)"
    and adv: "advance ph (th_phases s ! t) (th_conn s) = (acts, phase, c)"
    and "acts = [] \<or> \<not> list_ex is_checked (th_phases s)"
  shows "wakeup_ok (s\<lparr>th_conn := c, th_phases := (th_phases s)[t := phase]\<rparr>)"
proof (cases "acts = []")
  case True
  note quiet = advance_quiet [OF adv [unfolded True]]
  let ?s = "s\<lparr>th_conn := c, th_phases := (th_phases s)[t := phase]\<rparr>"
  have waits: "waits_for flags ?s" if "phase \<noteq> Idle" for flags
    using that assms(2) by (intro waits_for_phase [of phase]) (simp_all add: set_update_memI)
  have mem: "th_phases s ! t \<in> set (th_phases s)"
    using assms(2) by simp
  have "cn_open c \<longrightarrow> waits_for input_flags ?s \<and> (cn_jobs c \<noteq> [] \<longrightarrow> waits_for EPOLLOUT ?s)"
  proof (cases "phase = Idle")
    case idle: True
    with quiet(4) consider "th_phases s ! t = Idle" "c = th_conn s" | "\<not> cn_open c"
      | m where "th_phases s ! t = Checked m" "cn_armed c = Some m"
      by blast
    then show ?thesis
    proof cases
      case 1
      with idle have "?s = s"
        by (metis list_update_id threads.surjective threads.update_convs(1,2))
      with assms(1) 1 show ?thesis
        by (simp add: wakeup_ok_def)
    next
      case 3
      with mem assms(1) quiet(1,2) show ?thesis
        by (auto simp: wakeup_ok_def waits_for_def)
    qed simp
  qed (simp add: waits)
  moreover have "input_flags AND flags = input_flags \<and> (cn_open c \<and> cn_jobs c \<noteq> [] \<longrightarrow> EPOLLOUT AND flags = EPOLLOUT)"
    if "Checked flags \<in> set ((th_phases s)[t := phase])" for flags
    using checked_update [OF that] quiet(1-3) assms(1) mod_flags_covers by (auto simp: wakeup_ok_def)
  ultimately show ?thesis
    by (simp add: wakeup_ok_def)
next
  case False
  with assms(4) have none_checked: "Checked flags \<notin> set (th_phases s)" for flags
    by (auto simp: list_ex_iff)
  from adv False have "\<exists>rest after. phase = Acting rest after"
    by (cases "(ph, th_phases s ! t, th_conn s)" rule: advance.cases) auto
  then have phase: "phase \<noteq> Idle" "\<And>flags. phase \<noteq> Checked flags"
    by auto
  have "phase \<in> set ((th_phases s)[t := phase])"
    using assms(2) by (simp add: set_update_memI)
  with phase none_checked show ?thesis
    using checked_update [of _ "th_phases s" t phase]
    by (fastforce simp: wakeup_ok_def intro: waits_for_phase [of phase])
qed

lemma wakeup_step:
  assumes "wakeup_ok s" and "fst (thread_step ph e s) = [] \<or> \<not> list_ex is_checked (th_phases s)"
  shows "wakeup_ok (snd (thread_step ph e s))"
proof (cases e)
  case (Deliver t flags)
  have "Entered flags \<in> set ((th_phases s)[t := Entered flags])" if "t < length (th_phases s)"
    using that by (simp add: set_update_memI)
  with assms(1) Deliver checked_update [of _ "th_phases s" t "Entered flags"] show ?thesis
    by (fastforce simp: wakeup_ok_def intro: waits_for_phase [of "Entered flags"])
next
  case (Advance t)
  with assms wakeup_advance [OF assms(1)] show ?thesis
    by (fastforce split: prod.splits)
next
  case (Call act)
  with assms(2) have "Checked flags \<notin> set (th_phases s)" for flags
    by (auto simp: list_ex_iff)
  with assms(1) Call action_registers [of act "th_conn s"] write_flags_cover show ?thesis
    by (fastforce simp: wakeup_ok_def waits_for_def)
next
  case (Kernel sends recvs)
  with assms(1) show ?thesis
    by (simp add: wakeup_ok_def waits_for_def)
qed

lemma wakeup_run: "wakeup_ok s \<Longrightarrow> timely ph es s \<Longrightarrow> wakeup_ok (snd (thread_run ph es s))"
proof (induction es arbitrary: s)
  case (Cons e es)
  with wakeup_step [of s ph e] have "wakeup_ok (snd (thread_run ph es (snd (thread_step ph e s))))"
    by simp
  then show ?case
    by (simp only: thread_run_Cons)
qed simp

lemma wakeup_start: "wakeup_ok (start_threads n p)"
  by (simp add: wakeup_ok_def start_threads_def accepted_def waits_for_def input_flags_def)

section \<open>One thread at a time\<close>

text \<open>Every call went out at once: no job waits after any event.\<close>

fun calm :: "'p protocol_handler \<Rightarrow> thread_event list \<Rightarrow> 'p threads \<Rightarrow> bool" where
  "calm ph [] s \<longleftrightarrow> True"
| "calm ph (e # es) s \<longleftrightarrow> cn_jobs (th_conn (snd (thread_step ph e s))) = [] \<and>
     calm ph es (snd (thread_step ph e s))"

definition in_handler :: "'p threads \<Rightarrow> nat \<Rightarrow> bool" where
  "in_handler s t \<longleftrightarrow> t < length (th_phases s) \<and> th_phases s ! t \<noteq> Idle"

definition exclusive :: "'p threads \<Rightarrow> bool" where
  "exclusive s \<longleftrightarrow> (\<forall>t u. in_handler s t \<and> in_handler s u \<longrightarrow> t = u) \<and>
     (\<forall>t. in_handler s t \<longrightarrow> cn_armed (th_conn s) = None)"


lemma action_calm:
  "cn_jobs (run_action act c) = [] \<Longrightarrow> cn_armed (run_action act c) = cn_armed c \<or> cn_armed (run_action act c) = None"
proof (cases "cn_open (run_action act c)")
  case True
  then show "cn_jobs (run_action act c) = [] \<Longrightarrow> ?thesis"
    using action_registers(2) [of act c] by blast
next
  case False
  then show "cn_jobs (run_action act c) = [] \<Longrightarrow> ?thesis"
  proof (cases act)
    case (Write bs cb)
    assume jobs: "cn_jobs (run_action act c) = []"
    obtain sent job' c' where flush: "flush_job \<lparr>tj_buf = bs, tj_sent = 0, tj_cb = cb\<rparr> c = (sent, job', c')"
      by (metis prod_cases3)
    have "cn_armed c' = cn_armed c \<or> cn_armed c' = None"
      using flush by (auto simp: flush_job_def run_callback_def close_conn_def Let_def split: prod.splits if_splits)
    with flush jobs Write show ?thesis
      by (auto simp: write_conn_def modFD_def Let_def split: if_splits)
  qed (simp add: close_conn_def)
qed

lemma advance_armed:
  assumes "advance ph phase c = (acts, phase', c')" and "cn_armed c = None" and "cn_jobs c' = []" and "phase' \<noteq> Idle"
  shows "cn_armed c' = None"
proof -
  have flushed: "cn_armed (on_writable c) = None"
  proof -
    have "cn_armed d' = None" if "flush_jobs jobs d = (jobs', d')" "cn_armed d = None" for jobs jobs' and d d' :: "'a conn"
      using that
    proof (induction jobs arbitrary: d)
      case (Cons job jobs)
      obtain sent job' d1 where flush: "flush_job job d = (sent, job', d1)"
        by (metis prod_cases3)
      then have "cn_armed d1 = None"
        using Cons.prems(2)
        by (auto simp: flush_job_def run_callback_def close_conn_def Let_def split: prod.splits if_splits)
      with Cons flush show ?case
        by (auto simp: Let_def split: if_splits)
    qed simp
    with assms(2) show ?thesis
      by (auto simp: on_writable_def close_conn_def Let_def split: prod.split)
  qed
  show ?thesis
  proof (cases "\<exists>act rest after. phase = Acting (act # rest) after")
    case True
    with assms action_calm show ?thesis
      by fastforce
  next
    case False
    with assms flushed show ?thesis
      by (cases "(ph, phase, c)" rule: advance.cases)
        (auto simp: data_phase_def hang_up_phase_def consumed_phase_def Let_def
          split: if_splits option.splits prod.splits sum.splits)
  qed
qed

lemma exclusive_step:
  assumes "exclusive s" and "cn_jobs (th_conn (snd (thread_step ph e s))) = []"
  shows "exclusive (snd (thread_step ph e s))"
proof (cases e)
  case (Deliver t flags)
  show ?thesis
  proof (cases "t < length (th_phases s) \<and> th_phases s ! t = Idle \<and> reported flags (th_conn s)")
    case True
    then have "cn_armed (th_conn s) \<noteq> None"
      by (cases "cn_armed (th_conn s)") (simp_all add: reported_def)
    with assms(1) have "\<not> in_handler s u" for u
      by (auto simp: exclusive_def)
    with True Deliver show ?thesis
      by (auto simp: exclusive_def in_handler_def nth_list_update split: if_splits)
  next
    case False
    with assms(1) Deliver show ?thesis
      by auto
  qed
next
  case (Advance t)
  show ?thesis
  proof (cases "in_handler s t")
    case True
    then have t: "t < length (th_phases s)"
      by (simp add: in_handler_def)
    obtain acts phase c where adv: "advance ph (th_phases s ! t) (th_conn s) = (acts, phase, c)"
      by (metis prod_cases3)
    have others: "\<not> in_handler s u" if "u \<noteq> t" for u
      using assms(1) True that by (auto simp: exclusive_def)
    have "cn_armed c = None" if "phase \<noteq> Idle"
      using advance_armed [OF adv] assms True that adv Advance t by (auto simp: exclusive_def)
    with others t adv Advance show ?thesis
      by (auto simp: exclusive_def in_handler_def nth_list_update split: if_splits)
  next
    case False
    then have "snd (thread_step ph (Advance t) s) = s"
      by (cases s) (auto simp: in_handler_def list_update_same_conv)
    with assms(1) Advance show ?thesis
      by simp
  qed
next
  case (Call act)
  with assms action_calm [of act "th_conn s"] show ?thesis
    by (auto simp: exclusive_def in_handler_def)
next
  case (Kernel sends recvs)
  with assms(1) show ?thesis
    by (simp add: exclusive_def in_handler_def)
qed

lemma exclusive_run: "exclusive s \<Longrightarrow> calm ph es s \<Longrightarrow> exclusive (snd (thread_run ph es s))"
proof (induction es arbitrary: s)
  case (Cons e es)
  with exclusive_step [of s ph e] have "exclusive (snd (thread_run ph es (snd (thread_step ph e s))))"
    by simp
  then show ?case
    by (simp only: thread_run_Cons)
qed simp


lemma exclusive_start: "exclusive (start_threads n p)"
  by (auto simp: exclusive_def in_handler_def start_threads_def)

lemma start_two: "start_threads 2 p = \<lparr>th_conn = accepted p, th_phases = [Idle, Idle]\<rparr>"
  by (simp add: start_threads_def numeral_2_eq_2)

lemma start_one: "start_threads (Suc 0) p = \<lparr>th_conn = accepted p, th_phases = [Idle]\<rparr>"
  by (simp add: start_threads_def)

lemma event_flags:
  "EPOLLIN AND (EPOLLERR OR EPOLLHUP OR EPOLLRDHUP) = 0" "EPOLLOUT AND (EPOLLERR OR EPOLLHUP OR EPOLLRDHUP) = 0"
  "EPOLLIN \<noteq> 0" "EPOLLOUT \<noteq> 0" "EPOLLIN AND EPOLLOUT = 0" "EPOLLOUT AND EPOLLIN = 0"
  by (simp_all add: epoll_flags)

lemma reported_flags:
  "cn_armed c = Some (EPOLLIN OR EPOLLHUP OR EPOLLRDHUP OR EPOLLONESHOT) \<Longrightarrow> cn_recvs c \<noteq> [] \<Longrightarrow> reported EPOLLIN c"
  "cn_armed c = Some (EPOLLIN OR EPOLLOUT OR EPOLLHUP OR EPOLLRDHUP OR EPOLLONESHOT) \<Longrightarrow> cn_recvs c \<noteq> [] \<Longrightarrow>
   reported EPOLLIN c"
  "cn_armed c = Some (EPOLLIN OR EPOLLOUT OR EPOLLHUP OR EPOLLRDHUP OR EPOLLONESHOT) \<Longrightarrow> cn_sends c \<noteq> [] \<Longrightarrow>
   reported EPOLLOUT c"
  by (simp_all add: reported_def epoll_flags)

lemma output_not_reported:
  assumes "reported flags c" and "cn_armed c = Some (EPOLLIN OR EPOLLHUP OR EPOLLRDHUP OR EPOLLONESHOT)"
  shows "flags AND EPOLLOUT = 0"
proof -
  let ?mask = "((EPOLLIN OR EPOLLHUP OR EPOLLRDHUP OR EPOLLONESHOT) AND (EPOLLIN OR EPOLLOUT OR EPOLLRDHUP)) OR
    EPOLLERR OR EPOLLHUP"
  have "flags AND ?mask = flags"
    using assms by (simp add: reported_def)
  moreover have "?mask AND EPOLLOUT = 0"
    by (simp add: epoll_flags)
  moreover have "x AND k = 0" if "x AND m = x" "m AND k = 0" for x m k :: i32
    using that by (metis and.assoc bit.conj_zero_right)
  ultimately show ?thesis
    by blast
qed

text \<open>A call of \<^verbatim>\<open>write\<close> when the socket has no room, or when jobs wait.\<close>

lemma write_no_room:
  assumes "cn_open c" and "cn_sends c = []" and "cn_jobs c = []" and "out \<noteq> []" and "length out < 2 ^ 31"
  shows "write_conn out cb c = c\<lparr>cn_out_size := cn_out_size c + size_of out,
    cn_jobs := [\<lparr>tj_buf = out, tj_sent = 0, tj_cb = cb\<rparr>],
    cn_armed := Some (EPOLLIN OR EPOLLOUT OR EPOLLHUP OR EPOLLRDHUP OR EPOLLONESHOT)\<rparr>"
proof -
  have "0 < size_of out"
    using assms(4,5) by (simp add: less_size_of_iff)
  with assms show ?thesis
    by (simp add: write_conn_def flush_job_def flush_loop.simps [of True out 0] send_call_def modFD_def
        remaining_def Let_def)
qed

section \<open>Properties\<close>

lemma write_waiting:
  assumes "cn_open c" and "cn_jobs c \<noteq> []"
  shows "write_conn out cb c = c\<lparr>cn_out_size := cn_out_size c + size_of out,
    cn_jobs := cn_jobs c @ [\<lparr>tj_buf = out, tj_sent = 0, tj_cb = cb\<rparr>],
    cn_armed := Some (EPOLLIN OR EPOLLOUT OR EPOLLHUP OR EPOLLRDHUP OR EPOLLONESHOT)\<rparr>"
  using assms by (simp add: write_conn_def modFD_def remaining_def Let_def)

text \<open>
  A thread that is not interrupted does in its steps what the handler does as a whole: it leaves
  the connection in the same state, and is idle again or ended by the same exception.
\<close>

lemma handler_alone:
  assumes "t < length (th_phases s)" and "th_phases s ! t = Idle" and "reported flags (th_conn s)"
    and "on_event ph flags (th_conn s) = (c', outcome)"
  shows "\<exists>n. snd (thread_run ph (Deliver t flags # replicate n (Advance t)) s) =
    s\<lparr>th_conn := c', th_phases := (th_phases s)[t := left_as outcome]\<rparr>"
proof -
  let ?s = "s\<lparr>th_conn := (th_conn s)\<lparr>cn_armed := None\<rparr>, th_phases := (th_phases s)[t := Entered flags]\<rparr>"
  obtain n where "alone ph n (Entered flags, (th_conn s)\<lparr>cn_armed := None\<rparr>) = (left_as outcome, c')"
    using leads_to_event [OF assms(4)] by (auto simp: leads_to_def)
  with run_advance [of t ?s ph n] assms(1) have
    "snd (thread_run ph (replicate n (Advance t)) ?s) = s\<lparr>th_conn := c', th_phases := (th_phases s)[t := left_as outcome]\<rparr>"
    by simp
  moreover have "snd (thread_step ph (Deliver t flags) s) = ?s"
    using assms by simp
  ultimately show ?thesis
    by (intro exI [of _ n]) (simp only: thread_run_Cons)
qed

text \<open>
  C6. On any number of threads, whatever they do at the same time: the bytes that reach the peer
  are a prefix of the bytes written, in the order in which the calls of \<^verbatim>\<open>write\<close> got the lock, and
  the callbacks run in this order; nothing is lost, duplicated or mixed by the interleaving.
\<close>

theorem threads_output_in_order:
  assumes "thread_run ph es (start_threads n p) = (acts, s)" and "\<forall>e \<in> set es. kernel_works e"
    and "small_writes acts"
  shows "prefix (cn_wire (th_conn s)) (written_by acts) \<and> prefix (cn_called (th_conn s)) (callbacks_of acts) \<and>
    (cn_open (th_conn s) \<and> cn_jobs (th_conn s) = [] \<longrightarrow>
      cn_wire (th_conn s) = written_by acts \<and> cn_called (th_conn s) = callbacks_of acts)"
proof -
  have "queue_ok [] [] (th_conn (start_threads n p))"
    by (simp add: start_threads_def queue_ok_accepted)
  from queue_ok_thread_run [OF assms(1) this assms(2,3)]
  have "queue_ok (written_by acts) (callbacks_of acts) (th_conn s)"
    by simp
  from chan.ok_received [OF this] chan.ok_drained [OF this] show ?thesis
    by (auto simp: drained_def)
qed

theorem threads_output_in_order_witness:
  "prefix (cn_wire (th_conn (snd (thread_run idle_protocol
      [Call (Write [1] No_callback), Kernel [Room 1] [], Call (Write [2] No_callback), Deliver 1 EPOLLOUT,
       Advance 1, Advance 1] (start_threads 2 ()))))) [1, 2]"
proof -
  let ?es = "[Call (Write [1] No_callback), Kernel [Room 1] [], Call (Write [2] No_callback), Deliver 1 EPOLLOUT,
       Advance 1, Advance 1]"
  have "fst (thread_run idle_protocol ?es (start_threads 2 ())) = [Write [1] No_callback, Write [2] No_callback]"
    by (simp add: start_two accepted_def write_no_room write_waiting reported_flags event_flags)
  with threads_output_in_order [of idle_protocol ?es 2 "()", OF prod.collapse [symmetric]] show ?thesis
    by simp
qed

text \<open>
  C14. Wakeups, as long as no call on the connection comes between a thread's look at the queue and
  its \<^verbatim>\<open>modFD\<close>: when all threads have left the handler and the connection is open, it is registered
  for input, and also for output when jobs wait, however the threads were interleaved.
\<close>

theorem wakeup_kept:
  assumes "timely ph es (start_threads n p)" and "snd (thread_run ph es (start_threads n p)) = s"
    and "\<forall>phase \<in> set (th_phases s). phase = Idle" and "cn_open (th_conn s)"
  shows "\<exists>armed. cn_armed (th_conn s) = Some armed \<and> input_flags AND armed = input_flags \<and>
    (cn_jobs (th_conn s) \<noteq> [] \<longrightarrow> EPOLLOUT AND armed = EPOLLOUT)"
  using wakeup_run [OF wakeup_start assms(1)] assms(2-4)
  by (auto simp: wakeup_ok_def waits_for_def)

theorem wakeup_kept_witness:
  "\<exists>armed. cn_armed (th_conn (snd (thread_run idle_protocol [Call (Write [1] No_callback)] (start_threads 2 ())))) =
    Some armed \<and> EPOLLOUT AND armed = EPOLLOUT"
  using wakeup_kept [of idle_protocol "[Call (Write [1] No_callback)]" 2 "()", OF _ refl]
  by (auto simp: start_two accepted_def write_no_room)

text \<open>
  C12. Without that condition a wakeup is lost: a call of \<^verbatim>\<open>write\<close> between a handler's look at the
  empty queue and its \<^verbatim>\<open>modFD\<close> registers the connection for output, the handler then overwrites
  this with the flags it had computed. All threads are idle, the job waits, and however much room the
  socket gets, the loop cannot report it.
\<close>

theorem wakeup_lost:
  assumes "ph_data ph p bs = ([], p', Inr (consumed, None))" and "0 \<le> consumed" and "nat consumed \<le> length bs"
    and "length bs < read_size" and "out \<noteq> []" and "length out < 2 ^ 31"
    and "es = [Kernel [] [Received bs], Deliver 0 EPOLLIN, Advance 0, Advance 0, Advance 0, Advance 0,
      Call (Write out cb), Advance 0, Kernel sends []]"
    and "snd (thread_run ph es (start_threads 1 p)) = s"
  shows "th_phases s = [Idle] \<and> cn_open (th_conn s) \<and> cn_jobs (th_conn s) \<noteq> [] \<and> cn_wire (th_conn s) = [] \<and>
    cn_sends (th_conn s) = sends \<and> \<not> (\<exists>flags. reported flags (th_conn s) \<and> flags AND EPOLLOUT \<noteq> 0)"
proof -
  have s: "th_phases s = [Idle]" "th_conn s = (accepted p)\<lparr>cn_protocol := Some p', cn_in_buf := drop (nat consumed) bs,
      cn_armed := Some (EPOLLIN OR EPOLLHUP OR EPOLLRDHUP OR EPOLLONESHOT), cn_out_size := size_of out, cn_sends := sends,
      cn_jobs := [\<lparr>tj_buf = out, tj_sent = 0, tj_cb = cb\<rparr>]\<rparr>"
    using assms(1-6) unfolding assms(8) [symmetric] assms(7)
    by (simp_all add: start_one accepted_def reported_flags event_flags data_phase_def consumed_phase_def erase_consumed_def
        mod_flags_def modFD_def write_no_room)
  moreover have "flags AND EPOLLOUT = 0" if "reported flags (th_conn s)" for flags
    using that s(2) by (intro output_not_reported [of flags "th_conn s"]) simp_all
  ultimately show ?thesis
    by (auto simp: accepted_def)
qed


theorem wakeup_lost_witness:
  "\<not> (\<exists>flags. reported flags (th_conn (snd (thread_run idle_protocol
      [Kernel [] [Received [65]], Deliver 0 EPOLLIN, Advance 0, Advance 0, Advance 0, Advance 0,
       Call (Write [7, 8] No_callback), Advance 0, Kernel [Room 9] []] (start_threads 1 ())))) \<and> flags AND EPOLLOUT \<noteq> 0)"
  using wakeup_lost [of idle_protocol "()" "[65]" "()" 0 "[7, 8]" _ No_callback "[Room 9]", OF _ _ _ _ _ _ refl refl]
  by (simp add: idle_protocol_def read_size_def)

text \<open>
  The handler runs on one thread at a time while every call of \<^verbatim>\<open>write\<close> goes out at once: the
  registration is one-shot, and nothing renews it before the handler is done.
\<close>

lemma handlers_exclusive:
  assumes "calm ph es (start_threads n p)" and "snd (thread_run ph es (start_threads n p)) = s"
    and "t < length (th_phases s)" and "th_phases s ! t \<noteq> Idle" and "u < length (th_phases s)" and "th_phases s ! u \<noteq> Idle"
  shows "t = u"
  using exclusive_run [OF exclusive_start assms(1)] assms(2-6)
  by (auto simp: exclusive_def in_handler_def)

text \<open>
  A call of \<^verbatim>\<open>write\<close> that cannot send everything registers the connection again while the
  handler is still running, also when it is the protocol's own answer: when more data comes the loop
  calls the handler on a second thread, which passes the first data, not yet erased, to the protocol
  a second time. Both threads then are in the protocol at once.
\<close>

lemma handlers_overlap:
  assumes "ph_data ph p bs = (Write out cb # acts, p', outcome)" and "out \<noteq> []" and "length out < 2 ^ 31"
    and "length bs < read_size" and "length more_bs < read_size"
    and "es = [Kernel [] [Received bs], Deliver 0 EPOLLIN, Advance 0, Advance 0,
      Kernel [] [Received more_bs], Deliver 1 EPOLLIN, Advance 1]"
  shows "\<exists>after after'. th_phases (snd (thread_run ph es (start_threads 2 p))) =
    [Acting acts after, Acting (fst (ph_data ph p' (bs @ more_bs))) after']"
proof -
  obtain acts' p'' outcome' where second: "ph_data ph p' (bs @ more_bs) = (acts', p'', outcome')"
    by (metis prod_cases3)
  show ?thesis
    using assms(1-5) second unfolding assms(6)
    by (simp add: start_two accepted_def reported_flags event_flags data_phase_def write_no_room)
qed

end
