(* ===== verification/Ws_Lifetime.thy ===== *)
theory Ws_Lifetime
  imports Ws_Stream Threads
begin

text \<open>
  The end of a websocket (Websocket.cpp, ConnectionHandler.cpp): what still happens to it after it was
  closed, and what is left of it in the connection after it was destroyed.
\<close>

section \<open>After close\<close>

text \<open>An application that answers every message by closing.\<close>

definition closing_app :: "close_code \<Rightarrow> any_message \<Rightarrow> ws_app" where
  "closing_app code reason =
     \<lparr>app_on_event = (\<lambda>hist call. case call of On_message m \<Rightarrow> [App_close code reason] | _ \<Rightarrow> []),
      app_on_close = (\<lambda>hist. [])\<rparr>"

definition close_write :: "close_code \<Rightarrow> any_message \<Rightarrow> ws_out" where
  "close_write code reason =
     Conn (Write (serialize_frame (close_payload code (message_bytes reason)) Op_close True) Close_after)"

lemma close_ws_closing:
  assumes "length (message_bytes reason) \<le> 125" and "ws_handler w" and "\<not> ws_auto_ping w"
  shows "close_ws (closing_app code reason) code reason w = (emit (close_write code reason) (emit (ws_out.Call On_close) w), Inr ())"
  using assms by (simp add: close_ws_def call_on_close_def rm_timers_def closing_app_def send_frame_def close_write_def emit_def)

definition answered_by_close :: "close_code \<Rightarrow> any_message \<Rightarrow> bytes \<Rightarrow> ws_out list" where
  "answered_by_close code reason p = [ws_out.Call (On_message (text_of p)), ws_out.Call On_close, close_write code reason]"

lemma handle_closing:
  assumes "length (message_bytes reason) \<le> 125" and "ws_handler w" and "\<not> ws_auto_ping w"
  shows "handle_frames (closing_app code reason) (map (\<lambda>p. (True, Op_text, p)) ps) w =
    (w\<lparr>ws_trace := ws_trace w @ concat (map (answered_by_close code reason) ps)\<rparr>, Inr False)"
  using assms(2,3)
proof (induction ps arbitrary: w)
  case (Cons p ps)
  have "handle_frame (closing_app code reason) True Op_text p w =
      (w\<lparr>ws_trace := ws_trace w @ answered_by_close code reason p\<rparr>, Inr False)"
    using Cons.prems close_ws_closing [OF assms(1), of "emit (ws_out.Call (On_message (text_of p))) w" code]
    by (simp add: handle_frame_def call_handler_def answered_by_close_def emit_def)
      (simp add: closing_app_def)
  with Cons.IH [of "w\<lparr>ws_trace := ws_trace w @ answered_by_close code reason p\<rparr>"] Cons.prems show ?case
    by simp
qed simp

section \<open>A socket without room\<close>

lemma stuck_write:
  assumes "cn_open c" and "cn_sends c = []" and "out \<noteq> []" and "length out < 2 ^ 31"
  shows "write_conn out cb c = c\<lparr>cn_out_size := cn_out_size c + size_of out,
    cn_jobs := cn_jobs c @ [\<lparr>tj_buf = out, tj_sent = 0, tj_cb = cb\<rparr>],
    cn_armed := Some (EPOLLIN OR EPOLLOUT OR EPOLLHUP OR EPOLLRDHUP OR EPOLLONESHOT)\<rparr>"
  using assms write_no_room [of c out cb] write_waiting [of c out cb] by (cases "cn_jobs c = []") simp_all

lemma flush_jobs_two:
  assumes "cn_open c" and "job_ok j1" and "job_ok j2" and "has_room (cn_sends c) (length (unsent j1) + length (unsent j2))"
    and "tj_cb j1 \<notin> {No_callback, Close_after}" and "tj_cb j2 = Close_after"
  shows "cn_called (snd (flush_jobs [j1, j2] c)) = cn_called c @ [tj_cb j1, Close_after]"
proof -
  obtain f1 j1' c1 where 1: "flush_job j1 c = (f1, j1', c1)"
    by (metis prod_cases3)
  have room: "f1" "has_room (cn_sends c1) (length (unsent j2) + 0)"
    using flush_job_room [OF 1 assms(1,2,4)] by simp_all
  note open1 = flush_job_open [OF 1 assms(1,2) has_room_no_error [OF assms(4)]]
  let ?c = "c1\<lparr>cn_out_size := cn_out_size c1 - (remaining j1 - remaining j1')\<rparr>"
  obtain f2 j2' c2 where 2: "flush_job j2 ?c = (f2, j2', c2)"
    by (metis prod_cases3)
  have "cn_open ?c" "has_room (cn_sends ?c) (length (unsent j2) + 0)" "cn_called ?c = cn_called c @ [tj_cb j1]"
    using open1 room assms(5) by (simp_all add: callbacks_def)
  with flush_job_room [OF 2 _ assms(3), of 0] flush_job_open [OF 2 _ assms(3) has_room_no_error] assms(6)
  have "f2" "cn_called c2 = (cn_called c @ [tj_cb j1]) @ [Close_after]"
    by (auto simp: callbacks_def)
  with 1 2 room(1) show ?thesis
    by (simp add: Let_def)
qed

lemma writable_called:
  "cn_called (fst (on_event ph EPOLLOUT c)) = cn_called (snd (flush_jobs (cn_jobs c) (c\<lparr>cn_armed := None\<rparr>)))"
  by (simp add: on_event_writable on_writable_def rearm_def modFD_def close_conn_def Let_def split: prod.split)

section \<open>Properties\<close>

text \<open>
  C29. Closing does not stop the websocket: frames that arrived with the message that made the
  application close are still handled. The application gets the messages in them after its onClose,
  and when it closes again is told so again and sends another close frame.
\<close>

theorem ws_delivers_after_close:
  assumes "length (message_bytes reason) \<le> 125" and "ws_handler w" and "\<not> ws_auto_ping w"
    and "map snd mfs = map (\<lambda>p. (True, Op_text, p)) ps" and "\<forall>mf \<in> set mfs. good_frame mf" and "length (stream mfs) < 2 ^ 31"
  shows "\<exists>w'. onDataReceived (closing_app code reason) (stream mfs) w = (w', Inr (int (length (stream mfs)), None)) \<and>
    calls_of (ws_trace w') = calls_of (ws_trace w) @ concat (map (\<lambda>p. [On_message (text_of p), On_close]) ps) \<and>
    new_actions w w' = replicate (length ps) (Write (serialize_frame (close_payload code (message_bytes reason)) Op_close True) Close_after)"
proof -
  let ?app = "closing_app code reason"
  let ?w = "w\<lparr>ws_trace := ws_trace w @ concat (map (answered_by_close code reason) ps)\<rparr>"
  have "on_data_loop ?app (stream mfs @ []) 0 w = on_data_loop ?app [] (0 + int (length (stream mfs))) ?w"
    using handle_closing [OF assms(1-3)] assms(4-6) by (intro on_data_frames) simp_all
  then have "onDataReceived ?app (stream mfs) w = (?w, Inr (int (length (stream mfs)), None))"
    by (simp add: onDataReceived_def on_data_loop.simps [of ?app "[]"] read_frame_short)
  moreover have "calls_of (concat (map (answered_by_close code reason) ps)) =
      concat (map (\<lambda>p. [On_message (text_of p), On_close]) ps)"
    by (induction ps) (simp_all add: answered_by_close_def close_write_def)
  moreover have "conn_actions (concat (map (answered_by_close code reason) ps)) =
      replicate (length ps) (Write (serialize_frame (close_payload code (message_bytes reason)) Op_close True) Close_after)"
    by (induction ps) (simp_all add: answered_by_close_def close_write_def)
  ultimately show ?thesis
    by (intro exI [of _ ?w]) (simp add: calls_of_append new_actions_def)
qed

theorem ws_delivers_after_close_witness:
  "\<exists>w'. onDataReceived (closing_app Normal (Text_message ''bye''))
      (stream [([0, 0, 0, 0], True, Op_text, [72]), ([0, 0, 0, 0], True, Op_text, [105])]) (setHandler new_ws) =
      (w', Inr (14, None)) \<and>
    calls_of (ws_trace w') =
      [On_message (Text_message ''H''), On_close, On_message (Text_message ''i''), On_close]"
  using ws_delivers_after_close [of "Text_message ''bye''" "setHandler new_ws"
      "[([0, 0, 0, 0], True, Op_text, [72]), ([0, 0, 0, 0], True, Op_text, [105])]" "[[72], [105]]" Normal]
  by (auto simp: setHandler_def new_ws_def good_frame_def frame_bytes_def length_client_frame length_field_def
      text_of_def char_of_byte_def char_of_def bit_0)

text \<open>
  C30. A ping outlives its websocket. The completion callback of an automatic ping refers to the
  websocket that sent it; when the socket has no room the ping waits in the queue of the connection,
  and a close frame of the client makes the connection drop the websocket at once. When there is
  room again the connection, which has no protocol any more, still runs the callback.
\<close>

theorem ping_outlives_websocket:
  assumes "polite app" and "app_on_close app = (\<lambda>_. [])" and "ws_handler w" and "cn_protocol c = Some (Ws app w)"
    and "cn_open c" and "cn_sends c = []" and "cn_jobs c = []" and "cn_in_buf c = []"
    and "on_ping_timer timeout w = (w1, pinged)"
    and "c1 = run_actions (new_actions w w1) (c\<lparr>cn_protocol := Some (Ws app w1)\<rparr>)"
    and "length mask_key = 4" and "length payload \<le> 125"
    and "c2 = receive env (client_frame mask_key True Op_close payload) c1"
    and "has_room sends (length (pending (cn_jobs c2)))"
    and "c3 = fst (on_event (server_protocol env) EPOLLOUT (c2\<lparr>cn_sends := sends\<rparr>))"
  shows "cn_protocol c2 = None \<and> cn_called c2 = cn_called c \<and> cn_open c2 \<and>
    cn_called c3 = cn_called c @ [Reset_timeout timeout, Close_after]"
proof -
  let ?ping = "serialize_frame (bytes_of_string ''ping?'') Op_ping True"
  let ?close = "server_frame True Op_close (close_payload Normal (bytes_of_string ''thx goodbye''))"
  let ?f = "client_frame mask_key True Op_close payload"
  have ping: "?ping \<noteq> []" "length ?ping < 2 ^ 31" and close: "?close \<noteq> []" "length ?close < 2 ^ 31"
    by (simp_all add: serialize_frame_def server_frame_def length_field_def close_payload_def)
  have w1: "w1 = emit (Loop Clear_ping_timer) (send_frame (bytes_of_string ''ping?'') Op_ping True (Reset_timeout timeout) w)"
    using assms(9) by (simp add: on_ping_timer_def ping_ws_def)
  then have "new_actions w w1 = [Write ?ping (Reset_timeout timeout)]"
    by (simp add: new_actions_def send_frame_def emit_def)
  then have c1: "cn_open c1" "cn_sends c1 = []" "cn_jobs c1 = [\<lparr>tj_buf = ?ping, tj_sent = 0, tj_cb = Reset_timeout timeout\<rparr>]"
    "cn_called c1 = cn_called c" "cn_protocol c1 = Some (Ws app w1)" "cn_in_buf c1 = []"
    using assms(5-8,10) ping by (simp_all add: run_actions_def stuck_write)
  obtain w2 where w2: "close_ws app Normal (Text_message ''thx goodbye'') w1 = (emit (Conn (Write ?close Close_after)) w2, Inr ())"
    and acts: "new_actions w1 (emit (Conn (Write ?close Close_after)) w2) = [Write ?close Close_after]"
  proof -
    have "ws_handler w1"
      using assms(3) w1 by (simp add: emit_def send_frame_def)
    moreover have "serialize_frame (close_payload Normal (bytes_of_string ''thx goodbye'')) Op_close True = ?close"
      by (rule serialize_frame_eq) (simp add: close_payload_def)
    ultimately have "close_ws app Normal (Text_message ''thx goodbye'') w1 =
        (emit (Conn (Write ?close Close_after)) (emit (ws_out.Call On_close) (rm_timers w1)), Inr ())"
      using assms(2) by (simp add: close_ws_def call_on_close_def send_frame_def rm_timers_def emit_def)
    then show ?thesis
      by (rule that) (simp add: new_actions_def rm_timers_def emit_def)
  qed
  have "read_frame (?f @ []) = Inr (Frame True Op_close payload [] (length ?f))"
    using assms(11,12) by (intro read_frame_client) simp_all
  moreover have "length ?f < 2 ^ 31"
    using assms(11,12) by (simp add: length_client_frame length_field_def)
  ultimately have "onDataReceived app ?f w1 = (emit (Conn (Write ?close Close_after)) w2, Inr (int (length ?f), Some None))"
    using w2 by (simp add: onDataReceived_def on_data_loop.simps [of app ?f] handle_frame_def to_int32_id)
  then have "server_data env (Ws app w1) (cn_in_buf c1 @ ?f) =
      ([Write ?close Close_after], Ws app (emit (Conn (Write ?close Close_after)) w2), Inr (int (length ?f), Some None))"
    using acts c1(6) by (simp add: server_data_def)
  from receive_data [OF c1(5) this] \<open>length ?f < 2 ^ 31\<close> c1(6)
  have prot: "cn_protocol c2 = None" and out: "output_state c2 = output_state (run_actions [Write ?close Close_after] c1)"
    using assms(13) by simp_all
  let ?j1 = "\<lparr>tj_buf = ?ping, tj_sent = 0, tj_cb = Reset_timeout timeout\<rparr>"
  let ?j2 = "\<lparr>tj_buf = ?close, tj_sent = 0, tj_cb = Close_after\<rparr>"
  have c2: "cn_open c2" "cn_jobs c2 = [?j1, ?j2]" "cn_called c2 = cn_called c"
    using out c1 close by (simp_all add: output_state_def run_actions_def stuck_write)
  have jobs: "job_ok ?j1" "job_ok ?j2" "pending [?j1, ?j2] = unsent ?j1 @ unsent ?j2"
    using ping close by (simp_all add: job_ok_def)
  have "cn_called (snd (flush_jobs [?j1, ?j2] (c2\<lparr>cn_sends := sends, cn_armed := None\<rparr>))) =
      cn_called c2 @ [Reset_timeout timeout, Close_after]"
    using flush_jobs_two [of "c2\<lparr>cn_sends := sends, cn_armed := None\<rparr>" ?j1 ?j2] c2 jobs assms(14) by simp
  then have "cn_called c3 = cn_called c @ [Reset_timeout timeout, Close_after]"
    unfolding assms(15) writable_called using c2 by (simp del: flush_jobs.simps)
  with prot c2 show ?thesis
    by simp
qed

theorem ping_outlives_websocket_witness:
  "\<exists>c c'. cn_protocol c = None \<and> cn_called c = [] \<and>
    c' = fst (on_event (server_protocol example_env) EPOLLOUT
      (c\<lparr>cn_sends := replicate (length (pending (cn_jobs c))) (Room 1)\<rparr>)) \<and>
    cn_called c' = [Reset_timeout 5, Close_after]"
proof -
  let ?w = "(setHandler new_ws)\<lparr>ws_auto_ping := True\<rparr>"
  let ?w1 = "fst (on_ping_timer 5 ?w)"
  let ?c = "accepted (Ws default_app ?w)"
  let ?c1 = "run_actions (new_actions ?w ?w1) (?c\<lparr>cn_protocol := Some (Ws default_app ?w1)\<rparr>)"
  let ?c2 = "receive example_env (client_frame [1, 2, 3, 4] True Op_close []) ?c1"
  have "polite default_app"
    by (simp add: polite_def default_app_def split: ws_call.split)
  moreover have "app_on_close default_app = (\<lambda>_. [])" "ws_handler ?w"
    by (simp_all add: default_app_def setHandler_def)
  moreover have "on_ping_timer 5 ?w = (?w1, snd (on_ping_timer 5 ?w))"
    by simp
  moreover have "has_room (replicate (length (pending (cn_jobs ?c2))) (Room 1)) (length (pending (cn_jobs ?c2)))"
    by (simp add: has_room_def)
  moreover have "length [1, 2, 3, 4 :: byte] = 4" "length ([] :: bytes) \<le> 125"
    by simp_all
  moreover have "cn_protocol ?c = Some (Ws default_app ?w)" "cn_open ?c" "cn_sends ?c = []" "cn_jobs ?c = []" "cn_in_buf ?c = []"
    "cn_called ?c = []"
    by (simp_all add: accepted_def)
  ultimately show ?thesis
    using ping_outlives_websocket [of default_app ?w ?c 5 ?w1 "snd (on_ping_timer 5 ?w)" ?c1 "[1, 2, 3, 4]" "[]" ?c2 example_env
        "replicate (length (pending (cn_jobs ?c2))) (Room 1)", OF _ _ _ _ _ _ _ _ _ refl _ _ refl _ refl]
    by (metis append_Nil)
qed

end
