(* ===== verification/Static_File.thy ===== *)
theory Static_File
  imports DateStr Response Request
begin

text \<open>
  StaticFileHandler.cpp, and the rest of DateStrHelper.cpp that it uses. The file system (what
  \<^verbatim>\<open>open\<close>, \<^verbatim>\<open>fstat\<close> and \<^verbatim>\<open>pread\<close> answer) and the time functions of the C library are
  parameters; the paths and their extensions are those of \<^verbatim>\<open>std::filesystem\<close> on POSIX.
\<close>

section \<open>Dates\<close>

text \<open>The functions of the host: \<^verbatim>\<open>localtime_r\<close>, \<^verbatim>\<open>strptime\<close> (the text, the format and the
  fields it starts with) and \<^verbatim>\<open>mktime\<close>.\<close>

record host_time =
  ht_localtime :: "int \<Rightarrow> tm"
  ht_strptime :: "string \<Rightarrow> string \<Rightarrow> tm \<Rightarrow> tm"
  ht_mktime :: "tm \<Rightarrow> int"

text \<open>What a C function reads of a string: the characters before the first NUL.\<close>

definition c_str :: "string \<Rightarrow> string" where
  "c_str s = takeWhile (\<lambda>c. c \<noteq> CHR 0x00) s"

lemma c_str_id: "CHR 0x00 \<notin> set s \<Longrightarrow> c_str s = s"
  unfolding c_str_def by (intro takeWhile_eq_all_conv [THEN iffD2]) auto

lemma c_str_append: "CHR 0x00 \<notin> set s \<Longrightarrow> c_str (s @ t) = s @ c_str t"
  unfolding c_str_def by (intro takeWhile_append2) auto

definition date_format_string :: string where
  "date_format_string = ''%a, %d %b %Y %H:%M:%S %Z''"

definition zero_tm :: tm where
  "zero_tm = \<lparr>tm_sec = 0, tm_min = 0, tm_hour = 0, tm_mday = 0, tm_mon = 0, tm_year = 0, tm_wday = 0, tm_zone = []\<rparr>"

definition mkdatestr_time :: "host_time \<Rightarrow> int \<Rightarrow> string" where
  "mkdatestr_time host sec = mkdatestr (ht_localtime host sec)"

definition parsedatestr :: "host_time \<Rightarrow> string \<Rightarrow> tm" where
  "parsedatestr host str = ht_strptime host (c_str str) date_format_string zero_tm"

section \<open>Paths\<close>

text \<open>\<^verbatim>\<open>base / p\<close>: an absolute \<^verbatim>\<open>p\<close> replaces the base.\<close>

definition path_append :: "string \<Rightarrow> string \<Rightarrow> string" where
  "path_append base p =
     (if p \<noteq> [] \<and> hd p = CHR ''/'' then p
      else if base = [] \<or> last base = CHR ''/'' then base @ p
      else base @ ''/'' @ p)"

text \<open>\<^verbatim>\<open>extension()\<close>: from the last dot of the file name, unless the name starts with it or is
  \<^verbatim>\<open>..\<close>.\<close>

definition path_filename :: "string \<Rightarrow> string" where
  "path_filename p = rev (takeWhile (\<lambda>c. c \<noteq> CHR ''/'') (rev p))"

definition path_extension :: "string \<Rightarrow> string" where
  "path_extension p =
     (let name = path_filename p;
          after = rev (takeWhile (\<lambda>c. c \<noteq> CHR ''.'') (rev name));
          before = take (length name - length after) name
      in if name = ''..'' \<or> length before \<le> 1 then [] else CHR ''.'' # after)"

section \<open>The file system\<close>

record file_stat =
  st_size :: nat
  st_mtim :: int

text \<open>An open file: the answers of \<^verbatim>\<open>fstat\<close> and \<^verbatim>\<open>pread\<close> (of a length and an offset).\<close>

record open_file =
  fl_stat :: "file_stat option"
  fl_pread :: "nat \<Rightarrow> nat \<Rightarrow> bytes option"

type_synonym file_system = "string \<Rightarrow> open_file option"

section \<open>Ranges\<close>

definition is_digit :: "char \<Rightarrow> bool" where
  "is_digit c \<longleftrightarrow> digit_val 10 c \<noteq> None"

text \<open>The regular expression \<^verbatim>\<open>bytes=(\d+)-(\d*)\<close> on a whole value.\<close>

definition match_range :: "string \<Rightarrow> (string \<times> string) option" where
  "match_range val =
     (let rest = drop 6 val; first = takeWhile is_digit rest; behind = dropWhile is_digit rest
      in if take 6 val = ''bytes='' \<and> first \<noteq> [] \<and> behind \<noteq> [] \<and> hd behind = CHR ''-'' \<and> list_all is_digit (tl behind)
         then Some (first, tl behind) else None)"

text \<open>\<^verbatim>\<open>std::stoi\<close> of digits: what does not fit an \<^verbatim>\<open>int\<close> throws \<^verbatim>\<open>std::out_of_range\<close>.\<close>

definition stoi :: "string \<Rightarrow> nat result" where
  "stoi digits = (let v = fst (scan_digits 10 digits 0) in if v < 2 ^ 31 then Inr v else Inl (Logic_error ''stoi''))"

text \<open>The first value that is a range decides: the offsets of the first byte and behind the last.\<close>

fun select_range :: "nat \<Rightarrow> string list \<Rightarrow> (nat \<times> nat) result" where
  "select_range file_size [] = Inr (0, file_size)"
| "select_range file_size (val # vals) =
     (case match_range val of
        None \<Rightarrow> select_range file_size vals
      | Some (d1, d2) \<Rightarrow>
          rbind (stoi d1) (\<lambda>n.
            let start_offset = min file_size n
            in rbind (if d2 \<noteq> [] then rbind (stoi d2) (\<lambda>n. Inr (min file_size n)) else Inr file_size) (\<lambda>end_offset.
                 if start_offset > end_offset then Inl (Http_error 400 []) else Inr (start_offset, end_offset))))"

text \<open>\<^verbatim>\<open>end_offset - 1\<close> is a \<^verbatim>\<open>std::size_t\<close>.\<close>

definition content_range :: "nat \<Rightarrow> nat \<Rightarrow> nat \<Rightarrow> string" where
  "content_range start_offset end_offset file_size =
     ''bytes '' @ nat_to_string start_offset @ ''-'' @ nat_to_string (size_sub end_offset 1) @ ''/'' @ nat_to_string file_size"

section \<open>The handler\<close>

definition file_header :: "host_time \<Rightarrow> file_stat \<Rightarrow> string \<Rightarrow> response" where
  "file_header host st resource =
     (let r = default_response;
          r = r\<lparr>rs_fields := omm_emplace ''cache-control'' ''max-age=3600, no-cache'' (rs_fields r)\<rparr>;
          r = r\<lparr>rs_fields := omm_emplace ''last-modified'' (mkdatestr_time host (st_mtim st)) (rs_fields r)\<rparr>;
          r = r\<lparr>rs_fields := omm_emplace ''Accept-Ranges'' ''bytes'' (rs_fields r)\<rparr>
      in setContentTypeFromExtension (path_extension resource) r)"

definition not_modified :: "host_time \<Rightarrow> file_stat \<Rightarrow> request \<Rightarrow> bool" where
  "not_modified host st req =
     (case umm_find ''if-modified-since'' (h_fields (rq_header req)) of
        None \<Rightarrow> False
      | Some val \<Rightarrow> ht_mktime host (parsedatestr host val) \<ge> st_mtim st)"

definition read_range :: "open_file \<Rightarrow> nat \<Rightarrow> nat \<Rightarrow> bytes result" where
  "read_range f start_offset end_offset =
     (case fl_pread f (end_offset - start_offset) start_offset of
        None \<Rightarrow> Inl (Http_error 500 [])
      | Some bytes_read \<Rightarrow>
          if length bytes_read \<noteq> end_offset - start_offset then Inl (Http_error 500 []) else Inr bytes_read)"

definition serve_file :: "file_system \<Rightarrow> host_time \<Rightarrow> string \<Rightarrow> request \<Rightarrow> string \<Rightarrow> response option result" where
  "serve_file fs host base_dir req resource =
     (case fs (c_str (path_append base_dir resource)) of
        None \<Rightarrow> Inl (Http_error 404 [])
      | Some f \<Rightarrow>
          (case fl_stat f of
             None \<Rightarrow> Inl (Http_error 500 [])
           | Some st \<Rightarrow>
               (let r = file_header host st resource
                in if not_modified host st req then Inr (Some (r\<lparr>rs_status_code := 304\<rparr>))
                   else if h_method (rq_header req) = ''HEAD'' then
                     Inr (Some (r\<lparr>rs_fields := omm_emplace ''Content-Length'' (nat_to_string (st_size st)) (rs_fields r)\<rparr>))
                   else
                     rbind (select_range (st_size st) (umm_equal_range ''range'' (h_fields (rq_header req))))
                       (\<lambda>(start_offset, end_offset).
                         let r = (if start_offset \<noteq> 0 \<or> end_offset \<noteq> st_size st
                                  then r\<lparr>rs_status_code := 206,
                                         rs_fields := omm_emplace ''Content-Range''
                                           (content_range start_offset end_offset (st_size st)) (rs_fields r)\<rparr>
                                  else r)
                         in rbind (read_range f start_offset end_offset) (\<lambda>body.
                              Inr (Some (r\<lparr>rs_message_body := Some body\<rparr>)))))))"

definition can_serve_resource :: "file_system \<Rightarrow> string \<Rightarrow> string \<Rightarrow> bool" where
  "can_serve_resource fs base_dir resource \<longleftrightarrow> fs (c_str (path_append base_dir resource)) \<noteq> None"

section \<open>A range as a client writes it\<close>

lemma nat_to_string_is_digit: "\<forall>c \<in> set (nat_to_string n). is_digit c"
  using nat_to_string_digit_vals [of n] by (simp add: is_digit_def)

lemma minus_no_digit: "\<not> is_digit CHR ''-''"
  by (simp add: is_digit_def digit_val_def)

lemma take_digits:
  "\<forall>c \<in> set xs. is_digit c \<Longrightarrow> takeWhile is_digit (xs @ CHR ''-'' # ys) = xs"
  "\<forall>c \<in> set xs. is_digit c \<Longrightarrow> dropWhile is_digit (xs @ CHR ''-'' # ys) = CHR ''-'' # ys"
  by (simp_all add: takeWhile_append dropWhile_append minus_no_digit)

definition range_text :: "nat \<Rightarrow> nat option \<Rightarrow> string" where
  "range_text a b = ''bytes='' @ nat_to_string a @ ''-'' @ (case b of None \<Rightarrow> [] | Some b \<Rightarrow> nat_to_string b)"

lemma match_range_text:
  "match_range (range_text a b) = Some (nat_to_string a, case b of None \<Rightarrow> [] | Some b \<Rightarrow> nat_to_string b)"
  using nat_to_string_is_digit [of a] nat_to_string_is_digit [of "the b"] nat_to_string_nonempty [of a]
  by (cases b) (simp_all add: match_range_def range_text_def take_digits minus_no_digit list_all_iff)

lemma stoi_decimal: "stoi (nat_to_string n) = (if n < 2 ^ 31 then Inr n else Inl (Logic_error ''stoi''))"
  by (simp add: stoi_def scan_nat_to_string)

lemma select_range_text:
  assumes "a < 2 ^ 31" and "case b of None \<Rightarrow> True | Some b \<Rightarrow> a \<le> b \<and> b < 2 ^ 31"
  shows "select_range n (range_text a b # vals) =
    Inr (min n a, case b of None \<Rightarrow> n | Some b \<Rightarrow> min n b)"
  using assms nat_to_string_nonempty by (cases b) (auto simp: match_range_text stoi_decimal)

text \<open>A regular file with these contents.\<close>

definition holds :: "bytes \<Rightarrow> int \<Rightarrow> open_file \<Rightarrow> bool" where
  "holds contents m f \<longleftrightarrow> fl_stat f = Some \<lparr>st_size = length contents, st_mtim = m\<rparr> \<and>
     (\<forall>n off. fl_pread f n off = Some (take n (drop off contents)))"

definition regular_file :: "bytes \<Rightarrow> int \<Rightarrow> open_file" where
  "regular_file contents m = \<lparr>fl_stat = Some \<lparr>st_size = length contents, st_mtim = m\<rparr>,
     fl_pread = (\<lambda>n off. Some (take n (drop off contents)))\<rparr>"

lemma holds_regular_file: "holds contents m (regular_file contents m)"
  by (simp add: holds_def regular_file_def)

lemma read_range_slice:
  "holds contents m f \<Longrightarrow> i \<le> j \<Longrightarrow> j \<le> length contents \<Longrightarrow> read_range f i j = Inr (take (j - i) (drop i contents))"
  by (simp add: read_range_def holds_def)

text \<open>The range a request asks for, as offsets of its first byte and behind its last.\<close>

definition fresh_get :: "host_time \<Rightarrow> int \<Rightarrow> request \<Rightarrow> bool" where
  "fresh_get host m req \<longleftrightarrow> h_method (rq_header req) = ''GET'' \<and>
     \<not> not_modified host \<lparr>st_size = 0, st_mtim = m\<rparr> req"

lemma serve_range:
  assumes "fs (c_str (path_append base_dir resource)) = Some f" and "holds contents m f" and "fresh_get host m req"
    and "select_range (length contents) (umm_equal_range ''range'' (h_fields (rq_header req))) = Inr (i, j)"
    and "i \<le> j" and "j \<le> length contents"
  shows "\<exists>r. serve_file fs host base_dir req resource = Inr (Some r) \<and>
    rs_message_body r = Some (take (j - i) (drop i contents)) \<and>
    rs_status_code r = (if i = 0 \<and> j = length contents then 200 else 206) \<and>
    (i = 0 \<and> j = length contents \<or> (''Content-Range'', content_range i j (length contents)) \<in> set (rs_fields r))"
proof -
  have "\<not> not_modified host \<lparr>st_size = length contents, st_mtim = m\<rparr> req"
    using assms(3) by (simp add: fresh_get_def not_modified_def split: option.splits)
  moreover have "rs_status_code (file_header host \<lparr>st_size = length contents, st_mtim = m\<rparr> resource) = 200"
    by (simp add: file_header_def setContentTypeFromExtension_def default_response_def Let_def)
  ultimately show ?thesis
    using assms read_range_slice [OF assms(2,5,6)]
    by (auto simp: serve_file_def holds_def fresh_get_def set_omm_emplace Let_def)
qed

lemma range_slices:
  assumes "fs (c_str (path_append base_dir resource)) = Some f" and "holds contents m f" and "fresh_get host m req"
    and "umm_equal_range ''range'' (h_fields (rq_header req)) = range_text a b # vals"
    and "a < 2 ^ 31" and "case b of None \<Rightarrow> True | Some b \<Rightarrow> a \<le> b \<and> b < 2 ^ 31"
  shows "\<exists>r. serve_file fs host base_dir req resource = Inr (Some r) \<and>
    rs_message_body r = Some (drop a (case b of None \<Rightarrow> contents | Some b \<Rightarrow> take b contents))"
proof -
  let ?n = "length contents"
  have "min ?n a \<le> (case b of None \<Rightarrow> ?n | Some b \<Rightarrow> min ?n b)" "(case b of None \<Rightarrow> ?n | Some b \<Rightarrow> min ?n b) \<le> ?n"
    using assms(6) by (auto split: option.splits)
  from serve_range [of fs base_dir resource, OF assms(1-3) _ this] select_range_text [OF assms(5,6)] assms(4) obtain r where
    r: "serve_file fs host base_dir req resource = Inr (Some r)"
    and body: "rs_message_body r = Some (take ((case b of None \<Rightarrow> ?n | Some b \<Rightarrow> min ?n b) - min ?n a) (drop (min ?n a) contents))"
    by auto
  have "take ((case b of None \<Rightarrow> ?n | Some b \<Rightarrow> min ?n b) - min ?n a) (drop (min ?n a) contents) =
      drop a (case b of None \<Rightarrow> contents | Some b \<Rightarrow> take b contents)"
    by (cases "a \<le> ?n") (auto simp: drop_take min_def split: option.split)
  with r body show ?thesis
    by simp
qed

text \<open>The empty range at the start of a file: the position before its end wraps around.\<close>

lemma content_range_empty:
  "select_range n [range_text 0 (Some 0)] = Inr (0, 0)"
  "content_range 0 0 n = ''bytes 0-'' @ nat_to_string size_max @ ''/'' @ nat_to_string n"
  using select_range_text [of 0 "Some 0" n "[]"]
  by (simp_all del: select_range.simps add: content_range_def size_sub_def size_max_def nat_to_string.simps [of 0]
      digit_char_def char_of_def bit_0)

section \<open>Properties\<close>

definition example_clock :: host_time where
  "example_clock = \<lparr>ht_localtime = (\<lambda>_. zero_tm), ht_strptime = (\<lambda>_ _ t. t), ht_mktime = (\<lambda>_. 0)\<rparr>"

definition example_files :: file_system where
  "example_files path = (if path = ''/srv/a.txt'' then Some (regular_file [10, 20, 30, 40] 7) else None)"

definition range_request :: "nat \<Rightarrow> nat option \<Rightarrow> request" where
  "range_request a b = \<lparr>rq_header = \<lparr>h_method = ''GET'', h_resource = ''a.txt'', h_url = ''a.txt'', h_version = ''HTTP/1.1'',
     h_cookies = [], h_fields = [(''range'', range_text a b)], h_url_args = [], h_body_args = [], h_content_length = 0\<rparr>,
     rq_message_body = []\<rparr>"

lemmas static_example_defs = example_clock_def example_files_def range_request_def fresh_get_def not_modified_def
  umm_find_def umm_equal_range_def path_append_def c_str_def

text \<open>
  C36. A range of a static file is served without its last byte: RFC 7233 counts the last position in,
  the handler stops before it and announces the shorter range in \<^verbatim>\<open>Content-Range\<close>. Every byte of the
  range but the last is there, in order.
\<close>

theorem static_range_misses_last:
  assumes "fs (c_str (path_append base_dir resource)) = Some f" and "holds contents m f" and "fresh_get host m req"
    and "umm_equal_range ''range'' (h_fields (rq_header req)) = range_text a (Some b) # vals"
    and "a \<le> b" and "b < length contents" and "b < 2 ^ 31"
  shows "\<exists>r body. serve_file fs host base_dir req resource = Inr (Some r) \<and> rs_status_code r = 206 \<and>
    rs_message_body r = Some body \<and> take (Suc b - a) (drop a contents) = body @ [contents ! b] \<and>
    (''Content-Range'', content_range a b (length contents)) \<in> set (rs_fields r)"
proof -
  have min: "min (length contents) a = a" "min (length contents) b = b" "a < 2 ^ 31"
    using assms(5-7) by simp_all
  have "select_range (length contents) (umm_equal_range ''range'' (h_fields (rq_header req))) = Inr (a, b)"
    using select_range_text [of a "Some b" "length contents" vals] assms(4,5,7) min by simp
  moreover have "take (Suc b - a) (drop a contents) = take (b - a) (drop a contents) @ [contents ! b]"
    using assms(5,6) take_Suc_conv_app_nth [of "b - a" "drop a contents"] by (simp add: Suc_diff_le)
  ultimately show ?thesis
    using serve_range [of fs base_dir resource, OF assms(1-3), of a b] assms(5,6) by fastforce
qed

theorem static_range_misses_last_witness:
  "\<exists>r body. serve_file example_files example_clock ''/srv'' (range_request 1 (Some 2)) ''a.txt'' = Inr (Some r) \<and>
    rs_status_code r = 206 \<and> rs_message_body r = Some body \<and>
    take (Suc 2 - 1) (drop 1 [10, 20, 30, 40 :: byte]) = body @ [[10, 20, 30, 40] ! 2] \<and>
    (''Content-Range'', content_range 1 2 (length [10, 20, 30, 40 :: byte])) \<in> set (rs_fields r)"
  by (rule static_range_misses_last [where f = "regular_file [10, 20, 30, 40] 7" and m = 7 and vals = "[]"])
    (simp_all add: holds_regular_file static_example_defs)

text \<open>
  Ranges that follow each other are complete: what is served for \<^verbatim>\<open>bytes=0-k\<close> and for
  \<^verbatim>\<open>bytes=k-\<close> is the file, for every \<^verbatim>\<open>k\<close>, in the file or behind its end.
\<close>

lemma static_ranges_cover:
  assumes "fs (c_str (path_append base_dir resource)) = Some f" and "holds contents m f"
    and "fresh_get host m req1" and "umm_equal_range ''range'' (h_fields (rq_header req1)) = [range_text 0 (Some k)]"
    and "fresh_get host m req2" and "umm_equal_range ''range'' (h_fields (rq_header req2)) = [range_text k None]"
    and "k < 2 ^ 31"
  shows "\<exists>r1 r2 body1 body2. serve_file fs host base_dir req1 resource = Inr (Some r1) \<and> rs_message_body r1 = Some body1 \<and>
    serve_file fs host base_dir req2 resource = Inr (Some r2) \<and> rs_message_body r2 = Some body2 \<and>
    body1 @ body2 = contents"
  using range_slices [of fs base_dir resource, OF assms(1-4)]
    range_slices [of fs base_dir resource, OF assms(1,2,5,6,7)] assms(7) by fastforce

text \<open>
  The base directory does not confine the handler: a resource that starts with a slash is opened
  as it is, whatever the base directory.
\<close>

lemma static_absolute_path:
  "serve_file fs host base_dir req (CHR ''/'' # path) = serve_file fs host other_dir req (CHR ''/'' # path) \<and>
   (can_serve_resource fs base_dir (CHR ''/'' # path) \<longleftrightarrow> fs (c_str (CHR ''/'' # path)) \<noteq> None)"
  by (simp add: serve_file_def can_serve_resource_def path_append_def)

text \<open>
  A resource with a NUL (\<^verbatim>\<open>%00\<close> in the URL) opens the file named before it, and is served with the
  content type of the extension behind it.
\<close>

lemma static_nul_resource:
  assumes "CHR 0x00 \<notin> set (path_append base_dir resource)" and "resource \<noteq> []"
  shows "c_str (path_append base_dir (resource @ CHR 0x00 # other)) = path_append base_dir resource"
proof -
  have "path_append base_dir (resource @ CHR 0x00 # other) = path_append base_dir resource @ CHR 0x00 # other"
    using assms(2) by (simp add: path_append_def)
  with c_str_append [OF assms(1)] show ?thesis
    by (simp add: c_str_def)
qed

end
