(* ===== verification/Static_Route.thy ===== *)
theory Static_Route
  imports Static_File Routing
begin

text \<open>
  A \<^verbatim>\<open>StaticFileHandler\<close> as the function of a route, the way an application serves a directory: from
  the text of a request to the file that is opened.
\<close>

section \<open>The route\<close>

text \<open>The pattern \<^verbatim>\<open>pre(.*)\<close>; a dot matches no line break.\<close>

definition below :: "string \<Rightarrow> string \<Rightarrow> string list option" where
  "below pre resource =
     (let rest = drop (length pre) resource
      in if take (length pre) resource = pre \<and> list_all (\<lambda>c. c \<noteq> CHR 0x0A \<and> c \<noteq> CHR 0x0D) rest then Some [rest] else None)"

definition serve_below :: "file_system \<Rightarrow> host_time \<Rightarrow> string \<Rightarrow> request \<Rightarrow> arg list \<Rightarrow> response option result" where
  "serve_below fs host base_dir req args =
     (case args of
        [String_arg resource] \<Rightarrow> serve_file fs host base_dir req resource
      | _ \<Rightarrow> Inl Other_throw)"

definition static_route :: "file_system \<Rightarrow> host_time \<Rightarrow> string \<Rightarrow> string \<Rightarrow> route" where
  "static_route fs host base_dir pre =
     \<lparr>rt_address = 0, rt_pattern = below pre, rt_methods = [''GET''], rt_types = [Type_string],
      rt_ftor = serve_below fs host base_dir\<rparr>"

lemma make_static_route:
  "make_route 0 (below pre) 1 [''GET''] [Type_string] (serve_below fs host base_dir) =
     Inr (static_route fs host base_dir pre)"
  by (simp add: make_route_def static_route_def)

lemma static_route_serves:
  assumes "dp_routes d = [static_route fs host base_dir pre]" and "h_method (rq_header req) = ''GET''"
    and "h_resource (rq_header req) = pre @ resource" and "list_all (\<lambda>c. c \<noteq> CHR 0x0A \<and> c \<noteq> CHR 0x0D) resource"
  shows "route_request d req = response_of_outcome (dp_error_body_generator d) (serve_file fs host base_dir req resource)"
  using assms
  by (simp add: route_request_def match_route_def max_element_def static_route_def below_def call_route_eq
      extract_arg_def sub_match_def serve_below_def)

section \<open>Properties\<close>

text \<open>
  C35. A route that serves a directory serves every file the process can read: the prefix of the route
  is followed by the absolute name of the file, written as it is, and the answer is its contents,
  whatever the directory is.
\<close>

theorem static_route_escapes:
  assumes "dp_routes d = [static_route fs host base_dir pre]"
    and "clean_path (pre @ CHR ''/'' # file)" and "CHR 0x0A \<notin> set file" and "CHR 0x00 \<notin> set file"
    and "CHR 0x0D \<notin> set v" and "length (request_text ''GET'' (pre @ CHR ''/'' # file) v []) < npos32"
    and "fs (CHR ''/'' # file) = Some f" and "holds contents m f"
  shows "\<exists>hdr r. parse_header (request_text ''GET'' (pre @ CHR ''/'' # file) v []) = Inr hdr \<and>
    route_request d \<lparr>rq_header = hdr, rq_message_body = []\<rparr> = Inr r \<and> rs_status_code r = 200 \<and>
    rs_message_body r = Some contents"
proof -
  let ?path = "pre @ CHR ''/'' # file"
  let ?hdr = "expected_header ''GET'' ?path [] v [] [] None"
  let ?req = "\<lparr>rq_header = ?hdr, rq_message_body = []\<rparr>"
  have hdr: "parse_header (request_text ''GET'' ?path v []) = Inr ?hdr"
    using parse_expected_header [of "''GET''" ?path "[]" v "[]" "[]" None] assms(2,5,6)
    by (simp add: clean_word_def clean_query_def target_def lower_names_def umm_equal_range_def umm_find_def)
  have fields: "h_fields ?hdr = []" "h_method ?hdr = ''GET''" "h_resource ?hdr = ?path"
    by (simp_all add: expected_header_def lower_names_def)
  have path: "c_str (path_append base_dir (CHR ''/'' # file)) = CHR ''/'' # file"
    using assms(4) by (simp add: path_append_def c_str_id)
  have "fresh_get host m ?req"
    using fields by (simp add: fresh_get_def not_modified_def umm_find_def)
  moreover have "select_range (length contents) (umm_equal_range ''range'' (h_fields (rq_header ?req))) = Inr (0, length contents)"
    using fields by (simp add: umm_equal_range_def)
  ultimately obtain r where r: "serve_file fs host base_dir ?req (CHR ''/'' # file) = Inr (Some r)"
    "rs_message_body r = Some contents" "rs_status_code r = 200"
    using serve_range [of fs base_dir "CHR ''/'' # file" f contents m host ?req 0 "length contents"] assms(7,8) path by auto
  have "list_all (\<lambda>c. c \<noteq> CHR 0x0A \<and> c \<noteq> CHR 0x0D) (CHR ''/'' # file)"
    using assms(2,3) by (auto simp: list_all_iff clean_path_def)
  from static_route_serves [OF assms(1) _ _ this] fields r hdr show ?thesis
    by (simp add: response_of_outcome_def)
qed

theorem static_route_escapes_witness:
  "\<exists>hdr r. parse_header (request_text ''GET'' (''/pub/'' @ ''/srv/a.txt'') ''HTTP/1.1'' []) = Inr hdr \<and>
    route_request ((make_dispatcher None :: (unit, unit) dispatcher)
        \<lparr>dp_routes := [static_route example_files example_clock ''/var/www'' ''/pub/'']\<rparr>)
      \<lparr>rq_header = hdr, rq_message_body = []\<rparr> = Inr r \<and> rs_status_code r = 200 \<and>
    rs_message_body r = Some [10, 20, 30, 40]"
  by (rule static_route_escapes [where fs = example_files and host = example_clock and base_dir = "''/var/www''" and f = "regular_file [10, 20, 30, 40] 7" and m = 7])
    (simp_all add: make_dispatcher_def example_files_def holds_regular_file clean_path_def text_defs npos32_def)

end
