(* ===== verification/Callbacks.thy ===== *)
theory Callbacks
  imports Connection
begin

text \<open>
  ConnectionHandler.cpp, with completion callbacks that use their connection: the lock of the queue is
  recursive, so a callback may call \<^verbatim>\<open>write\<close> and \<^verbatim>\<open>close\<close> while \<^verbatim>\<open>write\<close> or the handler of
  \<^verbatim>\<open>EPOLLOUT\<close> is running it. The state adds the capacity of the vector of jobs, how often its
  storage was replaced, and the list of the calls that were made, which only the theorems look at.
  What the callback with a number does is a parameter: the calls it makes, in order.
\<close>

section \<open>State\<close>

record 'p queue_state =
  qs_conn :: "'p conn"
  qs_capacity :: nat
  qs_moved :: nat
  qs_calls :: "conn_action list"

type_synonym 'p callback_runner = "nat \<Rightarrow> 'p queue_state \<Rightarrow> 'p queue_state result"

section \<open>Operations\<close>

text \<open>
  \<^verbatim>\<open>emplace_back\<close> of a job, the size and the registration for output. A full vector moves its
  elements to a larger storage; how much larger is the library's choice.
\<close>

definition queue_job :: "(nat \<Rightarrow> nat) \<Rightarrow> transmit_job \<Rightarrow> 'p queue_state \<Rightarrow> 'p queue_state" where
  "queue_job grow job s =
     (let c = qs_conn s;
          full = (qs_capacity s \<le> length (cn_jobs c))
      in s\<lparr>qs_capacity := if full then grow (qs_capacity s) else qs_capacity s,
           qs_moved := if full then Suc (qs_moved s) else qs_moved s,
           qs_conn := modFD (EPOLLIN OR EPOLLOUT OR EPOLLHUP OR EPOLLRDHUP OR EPOLLONESHOT)
             (c\<lparr>cn_out_size := cn_out_size c + remaining job, cn_jobs := cn_jobs c @ [job]\<rparr>)\<rparr>)"

text \<open>The callback of a job that is done, after \<^const>\<open>flush_job\<close> has recorded that it is called.\<close>

definition user_callback :: "'p callback_runner \<Rightarrow> after_sent \<Rightarrow> 'p queue_state \<Rightarrow> 'p queue_state result" where
  "user_callback run cb s = (case cb of User_callback n \<Rightarrow> run n s | _ \<Rightarrow> Inr s)"

definition write_calling ::
  "(nat \<Rightarrow> nat) \<Rightarrow> 'p callback_runner \<Rightarrow> bytes \<Rightarrow> after_sent \<Rightarrow> 'p queue_state \<Rightarrow> 'p queue_state result" where
  "write_calling grow run out_buf on_after_sent s =
     (let job = \<lparr>tj_buf = out_buf, tj_sent = 0, tj_cb = on_after_sent\<rparr>;
          s = s\<lparr>qs_calls := qs_calls s @ [Write out_buf on_after_sent]\<rparr>
      in if cn_jobs (qs_conn s) \<noteq> [] then Inr (queue_job grow job s)
         else let (sent, job, c) = flush_job job (qs_conn s);
                  s = s\<lparr>qs_conn := c\<rparr>
              in if sent then user_callback run on_after_sent s else Inr (queue_job grow job s))"

fun act_calling ::
  "(nat \<Rightarrow> nat) \<Rightarrow> 'p callback_runner \<Rightarrow> conn_action \<Rightarrow> 'p queue_state \<Rightarrow> 'p queue_state result" where
  "act_calling grow run (Write out_buf cb) s = write_calling grow run out_buf cb s"
| "act_calling grow run Close s =
     Inr (s\<lparr>qs_calls := qs_calls s @ [Close], qs_conn := close_conn (qs_conn s)\<rparr>)"

fun acts_calling ::
  "(nat \<Rightarrow> nat) \<Rightarrow> 'p callback_runner \<Rightarrow> conn_action list \<Rightarrow> 'p queue_state \<Rightarrow> 'p queue_state result" where
  "acts_calling grow run [] s = Inr s"
| "acts_calling grow run (act # acts) s =
     rbind (act_calling grow run act s) (acts_calling grow run acts)"

text \<open>The callback with a number; the fuel bounds how deep callbacks are nested in each other.\<close>

primrec run_user :: "(nat \<Rightarrow> nat) \<Rightarrow> (nat \<Rightarrow> conn_action list) \<Rightarrow> nat \<Rightarrow> 'p callback_runner" where
  "run_user grow user 0 = (\<lambda>n s. Inl Out_of_fuel)"
| "run_user grow user (Suc depth) = (\<lambda>n s. acts_calling grow (run_user grow user depth) (user n) s)"

text \<open>
  The loop over the queue: \<^verbatim>\<open>flush_job\<close> works on the first job in place and runs its callback
  while the job is still in the vector. Afterwards the job is read through the iterator taken
  before: when the callback made the vector move its elements, the iterator is dangling.
\<close>

definition dangling_job :: fault where
  "dangling_job = Undefined ''iterator into the storage transmit_jobs had before a callback wrote''"

primrec flush_calling :: "'p callback_runner \<Rightarrow> nat \<Rightarrow> 'p queue_state \<Rightarrow> 'p queue_state result" where
  "flush_calling run 0 s = Inl Out_of_fuel"
| "flush_calling run (Suc fuel) s =
     (case cn_jobs (qs_conn s) of
        [] \<Rightarrow> Inr s
      | job # jobs \<Rightarrow>
          (let to_send = remaining job;
               (job_sent, job, c) = flush_job job (qs_conn s);
               s = s\<lparr>qs_conn := c\<lparr>cn_jobs := job # jobs\<rparr>\<rparr>
           in rbind (if job_sent then user_callback run (tj_cb job) s else Inr s)
                (\<lambda>s'. if qs_moved s' \<noteq> qs_moved s then Inl dangling_job
                  else
                    (let c = qs_conn s';
                         s' = s'\<lparr>qs_conn := c\<lparr>cn_out_size := cn_out_size c - (to_send - remaining job)\<rparr>\<rparr>
                     in if job_sent
                        then flush_calling run fuel (s'\<lparr>qs_conn := (qs_conn s')\<lparr>cn_jobs := tl (cn_jobs c)\<rparr>\<rparr>)
                        else Inr s'))))"

definition writable_calling :: "'p callback_runner \<Rightarrow> nat \<Rightarrow> 'p queue_state \<Rightarrow> 'p queue_state result" where
  "writable_calling run fuel s =
     rbind (flush_calling run fuel s)
       (\<lambda>s. Inr (s\<lparr>qs_conn := (if cn_protocol (qs_conn s) = None then close_conn (qs_conn s) else qs_conn s)\<rparr>))"


section \<open>Order\<close>

text \<open>
  The relation between a state and its calls: \<^const>\<open>queue_ok\<close> of the jobs behind \<open>front\<close>, the job
  whose callback is running; the size still counts \<open>d\<close> bytes of it.
\<close>

definition calls_ok :: "transmit_job list \<Rightarrow> u64 \<Rightarrow> 'p queue_state \<Rightarrow> bool" where
  "calls_ok front d s \<longleftrightarrow> (front = [] \<longrightarrow> d = 0) \<and>
     (\<exists>rest. cn_jobs (qs_conn s) = front @ rest \<and>
        queue_ok (written_by (qs_calls s)) (callbacks_of (qs_calls s))
          ((qs_conn s)\<lparr>cn_jobs := rest, cn_out_size := cn_out_size (qs_conn s) - d\<rparr>))"

definition keeps_calls :: "'p callback_runner \<Rightarrow> bool" where
  "keeps_calls run \<longleftrightarrow> (\<forall>front d n s s'. calls_ok front d s \<longrightarrow> run n s = Inr s' \<longrightarrow> calls_ok front d s')"

lemma calls_ok_Nil:
  "calls_ok [] d s \<longleftrightarrow> d = 0 \<and> queue_ok (written_by (qs_calls s)) (callbacks_of (qs_calls s)) (qs_conn s)"
  by (auto simp: calls_ok_def)

lemma queue_job_conn [simp]:
  "qs_conn (queue_job grow job s) = modFD (EPOLLIN OR EPOLLOUT OR EPOLLHUP OR EPOLLRDHUP OR EPOLLONESHOT)
     ((qs_conn s)\<lparr>cn_out_size := cn_out_size (qs_conn s) + remaining job, cn_jobs := cn_jobs (qs_conn s) @ [job]\<rparr>)"
  "qs_calls (queue_job grow job s) = qs_calls s"
  by (simp_all add: queue_job_def Let_def)

lemma user_callback_keeps:
  "keeps_calls run \<Longrightarrow> calls_ok front d s \<Longrightarrow> user_callback run cb s = Inr s' \<Longrightarrow> calls_ok front d s'"
  by (auto simp: user_callback_def keeps_calls_def split: after_sent.splits)

lemma calls_ok_queue:
  assumes "calls_ok front d s" and "front \<noteq> []" and "length bs < 2 ^ 31"
  shows "calls_ok front d (queue_job grow \<lparr>tj_buf = bs, tj_sent = 0, tj_cb = cb\<rparr>
    (s\<lparr>qs_calls := qs_calls s @ [Write bs cb]\<rparr>))"
proof -
  let ?job = "\<lparr>tj_buf = bs, tj_sent = 0, tj_cb = cb\<rparr>"
  have job: "job_ok ?job" "unsent ?job = bs" "callbacks [?job] = callbacks_of [Write bs cb]"
    using assms(3) by (simp_all add: job_ok_def unsent_def)
  from assms(1) obtain rest where rest: "cn_jobs (qs_conn s) = front @ rest"
    "queue_ok (written_by (qs_calls s)) (callbacks_of (qs_calls s))
       ((qs_conn s)\<lparr>cn_jobs := rest, cn_out_size := cn_out_size (qs_conn s) - d\<rparr>)"
    by (auto simp: calls_ok_def)
  with job assms(2) show ?thesis
    unfolding calls_ok_def
    by (intro conjI exI [of _ "rest @ [?job]"])
      (auto simp: queue_ok_def modFD_def remaining_unsent written_by_append callbacks_of_append algebra_simps)
qed

lemma calls_ok_write_conn:
  assumes "calls_ok [] 0 s" and "length bs < 2 ^ 31"
  shows "calls_ok [] 0 (s\<lparr>qs_calls := qs_calls s @ [Write bs cb], qs_conn := write_conn bs cb (qs_conn s)\<rparr>)"
  using queue_ok_write [OF assms(1) [unfolded calls_ok_Nil, THEN conjunct2] assms(2), of cb]
  by (auto simp: calls_ok_Nil written_by_append callbacks_of_append)

lemma write_calling_keeps:
  assumes "keeps_calls run" and "calls_ok front d s" and "length bs < 2 ^ 31"
    and "write_calling grow run bs cb s = Inr s'"
  shows "calls_ok front d s'"
proof (cases "cn_jobs (qs_conn s) = []")
  case False
  then show ?thesis
  proof (cases "front = []")
    case True
    with assms(2) have "d = 0" "calls_ok [] 0 s"
      by (auto simp: calls_ok_def)
    from calls_ok_write_conn [OF this(2) assms(3), of cb] assms(4) False \<open>d = 0\<close> True show ?thesis
      by (auto simp: write_calling_def write_conn_def calls_ok_Nil Let_def)
  next
    case front: False
    from calls_ok_queue [OF assms(2) front assms(3)] assms(4) False show ?thesis
      by (auto simp: write_calling_def Let_def)
  qed
next
  case jobs: True
  with assms(2) have front: "front = []" "d = 0" "calls_ok [] 0 s"
    by (auto simp: calls_ok_def)
  let ?job = "\<lparr>tj_buf = bs, tj_sent = 0, tj_cb = cb\<rparr>"
  obtain sent job c where flush: "flush_job ?job (qs_conn s) = (sent, job, c)"
    by (metis prod_cases3)
  have written: "calls_ok [] 0 (s\<lparr>qs_calls := qs_calls s @ [Write bs cb], qs_conn := write_conn bs cb (qs_conn s)\<rparr>)"
    by (rule calls_ok_write_conn [OF front(3) assms(3)])
  show ?thesis
  proof (cases sent)
    case True
    with flush jobs have "write_conn bs cb (qs_conn s) = c"
      by (simp add: write_conn_def)
    with written have "calls_ok [] 0 (s\<lparr>qs_calls := qs_calls s @ [Write bs cb], qs_conn := c\<rparr>)"
      by simp
    moreover have "user_callback run cb (s\<lparr>qs_calls := qs_calls s @ [Write bs cb], qs_conn := c\<rparr>) = Inr s'"
      using assms(4) True flush jobs by (simp add: write_calling_def)
    ultimately show ?thesis
      using user_callback_keeps [OF assms(1)] front by blast
  next
    case False
    with flush jobs written assms(4) front show ?thesis
      by (auto simp: write_calling_def write_conn_def calls_ok_Nil Let_def)
  qed
qed

lemma acts_calling_keeps:
  assumes "keeps_calls run"
  shows "calls_ok front d s \<Longrightarrow> small_writes acts \<Longrightarrow> acts_calling grow run acts s = Inr s' \<Longrightarrow> calls_ok front d s'"
proof (induction acts arbitrary: s)
  case (Cons act acts)
  from Cons.prems(3) obtain s1 where first: "act_calling grow run act s = Inr s1"
    and rest: "acts_calling grow run acts s1 = Inr s'"
    by (auto simp: result_simps)
  have "calls_ok front d s1"
  proof (cases act)
    case (Write bs cb)
    with first Cons.prems(2) show ?thesis
      by (intro write_calling_keeps [OF assms Cons.prems(1), of bs grow cb]) simp_all
  next
    case Close
    with first Cons.prems(1) show ?thesis
      by (auto simp: calls_ok_def written_by_append callbacks_of_append close_conn_def queue_ok_def)
  qed
  moreover have "small_writes acts"
    using Cons.prems(2) by (cases act) simp_all
  ultimately show ?case
    using Cons.IH rest by blast
qed simp

lemma run_user_keeps: "(\<And>n. small_writes (user n)) \<Longrightarrow> keeps_calls (run_user grow user depth :: 'p callback_runner)"
proof (induction depth)
  case 0
  then show ?case
    by (simp add: keeps_calls_def)
next
  case (Suc depth)
  have "keeps_calls (run_user grow user depth :: 'p callback_runner)"
    by (rule Suc.IH [OF Suc.prems])
  note acts_calling_keeps [OF this, of _ _ _ "user _" grow]
  with Suc.prems show ?case
    unfolding keeps_calls_def [of "run_user grow user (Suc depth)"] by (auto simp: run_user.simps)
qed


lemma flush_front_calls:
  assumes "calls_ok [] 0 s" and "cn_jobs (qs_conn s) = job # jobs"
    and flush: "flush_job job (qs_conn s) = (sent, job', c)"
  shows "(sent \<longrightarrow> calls_ok [job'] (remaining job - remaining job') (s\<lparr>qs_conn := c\<lparr>cn_jobs := job' # jobs\<rparr>\<rparr>)) \<and>
    (\<not> sent \<longrightarrow> calls_ok [] 0 (s\<lparr>qs_conn := c\<lparr>cn_jobs := job' # jobs,
        cn_out_size := cn_out_size c - (remaining job - remaining job')\<rparr>\<rparr>))"
proof (cases "cn_open (qs_conn s)")
  case True
  have ok: "job_ok job" "Send_error \<notin> set (cn_sends (qs_conn s))"
    using assms(1,2) by (simp_all add: calls_ok_Nil queue_ok_def)
  note one = flush_job_open [OF flush True ok]
  then have "prefix (cn_wire c) (cn_wire (qs_conn s) @ unsent job @ pending jobs)"
    by (metis append.assoc prefixI)
  moreover have "prefix (cn_wire (qs_conn s) @ unsent job) (cn_wire (qs_conn s) @ unsent job @ pending jobs)"
    by simp
  moreover have "cn_wire c = cn_wire (qs_conn s) @ unsent job" "remaining job' = 0" if sent
    using one that by (auto simp: remaining_unsent)
  ultimately show ?thesis
    using one ok assms(1,2) True
    by (cases sent) (auto simp: calls_ok_def queue_ok_def remaining_unsent, (metis append.assoc)+)
next
  case False
  from flush_job_closed [OF False, of job] flush assms(1,2) False show ?thesis
    by (auto simp: calls_ok_def queue_ok_def)
qed

lemma flush_calling_keeps:
  assumes "keeps_calls run"
  shows "calls_ok [] 0 s \<Longrightarrow> flush_calling run fuel s = Inr s' \<Longrightarrow> calls_ok [] 0 s'"
proof (induction fuel arbitrary: s)
  case (Suc fuel)
  show ?case
  proof (cases "cn_jobs (qs_conn s)")
    case Nil
    with Suc.prems show ?thesis
      by simp
  next
    case (Cons job jobs)
    obtain sent job' c where flush: "flush_job job (qs_conn s) = (sent, job', c)"
      by (metis prod_cases3)
    note front = flush_front_calls [OF Suc.prems(1) Cons flush]
    let ?s = "s\<lparr>qs_conn := c\<lparr>cn_jobs := job' # jobs\<rparr>\<rparr>"
    show ?thesis
    proof (cases sent)
      case False
      with front Suc.prems(2) Cons flush show ?thesis
        by (auto simp: Let_def split: if_splits)
    next
      case True
      with Suc.prems(2) Cons flush obtain s1 where callback: "user_callback run (tj_cb job') ?s = Inr s1"
        and rest: "flush_calling run fuel (s1\<lparr>qs_conn := (qs_conn s1)\<lparr>
            cn_out_size := cn_out_size (qs_conn s1) - (remaining job - remaining job'),
            cn_jobs := tl (cn_jobs (qs_conn s1))\<rparr>\<rparr>) = Inr s'"
        by (auto simp: Let_def result_simps split: if_splits)
      from user_callback_keeps [OF assms _ callback] front True
      have "calls_ok [job'] (remaining job - remaining job') s1"
        by blast
      then have "calls_ok [] 0 (s1\<lparr>qs_conn := (qs_conn s1)\<lparr>
            cn_out_size := cn_out_size (qs_conn s1) - (remaining job - remaining job'),
            cn_jobs := tl (cn_jobs (qs_conn s1))\<rparr>\<rparr>)"
        by (auto simp: calls_ok_def)
      from Suc.IH [OF this rest] show ?thesis .
    qed
  qed
qed simp

section \<open>A connection over time\<close>

definition accepted_queue :: "'p \<Rightarrow> 'p queue_state" where
  "accepted_queue p = \<lparr>qs_conn = accepted p, qs_capacity = 0, qs_moved = 0, qs_calls = []\<rparr>"

fun calling_step :: "(nat \<Rightarrow> nat) \<Rightarrow> 'p callback_runner \<Rightarrow> nat \<Rightarrow> output_event \<Rightarrow> 'p queue_state \<Rightarrow> 'p queue_state result" where
  "calling_step grow run fuel (Acts acts) s = acts_calling grow run acts s"
| "calling_step grow run fuel Writable s =
     rbind (writable_calling run fuel (s\<lparr>qs_conn := (qs_conn s)\<lparr>cn_armed := None\<rparr>\<rparr>))
       (\<lambda>s. Inr (s\<lparr>qs_conn := rearm (qs_conn s)\<rparr>))"
| "calling_step grow run fuel (More_room answers) s =
     Inr (s\<lparr>qs_conn := (qs_conn s)\<lparr>cn_sends := cn_sends (qs_conn s) @ answers\<rparr>\<rparr>)"

fun calling_run :: "(nat \<Rightarrow> nat) \<Rightarrow> 'p callback_runner \<Rightarrow> nat \<Rightarrow> output_event list \<Rightarrow> 'p queue_state \<Rightarrow> 'p queue_state result" where
  "calling_run grow run fuel [] s = Inr s"
| "calling_run grow run fuel (e # es) s = rbind (calling_step grow run fuel e s) (calling_run grow run fuel es)"

lemma calling_step_keeps:
  assumes "keeps_calls run" and "calls_ok [] 0 s" and "event_fits e" and "calling_step grow run fuel e s = Inr s'"
  shows "calls_ok [] 0 s'"
proof (cases e)
  case (Acts acts)
  with assms show ?thesis
    using acts_calling_keeps [OF assms(1,2)] by simp
next
  case Writable
  from assms(2) have armed: "calls_ok [] 0 (s\<lparr>qs_conn := (qs_conn s)\<lparr>cn_armed := None\<rparr>\<rparr>)"
    by (simp add: calls_ok_Nil queue_ok_frame)
  from assms(4) Writable obtain s1 where
    flush: "flush_calling run fuel (s\<lparr>qs_conn := (qs_conn s)\<lparr>cn_armed := None\<rparr>\<rparr>) = Inr s1"
    and s': "s' = s1\<lparr>qs_conn := rearm (if cn_protocol (qs_conn s1) = None then close_conn (qs_conn s1) else qs_conn s1)\<rparr>"
    by (auto simp: writable_calling_def result_simps)
  from flush_calling_keeps [OF assms(1) armed flush] s' show ?thesis
    by (auto simp: calls_ok_Nil queue_ok_frame queue_ok_close)
next
  case (More_room answers)
  with assms show ?thesis
    by (auto simp: calls_ok_Nil queue_ok_room)
qed

lemma calling_run_keeps:
  assumes "keeps_calls run" and "\<forall>e \<in> set es. event_fits e"
  shows "calls_ok [] 0 s \<Longrightarrow> calling_run grow run fuel es s = Inr s' \<Longrightarrow> calls_ok [] 0 s'"
  using assms(2)
proof (induction es arbitrary: s)
  case (Cons e es)
  then show ?case
    using calling_step_keeps [OF assms(1)] by (fastforce simp: result_simps)
qed simp


section \<open>Callbacks end\<close>

text \<open>
  The callbacks are ranked when a callback passes only callbacks of a smaller number to \<^verbatim>\<open>write\<close>.
  The weight of a queue counts its jobs and those that their callbacks add to it.
\<close>

definition ranked :: "(nat \<Rightarrow> conn_action list) \<Rightarrow> bool" where
  "ranked user \<longleftrightarrow> (\<forall>n m bs. Write bs (User_callback m) \<in> set (user n) \<longrightarrow> m < n)"

definition rank_below :: "nat \<Rightarrow> after_sent \<Rightarrow> bool" where
  "rank_below depth cb \<longleftrightarrow> (\<forall>n. cb = User_callback n \<longrightarrow> n < depth)"

fun jobs_of :: "conn_action list \<Rightarrow> transmit_job list" where
  "jobs_of [] = []"
| "jobs_of (Write bs cb # acts) = \<lparr>tj_buf = bs, tj_sent = 0, tj_cb = cb\<rparr> # jobs_of acts"
| "jobs_of (Close # acts) = jobs_of acts"

primrec spawned :: "(nat \<Rightarrow> conn_action list) \<Rightarrow> nat \<Rightarrow> after_sent \<Rightarrow> nat" where
  "spawned user 0 cb = 0"
| "spawned user (Suc depth) cb =
     (case cb of
        User_callback n \<Rightarrow> sum_list (map (\<lambda>job. Suc (spawned user depth (tj_cb job))) (jobs_of (user n)))
      | _ \<Rightarrow> 0)"

definition weight :: "(nat \<Rightarrow> conn_action list) \<Rightarrow> nat \<Rightarrow> transmit_job list \<Rightarrow> nat" where
  "weight user depth jobs = sum_list (map (\<lambda>job. Suc (spawned user depth (tj_cb job))) jobs)"

lemma weight_simps [simp]:
  "weight user depth [] = 0"
  "weight user depth (job # jobs) = Suc (spawned user depth (tj_cb job)) + weight user depth jobs"
  "weight user depth (jobs @ jobs') = weight user depth jobs + weight user depth jobs'"
  by (simp_all add: weight_def)

lemma length_le_weight: "length jobs \<le> weight user depth jobs"
  by (induction jobs) auto

lemma jobs_of_mem: "job \<in> set (jobs_of acts) \<Longrightarrow> Write (tj_buf job) (tj_cb job) \<in> set acts"
  by (induction acts rule: jobs_of.induct) auto

lemma ranked_jobs:
  assumes "ranked user" and "job \<in> set (jobs_of (user n))" and "n \<le> depth"
  shows "rank_below depth (tj_cb job)"
  unfolding rank_below_def
proof (intro allI impI)
  fix m
  assume "tj_cb job = User_callback m"
  with assms jobs_of_mem [OF assms(2)] show "m < depth"
    by (auto simp: ranked_def intro: order.strict_trans2)
qed

lemma spawned_stable:
  assumes "ranked user"
  shows "rank_below depth cb \<Longrightarrow> spawned user (Suc depth) cb = spawned user depth cb"
proof (induction depth arbitrary: cb)
  case 0
  then show ?case
    by (auto simp: rank_below_def split: after_sent.split)
next
  case (Suc depth)
  show ?case
  proof (cases cb)
    case (User_callback n)
    with Suc.prems have "n \<le> depth"
      by (simp add: rank_below_def)
    then have "spawned user (Suc depth) (tj_cb job) = spawned user depth (tj_cb job)"
      if "job \<in> set (jobs_of (user n))" for job
      using ranked_jobs [OF assms that] Suc.IH by blast
    then have "map (\<lambda>job. Suc (spawned user (Suc depth) (tj_cb job))) (jobs_of (user n)) =
        map (\<lambda>job. Suc (spawned user depth (tj_cb job))) (jobs_of (user n))"
      by (intro map_cong refl) simp
    with User_callback show ?thesis
      by (simp only: spawned.simps after_sent.case)
  qed simp_all
qed

lemma spawned_callback:
  assumes "ranked user" and "n < depth"
  shows "spawned user depth (User_callback n) = weight user depth (jobs_of (user n))"
proof -
  have "spawned user (Suc depth) (User_callback n) = spawned user depth (User_callback n)"
    using assms by (intro spawned_stable) (simp_all add: rank_below_def)
  then show ?thesis
    by (simp add: weight_def)
qed

lemma acts_calling_queued:
  "cn_jobs (qs_conn s) \<noteq> [] \<Longrightarrow> \<exists>s'. acts_calling grow run acts s = Inr s' \<and>
     cn_jobs (qs_conn s') = cn_jobs (qs_conn s) @ jobs_of acts \<and>
     (length (cn_jobs (qs_conn s)) + length (jobs_of acts) \<le> qs_capacity s \<longrightarrow>
        qs_moved s' = qs_moved s \<and> qs_capacity s' = qs_capacity s) \<and>
     qs_moved s \<le> qs_moved s' \<and>
     (length (cn_jobs (qs_conn s)) = qs_capacity s \<longrightarrow> jobs_of acts \<noteq> [] \<longrightarrow> qs_moved s < qs_moved s')"
proof (induction acts arbitrary: s)
  case (Cons act acts)
  obtain s1 where s1: "act_calling grow run act s = Inr s1"
    "cn_jobs (qs_conn s1) = cn_jobs (qs_conn s) @ jobs_of [act]"
    "length (cn_jobs (qs_conn s)) + length (jobs_of [act]) \<le> qs_capacity s \<longrightarrow>
       qs_moved s1 = qs_moved s \<and> qs_capacity s1 = qs_capacity s"
    "jobs_of [act] = [] \<longrightarrow> qs_moved s1 = qs_moved s \<and> qs_capacity s1 = qs_capacity s"
    "qs_moved s \<le> qs_moved s1"
    "length (cn_jobs (qs_conn s)) = qs_capacity s \<longrightarrow> jobs_of [act] \<noteq> [] \<longrightarrow> qs_moved s < qs_moved s1"
    using Cons.prems
    by (cases act) (auto simp: write_calling_def queue_job_def modFD_def close_conn_def Let_def)
  from Cons.IH [of s1] s1(2) Cons.prems obtain s' where s': "acts_calling grow run acts s1 = Inr s'"
    "cn_jobs (qs_conn s') = cn_jobs (qs_conn s1) @ jobs_of acts"
    "length (cn_jobs (qs_conn s1)) + length (jobs_of acts) \<le> qs_capacity s1 \<longrightarrow>
       qs_moved s' = qs_moved s1 \<and> qs_capacity s' = qs_capacity s1"
    "qs_moved s1 \<le> qs_moved s'"
    "length (cn_jobs (qs_conn s1)) = qs_capacity s1 \<longrightarrow> jobs_of acts \<noteq> [] \<longrightarrow> qs_moved s1 < qs_moved s'"
    by auto
  have split: "jobs_of (act # acts) = jobs_of [act] @ jobs_of acts"
    by (cases act) simp_all
  show ?case
    using s1 s' by (cases "jobs_of [act] = []") (auto simp: split simp del: jobs_of.simps)
qed simp


lemma flush_job_jobs: "flush_job job c = (sent, job', c') \<Longrightarrow> tj_cb job' = tj_cb job"
  by (auto simp: flush_job_def Let_def split: prod.splits if_splits)

lemma user_callback_queued:
  assumes "ranked user" and "rank_below depth cb" and "cn_jobs (qs_conn s) \<noteq> []"
  shows "\<exists>s' jobs. user_callback (run_user grow user depth) cb s = Inr s' \<and>
    cn_jobs (qs_conn s') = cn_jobs (qs_conn s) @ jobs \<and> (\<forall>job \<in> set jobs. rank_below depth (tj_cb job)) \<and>
    weight user depth jobs = spawned user depth cb \<and>
    (length (cn_jobs (qs_conn s)) + length jobs \<le> qs_capacity s \<longrightarrow>
       qs_moved s' = qs_moved s \<and> qs_capacity s' = qs_capacity s)"
proof (cases "\<exists>n. cb = User_callback n")
  case True
  then obtain n where n: "cb = User_callback n" "n < depth"
    using assms(2) by (auto simp: rank_below_def)
  then obtain depth' where depth: "depth = Suc depth'"
    by (cases depth) simp_all
  from acts_calling_queued [OF assms(3), of grow "run_user grow user depth'" "user n"] n
    spawned_callback [OF assms(1) n(2)] ranked_jobs [OF assms(1), of _ n depth]
  show ?thesis
    by (auto simp: user_callback_def depth)
next
  case False
  moreover from False have "spawned user depth cb = 0"
    by (cases depth) (auto split: after_sent.split)
  ultimately show ?thesis
    by (intro exI [of _ s] exI [of _ "[]"]) (auto simp: user_callback_def split: after_sent.split)
qed

lemma flush_calling_returns:
  assumes "ranked user"
  shows "\<forall>job \<in> set (cn_jobs (qs_conn s)). rank_below depth (tj_cb job) \<Longrightarrow>
    weight user depth (cn_jobs (qs_conn s)) < fuel \<Longrightarrow>
    (\<exists>s'. flush_calling (run_user grow user depth) fuel s = Inr s') \<or>
    flush_calling (run_user grow user depth) fuel s = Inl dangling_job \<and>
      qs_capacity s < weight user depth (cn_jobs (qs_conn s))"
proof (induction fuel arbitrary: s)
  case (Suc fuel)
  let ?run = "run_user grow user depth"
  show ?case
  proof (cases "cn_jobs (qs_conn s)")
    case (Cons job jobs)
    obtain sent job' c where flush: "flush_job job (qs_conn s) = (sent, job', c)"
      by (metis prod_cases3)
    let ?s = "s\<lparr>qs_conn := c\<lparr>cn_jobs := job' # jobs\<rparr>\<rparr>"
    show ?thesis
    proof (cases sent)
      case False
      with Cons flush show ?thesis
        by (simp add: Let_def)
    next
      case True
      have cb: "tj_cb job' = tj_cb job" "rank_below depth (tj_cb job)"
        using flush_job_jobs [OF flush] Suc.prems(1) Cons by simp_all
      from user_callback_queued [OF assms cb(2), of ?s grow] obtain s1 new where
        s1: "user_callback ?run (tj_cb job) ?s = Inr s1" "cn_jobs (qs_conn s1) = job' # jobs @ new"
        "\<forall>job \<in> set new. rank_below depth (tj_cb job)" "weight user depth new = spawned user depth (tj_cb job)"
        "length (job # jobs) + length new \<le> qs_capacity s \<longrightarrow> qs_moved s1 = qs_moved s \<and> qs_capacity s1 = qs_capacity s"
        by auto
      let ?next = "s1\<lparr>qs_conn := (qs_conn s1)\<lparr>
          cn_out_size := cn_out_size (qs_conn s1) - (remaining job - remaining job'), cn_jobs := jobs @ new\<rparr>\<rparr>"
      have step: "flush_calling ?run (Suc fuel) s =
          (if qs_moved s1 \<noteq> qs_moved s then Inl dangling_job else flush_calling ?run fuel ?next)"
        using Cons flush True cb s1 by (simp add: Let_def)
      have smaller: "weight user depth (cn_jobs (qs_conn s)) = Suc (weight user depth (cn_jobs (qs_conn ?next)))"
        using Cons s1 by simp
      have below: "\<forall>job \<in> set (cn_jobs (qs_conn ?next)). rank_below depth (tj_cb job)"
        using Suc.prems(1) Cons s1(3) by auto
      note rest = Suc.IH [of ?next, OF below]
      show ?thesis
      proof (cases "weight user depth (cn_jobs (qs_conn s)) \<le> qs_capacity s")
        case room: True
        have "length (job # jobs) + length new \<le> weight user depth (cn_jobs (qs_conn s))"
          using length_le_weight [of jobs user depth] length_le_weight [of new user depth] Cons s1(4) by simp
        with s1(5) room have "qs_moved s1 = qs_moved s" "qs_capacity s1 = qs_capacity s"
          by (meson order_trans)+
        with step rest smaller Suc.prems(2) room show ?thesis
          by auto
      next
        case False
        with step rest smaller Suc.prems(2) show ?thesis
          by (auto split: if_splits)
      qed
    qed
  qed simp
qed simp

lemma run_user_returns:
  assumes "ranked user"
  shows "n < depth \<Longrightarrow> \<exists>s'. run_user grow user depth n (s :: 'p queue_state) = Inr s'"
proof (induction depth arbitrary: n s)
  case (Suc depth)
  have callbacks: "\<exists>s'. user_callback (run_user grow user depth) cb s = Inr s'" if "rank_below depth cb"
    for cb and s :: "'p queue_state"
    using that Suc.IH by (auto simp: user_callback_def rank_below_def split: after_sent.split)
  have "\<exists>s'. acts_calling grow (run_user grow user depth) acts s = Inr s'"
    if "\<forall>job \<in> set (jobs_of acts). rank_below depth (tj_cb job)" for acts and s :: "'p queue_state"
    using that
  proof (induction acts arbitrary: s)
    case (Cons act acts)
    have "\<exists>s'. act_calling grow (run_user grow user depth) act s = Inr s'"
      using Cons.prems callbacks
      by (cases act) (auto simp: write_calling_def Let_def split: prod.split)
    moreover have "\<forall>job \<in> set (jobs_of acts). rank_below depth (tj_cb job)"
      using Cons.prems by (cases act) auto
    ultimately show ?case
      using Cons.IH by fastforce
  qed simp
  moreover have "\<forall>job \<in> set (jobs_of (user n)). rank_below depth (tj_cb job)"
    using ranked_jobs [OF assms] Suc.prems by (meson less_Suc_eq_le)
  ultimately show ?case
    by simp
qed simp


lemma write_calling_returns:
  assumes "ranked user" and "rank_below depth cb"
  shows "\<exists>s'. write_calling grow (run_user grow user depth) bs cb s = Inr s'"
proof -
  have "\<exists>s'. user_callback (run_user grow user depth) cb s = Inr s'" for s
    using assms(2) run_user_returns [OF assms(1)]
    by (auto simp: user_callback_def rank_below_def split: after_sent.split)
  then show ?thesis
    by (auto simp: write_calling_def Let_def split: prod.split)
qed

section \<open>Callbacks that leave the connection alone\<close>

text \<open>Without calls the operations are those of \<^verbatim>\<open>Connection\<close>, where a callback is only recorded.\<close>

lemma flush_job_jobs_frame:
  "flush_job job (c\<lparr>cn_jobs := jobs\<rparr>) =
     (let (sent, job', c') = flush_job job c in (sent, job', c'\<lparr>cn_jobs := jobs\<rparr>))"
  by (auto simp: flush_job_def run_callback_def close_conn_def Let_def split: prod.split)

lemma flush_jobs_frame:
  "(let (js, c) = flush_jobs jobs (c\<lparr>cn_jobs := x\<rparr>) in c\<lparr>cn_jobs := js\<rparr>) =
   (let (js, c) = flush_jobs jobs c in c\<lparr>cn_jobs := js\<rparr>)"
proof (induction jobs arbitrary: c)
  case (Cons job jobs)
  obtain sent job' c' where flush: "flush_job job c = (sent, job', c')"
    by (metis prod_cases3)
  with Cons.IH [of "c'\<lparr>cn_out_size := cn_out_size c' - (remaining job - remaining job')\<rparr>"] show ?case
    by (cases c') (simp add: flush_job_jobs_frame Let_def)
qed simp

lemma user_callback_silent [simp]: "user_callback (\<lambda>n s. Inr s) cb s = Inr s"
  by (simp add: user_callback_def split: after_sent.split)

lemma flush_calling_silent:
  "length (cn_jobs (qs_conn s)) < fuel \<Longrightarrow>
   \<exists>s'. flush_calling (\<lambda>n s. Inr s) fuel s = Inr s' \<and>
     qs_conn s' = (let (jobs, c) = flush_jobs (cn_jobs (qs_conn s)) (qs_conn s) in c\<lparr>cn_jobs := jobs\<rparr>)"
proof (induction fuel arbitrary: s)
  case (Suc fuel)
  show ?case
  proof (cases "cn_jobs (qs_conn s)")
    case (Cons job jobs)
    obtain sent job' c where flush: "flush_job job (qs_conn s) = (sent, job', c)"
      by (metis prod_cases3)
    let ?c = "c\<lparr>cn_out_size := cn_out_size c - (remaining job - remaining job')\<rparr>"
    let ?next = "s\<lparr>qs_conn := ?c\<lparr>cn_jobs := jobs\<rparr>\<rparr>"
    from Suc.IH [of ?next] Suc.prems Cons flush_jobs_frame [of jobs jobs ?c] flush show ?thesis
      by (cases sent) (auto simp: Let_def)
  qed simp
qed simp

lemma calling_step_silent:
  assumes "length (cn_jobs (qs_conn s)) < fuel"
  shows "\<exists>s'. calling_step grow (\<lambda>n s. Inr s) fuel e s = Inr s' \<and> qs_conn s' = output_step ph e (qs_conn s)"
proof (cases e)
  case (Acts acts)
  have "\<exists>s'. acts_calling grow (\<lambda>n s. Inr s) acts s = Inr s' \<and> qs_conn s' = run_actions acts (qs_conn s)" for s
  proof (induction acts arbitrary: s)
    case (Cons act acts)
    have "\<exists>s'. act_calling grow (\<lambda>n s. Inr s) act s = Inr s' \<and> qs_conn s' = run_action act (qs_conn s)"
      by (cases act) (auto simp: write_calling_def write_conn_def Let_def split: prod.split)
    with Cons.IH show ?case
      by (fastforce simp: run_actions_def)
  qed (simp add: run_actions_def)
  with Acts show ?thesis
    by simp
next
  case Writable
  from flush_calling_silent [of "s\<lparr>qs_conn := (qs_conn s)\<lparr>cn_armed := None\<rparr>\<rparr>" fuel] assms Writable show ?thesis
    by (auto simp: writable_calling_def on_event_writable on_writable_def Let_def close_conn_def
        split: prod.splits)
qed simp

section \<open>Properties\<close>

text \<open>
  C16. Completion callbacks may write to their own connection. Whatever they write, however the
  kernel splits the sending and however often the loop runs: when the run is defined and \<^verbatim>\<open>send\<close>
  meets no error, the bytes of all calls, the application's and the callbacks', reach the peer in
  the order of the calls, and the callbacks run once each in this order.
\<close>

theorem callbacks_in_order:
  assumes "\<forall>n. small_writes (user n)" and "\<forall>e \<in> set es. event_fits e"
    and "calling_run grow (run_user grow user depth) fuel es (accepted_queue p) = Inr s"
  shows "prefix (cn_wire (qs_conn s)) (written_by (qs_calls s)) \<and>
    prefix (cn_called (qs_conn s)) (callbacks_of (qs_calls s)) \<and>
    (cn_open (qs_conn s) \<and> cn_jobs (qs_conn s) = [] \<longrightarrow>
      cn_wire (qs_conn s) = written_by (qs_calls s) \<and> cn_called (qs_conn s) = callbacks_of (qs_calls s))"
proof -
  have "calls_ok [] 0 (accepted_queue p)"
    by (simp add: calls_ok_Nil accepted_queue_def queue_ok_accepted)
  from calling_run_keeps [OF run_user_keeps assms(2) this assms(3)] assms(1)
  have "queue_ok (written_by (qs_calls s)) (callbacks_of (qs_calls s)) (qs_conn s)"
    by (simp add: calls_ok_Nil)
  from chan.ok_received [OF this] chan.ok_drained [OF this] show ?thesis
    by (auto simp: drained_def)
qed


text \<open>A callback that writes one more byte, once.\<close>

definition example_user :: "nat \<Rightarrow> conn_action list" where
  "example_user n = (if n = 0 then [Write [9] No_callback] else [])"

lemma ranked_example: "ranked example_user"
  by (simp add: ranked_def example_user_def)

lemma flush_one:
  "cn_open c \<Longrightarrow> cn_sends c = Room (Suc n) # answers \<Longrightarrow>
   flush_job \<lparr>tj_buf = [b], tj_sent = 0, tj_cb = cb\<rparr> c =
     (True, \<lparr>tj_buf = [b], tj_sent = 1, tj_cb = cb\<rparr>,
      run_callback cb (c\<lparr>cn_sends := answers, cn_wire := cn_wire c @ [b]\<rparr>))"
  by (simp add: flush_job_def flush_loop.simps [of True "[b]" 0] flush_loop.simps [of True "[b]" 1]
      size_of_def send_call_def to_int32_def Let_def)

lemmas calling_defs = write_calling_def user_callback_def queue_job_def flush_job_def run_callback_def
  writable_calling_def rearm_def modFD_def accepted_def send_call_def to_int32_def size_of_def remaining_def Let_def

text \<open>A connection with one waiting job, in a vector that has room for just this one.\<close>

definition example_waiting :: "unit queue_state" where
  "example_waiting = \<lparr>qs_conn = (idle_conn [7] [Room 5] (Some ()))\<lparr>cn_jobs :=
       [\<lparr>tj_buf = [7], tj_sent = 0, tj_cb = User_callback 0\<rparr>]\<rparr>,
     qs_capacity = 1, qs_moved = 0, qs_calls = [Write [7] (User_callback 0)]\<rparr>"

theorem callbacks_in_order_witness:
  "\<exists>s. calling_run Suc (run_user Suc example_user 1) 5
      [More_room [Room 5, Room 5, Room 5], Acts [Write [7] (User_callback 0), Write [8] No_callback]] (accepted_queue ()) = Inr s \<and>
    prefix (cn_wire (qs_conn s)) (written_by (qs_calls s)) \<and>
    qs_calls s = [Write [7] (User_callback 0), Write [9] No_callback, Write [8] No_callback]"
proof -
  let ?es = "[More_room [Room 5, Room 5, Room 5], Acts [Write [7] (User_callback 0), Write [8] No_callback]]"
  obtain s where s: "calling_run Suc (run_user Suc example_user 1) 5 ?es (accepted_queue ()) = Inr s"
    "qs_calls s = [Write [7] (User_callback 0), Write [9] No_callback, Write [8] No_callback]"
    by (simp add: accepted_queue_def accepted_def example_user_def write_calling_def flush_one user_callback_def
        run_callback_def numeral_eq_Suc)
  have "\<forall>n. small_writes (example_user n)" "\<forall>e \<in> set ?es. event_fits e"
    by (simp_all add: example_user_def)
  from callbacks_in_order [OF this s(1)] s show ?thesis
    by blast
qed

text \<open>
  C33. Callbacks cannot keep the loop: when no callback passes itself on, \<^verbatim>\<open>write\<close> returns, and the
  loop over the queue ends after as many turns as there are jobs, those added by callbacks included.
  It is undefined only when the vector is too small for all of them.
\<close>

theorem callbacks_end:
  assumes "ranked user" and "\<forall>job \<in> set (cn_jobs (qs_conn s)). rank_below depth (tj_cb job)"
    and "rank_below depth cb" and "weight user depth (cn_jobs (qs_conn s)) < fuel"
  shows "(\<exists>s'. write_calling grow (run_user grow user depth) bs cb s = Inr s') \<and>
    (case writable_calling (run_user grow user depth) fuel s of
       Inl e \<Rightarrow> e = dangling_job \<and> qs_capacity s < weight user depth (cn_jobs (qs_conn s))
     | Inr s' \<Rightarrow> True)"
  using write_calling_returns [OF assms(1,3), of grow bs s] flush_calling_returns [OF assms(1,2,4), of grow]
  by (auto simp: writable_calling_def)

theorem callbacks_end_witness:
  "\<exists>s'. write_calling Suc (run_user Suc example_user 1) [7] (User_callback 0) (accepted_queue ()) = Inr s'"
  using callbacks_end [OF ranked_example, of "accepted_queue ()" 1 "User_callback 0" 1 Suc "[7]"]
  by (simp add: rank_below_def accepted_queue_def accepted_def)

text \<open>
  C17. A callback that writes from the loop over the queue is undefined behaviour when the vector of
  jobs is full: its own job is still in the vector, so the new job makes the vector move, and the
  loop goes on with an iterator into the storage it had before. A single waiting job is enough,
  since the vector then has room for one.
\<close>

theorem callback_moves_queue:
  assumes "cn_open (qs_conn s)" and "cn_jobs (qs_conn s) = job # jobs"
    and "qs_capacity s = length (job # jobs)" and "job_ok job"
    and "has_room (cn_sends (qs_conn s)) (length (unsent job))"
    and "tj_cb job = User_callback n" and "jobs_of (user n) \<noteq> []"
  shows "writable_calling (run_user grow user (Suc depth)) (Suc fuel) s = Inl dangling_job"
proof -
  obtain sent job' c where flush: "flush_job job (qs_conn s) = (sent, job', c)"
    by (metis prod_cases3)
  with assms flush_job_room [OF flush assms(1,4), of 0] have sent: sent
    by simp
  have cb: "tj_cb job' = User_callback n"
    using flush_job_jobs [OF flush] assms(6) by simp
  let ?s = "s\<lparr>qs_conn := c\<lparr>cn_jobs := job' # jobs\<rparr>\<rparr>"
  from acts_calling_queued [of ?s grow "run_user grow user depth" "user n"] assms(3,7)
  obtain s1 where "acts_calling grow (run_user grow user depth) (user n) ?s = Inr s1" "qs_moved s < qs_moved s1"
    by auto
  with assms(2) flush sent cb show ?thesis
    by (simp add: writable_calling_def user_callback_def Let_def)
qed

theorem callback_moves_queue_witness:
  "writable_calling (run_user Suc example_user (Suc 0)) (Suc 0) example_waiting = Inl dangling_job"
  by (rule callback_moves_queue [of _ "\<lparr>tj_buf = [7], tj_sent = 0, tj_cb = User_callback 0\<rparr>" "[]" 0])
    (simp_all add: example_waiting_def idle_conn_def accepted_def job_ok_def unsent_def has_room_def example_user_def)

end
