(* ===== verification/Handles.thy ===== *)
theory Handles
  imports Connection "HOL-Library.Multiset"
begin

text \<open>
  The owners of the library: unique_function.h, the move operations of ConnectionHandler.cpp, and
  those of the server and the dispatcher, which all hold a \<^verbatim>\<open>std::unique_ptr\<close>.
\<close>

section \<open>unique_func\<close>

text \<open>
  A \<^verbatim>\<open>unique_func\<close> holds a callable or nothing. A callable is a functor, or a \<^verbatim>\<open>unique_func\<close> of
  another type that the template constructor took as one.
\<close>

datatype 'f callable = Functor 'f | Nested "'f callable option"

type_synonym 'f unique_func = "'f callable option"

definition make_func :: "'f callable \<Rightarrow> 'f unique_func" where
  "make_func functor = Some functor"

definition empty_func :: "'f unique_func" where
  "empty_func = None"

definition holds_func :: "'f unique_func \<Rightarrow> bool" where
  "holds_func u \<longleftrightarrow> u \<noteq> None"

definition empty_call :: fault where
  "empty_call = Undefined ''call of an empty unique_func''"

text \<open>\<^verbatim>\<open>invoke\<close>: what a functor does to the state is a parameter; its exception is passed on.\<close>

fun invoke_callable :: "('f \<Rightarrow> 's \<Rightarrow> 's \<times> 'r result) \<Rightarrow> 'f callable \<Rightarrow> 's \<Rightarrow> 's \<times> 'r result" where
  "invoke_callable run (Functor f) s = run f s"
| "invoke_callable run (Nested None) s = (s, Inl empty_call)"
| "invoke_callable run (Nested (Some c)) s = invoke_callable run c s"

definition call_func :: "('f \<Rightarrow> 's \<Rightarrow> 's \<times> 'r result) \<Rightarrow> 'f unique_func \<Rightarrow> 's \<Rightarrow> 's \<times> 'r result" where
  "call_func run u s = (case u of None \<Rightarrow> (s, Inl empty_call) | Some c \<Rightarrow> invoke_callable run c s)"

text \<open>
  Variables of the type, by number (\<open>None\<close>: the variable does not exist), and the callables whose
  destructor has run.
\<close>

record 'f func_vars =
  fv_vars :: "'f unique_func option list"
  fv_destroyed :: "'f callable list"

definition held :: "'f unique_func option \<Rightarrow> 'f callable list" where
  "held v = (case v of Some (Some c) \<Rightarrow> [c] | _ \<Rightarrow> [])"

datatype 'f func_op = Declare "'f unique_func" | Move_new nat | Move_assign nat nat | Leave nat

text \<open>
  A declaration with a functor or none, one initialised by moving from a variable, an assignment
  that moves, the end of a variable's life. The assignment releases the source, then destroys what
  the target held; a variable moved to itself keeps what it holds.
\<close>

fun func_step :: "'f func_op \<Rightarrow> 'f func_vars \<Rightarrow> 'f func_vars" where
  "func_step (Declare u) s = s\<lparr>fv_vars := fv_vars s @ [Some u]\<rparr>"
| "func_step (Move_new w) s =
     (if w < length (fv_vars s) \<and> fv_vars s ! w \<noteq> None
      then s\<lparr>fv_vars := (fv_vars s)[w := Some None] @ [fv_vars s ! w]\<rparr> else s)"
| "func_step (Move_assign v w) s =
     (if v < length (fv_vars s) \<and> w < length (fv_vars s) \<and> v \<noteq> w \<and> fv_vars s ! v \<noteq> None \<and> fv_vars s ! w \<noteq> None
      then s\<lparr>fv_vars := (fv_vars s)[w := Some None, v := fv_vars s ! w],
             fv_destroyed := fv_destroyed s @ held (fv_vars s ! v)\<rparr> else s)"
| "func_step (Leave v) s =
     (if v < length (fv_vars s)
      then s\<lparr>fv_vars := (fv_vars s)[v := None], fv_destroyed := fv_destroyed s @ held (fv_vars s ! v)\<rparr> else s)"

fun made_by :: "'f func_op \<Rightarrow> 'f callable list" where
  "made_by (Declare u) = held (Some u)"
| "made_by _ = []"

definition no_vars :: "'f func_vars" where
  "no_vars = \<lparr>fv_vars = [], fv_destroyed = []\<rparr>"

definition all_held :: "'f func_vars \<Rightarrow> 'f callable multiset" where
  "all_held s = mset (concat (map held (fv_vars s)))"

lemma held_update:
  "v < length vars \<Longrightarrow> mset (concat (map held (vars[v := x]))) + mset (held (vars ! v)) =
     mset (concat (map held vars)) + mset (held x)"
proof (induction vars arbitrary: v)
  case (Cons y vars)
  then show ?case
    by (cases v) (auto simp: ac_simps)
qed simp

lemma held_simps [simp]: "held None = []" "held (Some None) = []" "held (Some (Some c)) = [c]"
  by (simp_all add: held_def)

lemma func_step_owned:
  "all_held (func_step op s) + mset (fv_destroyed (func_step op s)) =
     all_held s + mset (fv_destroyed s) + mset (made_by op)"
proof (cases op)
  case (Move_new w)
  with held_update [of w "fv_vars s" "Some None"] show ?thesis
    by (auto simp: all_held_def)
next
  case (Move_assign v w)
  show ?thesis
  proof (cases "v < length (fv_vars s) \<and> w < length (fv_vars s) \<and> v \<noteq> w \<and> fv_vars s ! v \<noteq> None \<and> fv_vars s ! w \<noteq> None")
    case True
    with held_update [of w "fv_vars s" "Some None"]
      held_update [of v "(fv_vars s)[w := Some None]" "fv_vars s ! w"] Move_assign show ?thesis
      by (auto simp: all_held_def ac_simps)
  qed (use Move_assign in auto)
next
  case (Leave v)
  with held_update [of v "fv_vars s" None] show ?thesis
    by (auto simp: all_held_def ac_simps)
qed (simp_all add: all_held_def)


lemma func_run_owned:
  "all_held (fold func_step ops s) + mset (fv_destroyed (fold func_step ops s)) =
     all_held s + mset (fv_destroyed s) + mset (concat (map made_by ops))"
  by (induction ops arbitrary: s) (simp_all add: func_step_owned ac_simps)

section \<open>Connection handlers\<close>

text \<open>
  A \<^verbatim>\<open>ConnectionHandler\<close> owns its state; the protocol in it points back to the object it writes
  to. Objects live at addresses; \<open>Some None\<close> is one that was moved from.
\<close>

record 'p pimpl =
  pm_conn :: "'p conn"
  pm_back :: nat

type_synonym 'p objects = "nat \<Rightarrow> 'p pimpl option option"

definition null_pimpl :: fault where
  "null_pimpl = Undefined ''pimpl of a connection handler that was moved from''"

definition dead_object :: fault where
  "dead_object = Undefined ''connection handler that does not live''"

definition construct_handler :: "nat \<Rightarrow> 'p \<Rightarrow> 'p objects \<Rightarrow> 'p objects" where
  "construct_handler a p objs = objs(a \<mapsto> Some \<lparr>pm_conn = accepted p, pm_back = a\<rparr>)"

text \<open>\<^verbatim>\<open>if (pimpl->protocol) pimpl->protocol->setConnectionHandler(this)\<close>\<close>

definition point_back :: "nat \<Rightarrow> 'p objects \<Rightarrow> 'p objects result" where
  "point_back a objs =
     (case objs a of
        Some (Some im) \<Rightarrow>
          Inr (if cn_protocol (pm_conn im) \<noteq> None then objs(a \<mapsto> Some (im\<lparr>pm_back := a\<rparr>)) else objs)
      | _ \<Rightarrow> Inl null_pimpl)"

definition move_handler :: "nat \<Rightarrow> nat \<Rightarrow> 'p objects \<Rightarrow> 'p objects result" where
  "move_handler a rhs objs =
     (case objs rhs of
        None \<Rightarrow> Inl dead_object
      | Some pm \<Rightarrow> point_back a (objs(rhs \<mapsto> None, a \<mapsto> pm)))"

definition assign_handler :: "nat \<Rightarrow> nat \<Rightarrow> 'p objects \<Rightarrow> 'p objects result" where
  "assign_handler a rhs objs =
     (case (objs a, objs rhs) of
        (Some pm, Some pm') \<Rightarrow> point_back a (objs(a \<mapsto> pm', rhs \<mapsto> pm))
      | _ \<Rightarrow> Inl dead_object)"

definition destroy_handler :: "nat \<Rightarrow> 'p objects \<Rightarrow> 'p objects" where
  "destroy_handler a objs = objs(a := None)"

text \<open>The members hand the call to the state they own.\<close>

definition with_pimpl :: "nat \<Rightarrow> ('p conn \<Rightarrow> 'p conn) \<Rightarrow> 'p objects \<Rightarrow> 'p objects result" where
  "with_pimpl a f objs =
     (case objs a of
        None \<Rightarrow> Inl dead_object
      | Some None \<Rightarrow> Inl null_pimpl
      | Some (Some im) \<Rightarrow> Inr (objs(a \<mapsto> Some (im\<lparr>pm_conn := f (pm_conn im)\<rparr>))))"

definition handler_write :: "nat \<Rightarrow> bytes \<Rightarrow> after_sent \<Rightarrow> 'p objects \<Rightarrow> 'p objects result" where
  "handler_write a out_buf cb = with_pimpl a (write_conn out_buf cb)"

definition handler_close :: "nat \<Rightarrow> 'p objects \<Rightarrow> 'p objects result" where
  "handler_close a = with_pimpl a close_conn"

definition handler_action :: "nat \<Rightarrow> conn_action \<Rightarrow> 'p objects \<Rightarrow> 'p objects result" where
  "handler_action a act objs =
     (case act of Write out_buf cb \<Rightarrow> handler_write a out_buf cb objs | Close \<Rightarrow> handler_close a objs)"

text \<open>The calls that the protocol of the object \<open>a\<close> makes go where it points.\<close>

fun protocol_acts :: "nat \<Rightarrow> conn_action list \<Rightarrow> 'p objects \<Rightarrow> 'p objects result" where
  "protocol_acts a [] objs = Inr objs"
| "protocol_acts a (act # acts) objs =
     (case objs a of
        Some (Some im) \<Rightarrow> rbind (handler_action (pm_back im) act objs) (protocol_acts a acts)
      | _ \<Rightarrow> Inl dead_object)"

datatype 'p object_op = Construct_at nat 'p | Move_to nat nat | Destroy_at nat

fun object_step :: "'p object_op \<Rightarrow> 'p objects \<Rightarrow> 'p objects result" where
  "object_step (Construct_at a p) objs = Inr (construct_handler a p objs)"
| "object_step (Move_to a rhs) objs = move_handler a rhs objs"
| "object_step (Destroy_at a) objs = Inr (destroy_handler a objs)"

fun object_run :: "'p object_op list \<Rightarrow> 'p objects \<Rightarrow> 'p objects result" where
  "object_run [] objs = Inr objs"
| "object_run (op # ops) objs = rbind (object_step op objs) (object_run ops)"

definition points_home :: "'p objects \<Rightarrow> bool" where
  "points_home objs \<longleftrightarrow> (\<forall>a im. objs a = Some (Some im) \<and> cn_protocol (pm_conn im) \<noteq> None \<longrightarrow> pm_back im = a)"

lemma points_home_step:
  "points_home objs \<Longrightarrow> object_step op objs = Inr objs' \<Longrightarrow> points_home objs'"
  by (cases op)
    (auto simp: points_home_def construct_handler_def destroy_handler_def move_handler_def point_back_def
      split: option.splits if_splits)

lemma points_home_run: "points_home objs \<Longrightarrow> object_run ops objs = Inr objs' \<Longrightarrow> points_home objs'"
proof (induction ops arbitrary: objs)
  case (Cons op ops)
  then show ?case
    using points_home_step by (fastforce simp: result_simps)
qed simp

lemma protocol_acts_target:
  "objs a = Some (Some im) \<Longrightarrow> pm_back im = b \<Longrightarrow> objs b = Some (Some target) \<Longrightarrow>
   protocol_acts a acts objs = Inr (objs(b \<mapsto> Some (target\<lparr>pm_conn := run_actions acts (pm_conn target)\<rparr>)))"
proof (induction acts arbitrary: objs im target)
  case Nil
  then show ?case
    by (simp add: run_actions_def fun_upd_idem)
next
  case (Cons act acts)
  let ?target = "target\<lparr>pm_conn := run_action act (pm_conn target)\<rparr>"
  let ?objs = "objs(b \<mapsto> Some ?target)"
  have act: "handler_action b act objs = Inr ?objs"
    using Cons.prems by (cases act) (simp_all add: handler_action_def handler_write_def handler_close_def with_pimpl_def)
  obtain im' where im': "?objs a = Some (Some im')" "pm_back im' = b"
    using Cons.prems by (cases "a = b") auto
  have "?objs b = Some (Some ?target)"
    by simp
  from Cons.IH [OF im' this] have
    "protocol_acts a acts ?objs = Inr (?objs(b \<mapsto> Some (?target\<lparr>pm_conn := run_actions acts (pm_conn ?target)\<rparr>)))" .
  also have "?objs(b \<mapsto> Some (?target\<lparr>pm_conn := run_actions acts (pm_conn ?target)\<rparr>)) =
      objs(b \<mapsto> Some (target\<lparr>pm_conn := run_actions (act # acts) (pm_conn target)\<rparr>))"
    by (simp add: run_actions_def)
  finally show ?case
    using Cons.prems act by (simp del: fun_upd_apply)
qed

section \<open>Server and dispatcher\<close>

text \<open>
  Both own their state by a pointer: the move constructor of the server takes it, that of the
  dispatcher exchanges an empty pointer for it, the assignments exchange the pointers.
\<close>

type_synonym 's handle = "'s option"

definition server_move :: "'s handle \<Rightarrow> 's handle \<times> 's handle" where
  "server_move rhs = (rhs, None)"

definition server_assign :: "'s handle \<Rightarrow> 's handle \<Rightarrow> 's handle \<times> 's handle" where
  "server_assign this rhs = (rhs, this)"

definition dispatcher_assign :: "'s handle \<Rightarrow> 's handle \<Rightarrow> 's handle \<times> 's handle" where
  "dispatcher_assign this rhs = (rhs, this)"

definition dispatcher_move :: "'s handle \<Rightarrow> 's handle \<times> 's handle" where
  "dispatcher_move rhs = dispatcher_assign None rhs"

text \<open>The accessors go through the pointer.\<close>

definition server_state :: "'s handle \<Rightarrow> 's result" where
  "server_state h = (case h of None \<Rightarrow> Inl (Undefined ''pimpl of a server that was moved from'') | Some s \<Rightarrow> Inr s)"

lemma server_moved:
  "server_move h = (a, b) \<Longrightarrow> server_state a = server_state h \<and> (\<exists>ub. server_state b = Inl (Undefined ub))"
  by (auto simp: server_move_def server_state_def)

lemma dispatcher_moved: "dispatcher_move h = (h, None)"
  by (simp add: dispatcher_move_def dispatcher_assign_def)

section \<open>Properties\<close>

text \<open>
  A callable has one owner: whatever variables are declared, moved, assigned and left, each
  functor that was made is held by exactly one variable or has been destroyed exactly once.
\<close>

lemma functors_owned:
  assumes "distinct (concat (map made_by ops))" and "s = fold func_step ops no_vars"
  shows "distinct (concat (map held (fv_vars s)) @ fv_destroyed s) \<and>
    set (concat (map held (fv_vars s)) @ fv_destroyed s) = set (concat (map made_by ops))"
proof -
  have "mset (concat (map held (fv_vars s)) @ fv_destroyed s) = mset (concat (map made_by ops))"
    using func_run_owned [of ops no_vars] by (simp add: assms(2) all_held_def no_vars_def)
  with assms(1) show ?thesis
    by (metis mset_eq_imp_distinct_iff set_mset_mset)
qed

text \<open>
  C38. Moving a connection handler keeps the protocol's way home: after any construction, moving and
  destruction of the objects, the calls that a protocol makes reach the connection it belongs to and
  no other.
\<close>

theorem protocol_reaches_owner:
  assumes "object_run ops (\<lambda>a. None) = Inr objs" and "objs a = Some (Some im)" and "cn_protocol (pm_conn im) \<noteq> None"
  shows "protocol_acts a acts objs = Inr (objs(a \<mapsto> Some (im\<lparr>pm_conn := run_actions acts (pm_conn im)\<rparr>)))"
proof -
  have "points_home (\<lambda>a. None)"
    by (simp add: points_home_def)
  from points_home_run [OF this assms(1)] assms(2,3) have "pm_back im = a"
    unfolding points_home_def by blast
  from protocol_acts_target [of objs a im a im, OF assms(2) this assms(2)] show ?thesis .
qed

theorem protocol_reaches_owner_witness:
  "\<exists>objs. object_run [Construct_at 1 (), Move_to 2 1, Destroy_at 1, Construct_at 1 ()] (\<lambda>a. None) = Inr objs \<and>
    protocol_acts 2 [Close] objs =
      Inr (objs(2 \<mapsto> Some \<lparr>pm_conn = run_actions [Close] (accepted ()), pm_back = 2\<rparr>))"
proof -
  obtain objs where "object_run [Construct_at 1 (), Move_to 2 1, Destroy_at 1, Construct_at 1 ()] (\<lambda>a. None) = Inr objs"
    and "objs 2 = Some (Some \<lparr>pm_conn = accepted (), pm_back = 2\<rparr>)"
    by (simp add: construct_handler_def move_handler_def point_back_def destroy_handler_def accepted_def)
  with protocol_reaches_owner [OF this, of "[Close]"] show ?thesis
    by (simp add: accepted_def)
qed

text \<open>
  C39. Assignment does not: it exchanges the states of two connection handlers and points only the
  protocol of the target home. What the other protocol then writes goes to the connection that was
  assigned away, so the client of one connection gets the bytes meant for the other.
\<close>

theorem assigned_protocol_crosses:
  assumes "objs a = Some (Some im)" and "objs b = Some (Some im')" and "a \<noteq> b"
    and "pm_back im = a" and "cn_protocol (pm_conn im') \<noteq> None"
  shows "\<exists>objs'. assign_handler a b objs = Inr objs' \<and> objs' b = Some (Some im) \<and>
    protocol_acts b acts objs' =
      Inr (objs'(a \<mapsto> Some \<lparr>pm_conn = run_actions acts (pm_conn im'), pm_back = a\<rparr>))"
proof -
  let ?objs = "objs(a \<mapsto> Some (im'\<lparr>pm_back := a\<rparr>), b \<mapsto> Some im)"
  have "assign_handler a b objs = Inr ?objs"
    using assms by (auto simp: assign_handler_def point_back_def fun_upd_twist)
  moreover have "protocol_acts b acts ?objs =
      Inr (?objs(a \<mapsto> Some ((im'\<lparr>pm_back := a\<rparr>)\<lparr>pm_conn := run_actions acts (pm_conn im')\<rparr>)))"
    using assms protocol_acts_target [of ?objs b im a "im'\<lparr>pm_back := a\<rparr>" acts] by simp
  moreover have "(im'\<lparr>pm_back := a\<rparr>)\<lparr>pm_conn := run_actions acts (pm_conn im')\<rparr> =
      \<lparr>pm_conn = run_actions acts (pm_conn im'), pm_back = a\<rparr>"
    by (cases im') simp
  ultimately show ?thesis
    by auto
qed

theorem assigned_protocol_crosses_witness:
  "\<exists>objs'. assign_handler 1 2 (construct_handler 1 () (construct_handler 2 () (\<lambda>a. None))) = Inr objs' \<and>
    protocol_acts 2 [Close] objs' =
      Inr (objs'(1 \<mapsto> Some \<lparr>pm_conn = run_actions [Close] (accepted ()), pm_back = 1\<rparr>))"
  using assigned_protocol_crosses [of "construct_handler 1 () (construct_handler 2 () (\<lambda>a. None))" 1
      "\<lparr>pm_conn = accepted (), pm_back = 1\<rparr>" 2 "\<lparr>pm_conn = accepted (), pm_back = 2\<rparr>" "[Close]"]
  by (auto simp: construct_handler_def accepted_def)

end
