(* ===== verification/Globals.thy ===== *)
theory Globals
  imports Routing
begin

text \<open>
  Server.cpp, Route.cpp and WSRoute.cpp: the routes that register themselves with the global server.
  The server and its event loop are static objects of \<^verbatim>\<open>getGlobalServer\<close>, made on its first call. A
  program constructs global routes, statically or with a shorter life, and at its end destroys the
  static objects in the reverse order of the completion of their constructors.
\<close>

section \<open>State\<close>

datatype ('ws, 'h) server_life = Not_made | Running "('ws, 'h) dispatcher" | Destroyed

datatype static_object = Epoll_object | Server_object | Route_object nat | Ws_route_object nat

text \<open>The static objects, the one completed last first.\<close>

record ('ws, 'h) statics =
  st_server :: "('ws, 'h) server_life"
  st_epoll :: bool
  st_objects :: "static_object list"

definition before_main :: "('ws, 'h) statics" where
  "before_main = \<lparr>st_server = Not_made, st_epoll = False, st_objects = []\<rparr>"

section \<open>Registering\<close>

definition dead_server :: fault where
  "dead_server = Undefined ''global server used after its destruction''"

definition getGlobalServer :: "('ws, 'h) statics \<Rightarrow> (('ws, 'h) dispatcher \<times> ('ws, 'h) statics) result" where
  "getGlobalServer st =
     (case st_server st of
        Not_made \<Rightarrow>
          (let d = make_dispatcher None
           in Inr (d, st\<lparr>st_server := Running d, st_epoll := True,
                         st_objects := Server_object # Epoll_object # st_objects st\<rparr>))
      | Running d \<Rightarrow> Inr (d, st)
      | Destroyed \<Rightarrow> Inl dead_server)"

definition registerRouteGlobally :: "route \<Rightarrow> ('ws, 'h) statics \<Rightarrow> ('ws, 'h) statics result" where
  "registerRouteGlobally r st =
     rbind (getGlobalServer st) (\<lambda>(d, st). Inr (st\<lparr>st_server := Running (addRoute r d)\<rparr>))"

definition deregisterRouteGlobally :: "nat \<Rightarrow> ('ws, 'h) statics \<Rightarrow> ('ws, 'h) statics result" where
  "deregisterRouteGlobally a st =
     rbind (getGlobalServer st) (\<lambda>(d, st). rbind (removeRoute a d) (\<lambda>d. Inr (st\<lparr>st_server := Running d\<rparr>)))"

definition registerWSRouteGlobally :: "('ws, 'h) ws_route \<Rightarrow> ('ws, 'h) statics \<Rightarrow> ('ws, 'h) statics result" where
  "registerWSRouteGlobally r st =
     rbind (getGlobalServer st) (\<lambda>(d, st). Inr (st\<lparr>st_server := Running (addRouteWS r d)\<rparr>))"

definition deregisterWSRouteGlobally :: "nat \<Rightarrow> ('ws, 'h) statics \<Rightarrow> ('ws, 'h) statics result" where
  "deregisterWSRouteGlobally a st =
     rbind (getGlobalServer st) (\<lambda>(d, st). rbind (removeRouteWS a d) (\<lambda>d. Inr (st\<lparr>st_server := Running d\<rparr>)))"

section \<open>Constructors and destructors\<close>

text \<open>
  The constructor of \<^verbatim>\<open>GlobalRoute\<close>: what the constructor of \<^verbatim>\<open>Route\<close> made of the pattern and the
  function, or its exception; then the registration; then a static object is complete.
\<close>

definition GlobalRoute :: "bool \<Rightarrow> route result \<Rightarrow> ('ws, 'h) statics \<Rightarrow> ('ws, 'h) statics result" where
  "GlobalRoute is_static made st =
     rbind made (\<lambda>r. rbind (registerRouteGlobally r st)
       (\<lambda>st. Inr (if is_static then st\<lparr>st_objects := Route_object (rt_address r) # st_objects st\<rparr> else st)))"

definition GlobalWSRoute :: "bool \<Rightarrow> ('ws, 'h) ws_route \<Rightarrow> ('ws, 'h) statics \<Rightarrow> ('ws, 'h) statics result" where
  "GlobalWSRoute is_static r st =
     rbind (registerWSRouteGlobally r st)
       (\<lambda>st. Inr (if is_static then st\<lparr>st_objects := Ws_route_object (wr_address r) # st_objects st\<rparr> else st))"

datatype ('ws, 'h) global_event =
    New_route bool "route result"
  | New_ws_route bool "('ws, 'h) ws_route"
  | Delete_route nat
  | Delete_ws_route nat
  | Use_server

text \<open>What a program does before it ends; it catches the exception of a constructor, whose object
  then does not exist.\<close>

fun global_step :: "('ws, 'h) global_event \<Rightarrow> ('ws, 'h) statics \<Rightarrow> ('ws, 'h) statics result" where
  "global_step (New_route is_static made) st =
     (case made of Inl e \<Rightarrow> Inr st | Inr r \<Rightarrow> GlobalRoute is_static made st)"
| "global_step (New_ws_route is_static r) st = GlobalWSRoute is_static r st"
| "global_step (Delete_route a) st = deregisterRouteGlobally a st"
| "global_step (Delete_ws_route a) st = deregisterWSRouteGlobally a st"
| "global_step Use_server st = rbind (getGlobalServer st) (\<lambda>(d, st). Inr st)"

fun global_run :: "('ws, 'h) global_event list \<Rightarrow> ('ws, 'h) statics \<Rightarrow> ('ws, 'h) statics result" where
  "global_run [] st = Inr st"
| "global_run (e # es) st = rbind (global_step e st) (global_run es)"

text \<open>The end of the program: the server's destructor uses its event loop.\<close>

fun run_exit :: "static_object list \<Rightarrow> ('ws, 'h) statics \<Rightarrow> ('ws, 'h) statics result" where
  "run_exit [] st = Inr st"
| "run_exit (Route_object a # objects) st = rbind (deregisterRouteGlobally a st) (run_exit objects)"
| "run_exit (Ws_route_object a # objects) st = rbind (deregisterWSRouteGlobally a st) (run_exit objects)"
| "run_exit (Server_object # objects) st =
     (if st_epoll st then run_exit objects (st\<lparr>st_server := Destroyed\<rparr>)
      else Inl (Undefined ''rmFD of a destroyed epoll''))"
| "run_exit (Epoll_object # objects) st = run_exit objects (st\<lparr>st_epoll := False\<rparr>)"

section \<open>The life of the routes\<close>

fun living :: "('ws, 'h) server_life \<Rightarrow> nat set \<times> nat set" where
  "living (Running d) = (rt_address ` set (dp_routes d), wr_address ` set (dp_ws_routes d))"
| "living _ = ({}, {})"

text \<open>An object's address is not that of another living one of its kind; only living objects are
  deleted, and not those with static life.\<close>

fun lawful :: "('ws, 'h) global_event \<Rightarrow> ('ws, 'h) statics \<Rightarrow> bool" where
  "lawful (New_route is_static made) st \<longleftrightarrow>
     (case made of Inl e \<Rightarrow> True | Inr r \<Rightarrow> rt_address r \<notin> fst (living (st_server st)))"
| "lawful (New_ws_route is_static r) st \<longleftrightarrow> wr_address r \<notin> snd (living (st_server st))"
| "lawful (Delete_route a) st \<longleftrightarrow> a \<in> fst (living (st_server st)) \<and> Route_object a \<notin> set (st_objects st)"
| "lawful (Delete_ws_route a) st \<longleftrightarrow> a \<in> snd (living (st_server st)) \<and> Ws_route_object a \<notin> set (st_objects st)"
| "lawful Use_server st \<longleftrightarrow> True"

fun lawful_run :: "('ws, 'h) global_event list \<Rightarrow> ('ws, 'h) statics \<Rightarrow> bool" where
  "lawful_run [] st \<longleftrightarrow> True"
| "lawful_run (e # es) st \<longleftrightarrow> lawful e st \<and> (case global_step e st of Inl f \<Rightarrow> True | Inr st' \<Rightarrow> lawful_run es st')"

text \<open>The static objects above the server are routes that its dispatcher knows.\<close>

definition known :: "('ws, 'h) dispatcher \<Rightarrow> static_object list \<Rightarrow> bool" where
  "known d objects \<longleftrightarrow> distinct objects \<and>
     distinct (map rt_address (dp_routes d)) \<and> distinct (map wr_address (dp_ws_routes d)) \<and>
     (\<forall>ob \<in> set objects. (\<exists>a \<in> rt_address ` set (dp_routes d). ob = Route_object a) \<or>
        (\<exists>a \<in> wr_address ` set (dp_ws_routes d). ob = Ws_route_object a))"

definition statics_ok :: "('ws, 'h) statics \<Rightarrow> bool" where
  "statics_ok st \<longleftrightarrow>
     (case st_server st of
        Not_made \<Rightarrow> st_objects st = []
      | Running d \<Rightarrow> st_epoll st \<and> (\<exists>objects. st_objects st = objects @ [Server_object, Epoll_object] \<and> known d objects)
      | Destroyed \<Rightarrow> False)"

lemma remove_known:
  assumes "known d objects" and "a \<in> rt_address ` set (dp_routes d)" and "Route_object a \<notin> set objects"
  shows "\<exists>d'. removeRoute a d = Inr d' \<and> known d' objects"
proof -
  from assms(1) have "distinct (map rt_address (dp_routes d))"
    by (simp add: known_def)
  from http_routes.remove_address [OF assms(2) this] obtain d' where d':
    "removeRoute a d = Inr d'" "dp_routes d' = filter (\<lambda>r. rt_address r \<noteq> a) (dp_routes d)"
    by blast
  moreover from this have "dp_ws_routes d' = dp_ws_routes d"
    by (auto simp: removeRoute_def result_simps)
  ultimately show ?thesis
    using assms by (fastforce simp: known_def distinct_map_filter)
qed

lemma remove_known_ws:
  assumes "known d objects" and "a \<in> wr_address ` set (dp_ws_routes d)" and "Ws_route_object a \<notin> set objects"
  shows "\<exists>d'. removeRouteWS a d = Inr d' \<and> known d' objects"
proof -
  from assms(1) have "distinct (map wr_address (dp_ws_routes d))"
    by (simp add: known_def)
  from ws_routes.remove_address [OF assms(2) this] obtain d' where d':
    "removeRouteWS a d = Inr d'" "dp_ws_routes d' = filter (\<lambda>r. wr_address r \<noteq> a) (dp_ws_routes d)"
    by blast
  moreover from this have "dp_routes d' = dp_routes d"
    by (auto simp: removeRouteWS_def result_simps)
  ultimately show ?thesis
    using assms by (fastforce simp: known_def distinct_map_filter)
qed


lemma exit_known:
  "known d objects \<Longrightarrow> st_server st = Running d \<Longrightarrow> st_epoll st \<Longrightarrow>
   \<exists>st'. run_exit (objects @ [Server_object, Epoll_object]) st = Inr st' \<and> st_server st' = Destroyed"
proof (induction objects arbitrary: d st)
  case (Cons ob objects)
  then have rest: "known d objects" "ob \<notin> set objects"
    by (simp_all add: known_def)
  have "(\<exists>a \<in> rt_address ` set (dp_routes d). ob = Route_object a) \<or>
        (\<exists>a \<in> wr_address ` set (dp_ws_routes d). ob = Ws_route_object a)"
    using Cons.prems(1) unfolding known_def by (meson list.set_intros(1))
  then consider (route) a where "ob = Route_object a" "a \<in> rt_address ` set (dp_routes d)"
    | (ws) a where "ob = Ws_route_object a" "a \<in> wr_address ` set (dp_ws_routes d)"
    by blast
  then show ?case
  proof cases
    case route
    with remove_known [OF rest(1) route(2)] rest(2) obtain d' where d': "removeRoute a d = Inr d'" "known d' objects"
      by blast
    with Cons.IH [OF d'(2), of "st\<lparr>st_server := Running d'\<rparr>"] Cons.prems route(1) show ?thesis
      by (simp add: deregisterRouteGlobally_def getGlobalServer_def)
  next
    case ws
    with remove_known_ws [OF rest(1) ws(2)] rest(2) obtain d' where d': "removeRouteWS a d = Inr d'" "known d' objects"
      by blast
    with Cons.IH [OF d'(2), of "st\<lparr>st_server := Running d'\<rparr>"] Cons.prems ws(1) show ?thesis
      by (simp add: deregisterWSRouteGlobally_def getGlobalServer_def)
  qed
qed simp

lemma exit_ok:
  assumes "statics_ok st"
  shows "\<exists>st'. run_exit (st_objects st) st = Inr st' \<and> (\<forall>d. st_server st' \<noteq> Running d)"
proof (cases "st_server st")
  case (Running d)
  with assms obtain objects where "st_objects st = objects @ [Server_object, Epoll_object]" "known d objects" "st_epoll st"
    by (auto simp: statics_ok_def)
  with exit_known [OF this(2) Running this(3)] show ?thesis
    by auto
qed (use assms in \<open>auto simp: statics_ok_def\<close>)

lemma getGlobalServer_ok:
  assumes "statics_ok st"
  obtains d st' objects where "getGlobalServer st = Inr (d, st')" and "st_server st' = Running d" and "st_epoll st'"
    and "st_objects st' = objects @ [Server_object, Epoll_object]" and "known d objects"
    and "living (Running d) = living (st_server st)"
    and "set (st_objects st') \<subseteq> set (st_objects st) \<union> {Server_object, Epoll_object}"
proof (cases "st_server st")
  case Not_made
  with assms that [of "make_dispatcher None" "st\<lparr>st_server := Running (make_dispatcher None), st_epoll := True,
      st_objects := [Server_object, Epoll_object]\<rparr>" "[]"] show ?thesis
    by (simp add: statics_ok_def getGlobalServer_def known_def make_dispatcher_def Let_def)
next
  case (Running d)
  with assms that [of d st] show ?thesis
    by (auto simp: statics_ok_def getGlobalServer_def)
qed (use assms in \<open>simp add: statics_ok_def\<close>)

lemma known_add:
  "known d objects \<Longrightarrow> rt_address r \<notin> rt_address ` set (dp_routes d) \<Longrightarrow>
   known (addRoute r d) objects \<and> known (addRoute r d) (Route_object (rt_address r) # objects)"
  by (auto simp: known_def addRoute_def)

lemma known_add_ws:
  "known d objects \<Longrightarrow> wr_address r \<notin> wr_address ` set (dp_ws_routes d) \<Longrightarrow>
   known (addRouteWS r d) objects \<and> known (addRouteWS r d) (Ws_route_object (wr_address r) # objects)"
  by (auto simp: known_def addRouteWS_def)

lemma statics_okI:
  "st_server st = Running d \<Longrightarrow> st_epoll st \<Longrightarrow> st_objects st = objects @ [Server_object, Epoll_object] \<Longrightarrow>
   known d objects \<Longrightarrow> statics_ok st"
  by (simp add: statics_ok_def)

lemma step_ok:
  assumes "statics_ok st" and "lawful e st"
  shows "\<exists>st'. global_step e st = Inr st' \<and> statics_ok st'"
proof -
  obtain d st1 objects where get: "getGlobalServer st = Inr (d, st1)"
    and st1: "st_server st1 = Running d" "st_epoll st1" "st_objects st1 = objects @ [Server_object, Epoll_object]"
    and known: "known d objects" and same: "living (Running d) = living (st_server st)"
    and old: "set (st_objects st1) \<subseteq> set (st_objects st) \<union> {Server_object, Epoll_object}"
    using getGlobalServer_ok [OF assms(1)] by metis
  show ?thesis
  proof (cases e)
    case (New_route is_static made)
    show ?thesis
    proof (cases made)
      case (Inr r)
      with assms(2) New_route same have "rt_address r \<notin> rt_address ` set (dp_routes d)"
        by (metis fst_conv lawful.simps(1) living.simps(1) old.sum.simps(6))
      from known_add [OF known this] st1 get Inr New_route show ?thesis
        by (auto simp: GlobalRoute_def registerRouteGlobally_def
            intro: statics_okI [where objects = objects] statics_okI [where objects = "Route_object (rt_address r) # objects"])
    qed (use assms New_route in simp)
  next
    case (New_ws_route is_static r)
    with assms(2) same have "wr_address r \<notin> wr_address ` set (dp_ws_routes d)"
      by (metis lawful.simps(2) living.simps(1) snd_conv)
    from known_add_ws [OF known this] st1 get New_ws_route show ?thesis
      by (auto simp: GlobalWSRoute_def registerWSRouteGlobally_def
          intro: statics_okI [where objects = objects] statics_okI [where objects = "Ws_route_object (wr_address r) # objects"])
  next
    case (Delete_route a)
    with assms(2) same old st1(3) have "a \<in> rt_address ` set (dp_routes d)" "Route_object a \<notin> set objects"
      by (metis fst_conv lawful.simps(3) living.simps(1), force)
    from remove_known [OF known this] st1 get Delete_route show ?thesis
      by (auto simp: deregisterRouteGlobally_def intro!: statics_okI)
  next
    case (Delete_ws_route a)
    with assms(2) same old st1(3) have "a \<in> wr_address ` set (dp_ws_routes d)" "Ws_route_object a \<notin> set objects"
      by (metis snd_conv lawful.simps(4) living.simps(1), force)
    from remove_known_ws [OF known this] st1 get Delete_ws_route show ?thesis
      by (auto simp: deregisterWSRouteGlobally_def intro!: statics_okI)
  next
    case Use_server
    with get st1 known show ?thesis
      by (auto intro: statics_okI)
  qed
qed

lemma run_ok: "statics_ok st \<Longrightarrow> lawful_run es st \<Longrightarrow> \<exists>st'. global_run es st = Inr st' \<and> statics_ok st'"
proof (induction es arbitrary: st)
  case (Cons e es)
  then obtain st1 where "global_step e st = Inr st1" "statics_ok st1"
    using step_ok by fastforce
  with Cons show ?case
    by auto
qed simp

section \<open>Properties\<close>

text \<open>
  C27. The global routes and the global server end in the right order. Whatever a program constructs
  and deletes before it ends, with constructors that throw, and wherever the server is first used:
  registering and deregistering are defined, and at the end every static route deregisters from a
  dispatcher that still lives and knows it, before the server is destroyed, and the server before its
  event loop.
\<close>

theorem globals_end_in_order:
  assumes "lawful_run es before_main"
  shows "\<exists>st st'. global_run es before_main = Inr st \<and> run_exit (st_objects st) st = Inr st' \<and>
    (\<forall>d. st_server st' \<noteq> Running d)"
proof -
  have "statics_ok before_main"
    by (simp add: statics_ok_def before_main_def)
  from run_ok [OF this assms] exit_ok show ?thesis
    by blast
qed

theorem globals_end_in_order_witness:
  "\<exists>st st'. global_run [New_route True (Inr example_file), New_ws_route True example_ws,
      New_route False (Inr example_number), New_route True (Inl Other_throw), Delete_route (rt_address example_number)]
      before_main = Inr st \<and> run_exit (st_objects st) st = Inr st' \<and> (\<forall>d. st_server st' \<noteq> Running d)"
  by (rule globals_end_in_order)
    (simp add: before_main_def GlobalRoute_def GlobalWSRoute_def registerRouteGlobally_def registerWSRouteGlobally_def
      getGlobalServer_def make_dispatcher_def addRoute_def addRouteWS_def example_file_def example_number_def
      example_ws_def Let_def split: sum.split)

end
