(* ===== verification/Dispatch_Threads.thy ===== *)
theory Dispatch_Threads
  imports Routing
begin

text \<open>
  Dispatcher.cpp on several threads: \<^verbatim>\<open>route\<close>, \<^verbatim>\<open>addRoute\<close> and \<^verbatim>\<open>removeRoute\<close> each hold
  \<^verbatim>\<open>routes_mutex\<close> from their first line to their end, \<^verbatim>\<open>route\<close> also while the function of the route
  runs. The mutex is not recursive: locking it again on the thread that holds it is undefined.
\<close>

section \<open>State\<close>

datatype dispatch_call = Call_route request | Call_add route | Call_remove nat

datatype dispatch_result = Routed "response result" | Changed

text \<open>A thread does not use the dispatcher, waits for the lock, holds it, or runs the function of the
  route it has chosen.\<close>

datatype call_phase =
    Outside
  | Waiting dispatch_call
  | Holding dispatch_call
  | Calling request "url_match_info option"

record ('ws, 'h) dispatch_threads =
  dt_dispatcher :: "('ws, 'h) dispatcher"
  dt_owner :: "nat option"
  dt_phases :: "call_phase list"
  dt_done :: "(dispatch_call \<times> dispatch_result) list"

definition start_dispatch :: "nat \<Rightarrow> ('ws, 'h) dispatcher \<Rightarrow> ('ws, 'h) dispatch_threads" where
  "start_dispatch n d = \<lparr>dt_dispatcher = d, dt_owner = None, dt_phases = replicate n Outside, dt_done = []\<rparr>"

section \<open>Steps\<close>

text \<open>
  A thread begins a call, gets the lock, chooses the route, ends the call and frees the lock; the
  function of a route that is running uses the same dispatcher again.
\<close>

datatype dispatch_event = Begin nat dispatch_call | Lock nat | Choose nat | Finish nat | Reenter nat

definition best_match :: "('ws, 'h) dispatcher \<Rightarrow> request \<Rightarrow> url_match_info option" where
  "best_match d req = max_element (\<lambda>l r. mi_score l < mi_score r) (collect_matches req (dp_routes d))"

definition answer_match :: "('ws, 'h) dispatcher \<Rightarrow> request \<Rightarrow> url_match_info option \<Rightarrow> response result" where
  "answer_match d req best =
     (case best of
        None \<Rightarrow> Inr (response_of_error 404 [] (dp_error_body_generator d))
      | Some mi \<Rightarrow>
          response_of_outcome (dp_error_body_generator d) (call_route (mi_route mi) req (mi_match mi)))"

definition locked_twice :: fault where
  "locked_twice = Undefined ''routes_mutex locked by the thread that holds it''"

definition leave_dispatcher ::
  "nat \<Rightarrow> dispatch_call \<times> dispatch_result \<Rightarrow> ('ws, 'h) dispatch_threads \<Rightarrow> ('ws, 'h) dispatch_threads" where
  "leave_dispatcher t entry s =
     s\<lparr>dt_owner := None, dt_phases := (dt_phases s)[t := Outside], dt_done := dt_done s @ [entry]\<rparr>"

definition finish_call :: "nat \<Rightarrow> ('ws, 'h) dispatch_threads \<Rightarrow> ('ws, 'h) dispatch_threads result" where
  "finish_call t s =
     (case dt_phases s ! t of
        Calling req best \<Rightarrow>
          Inr (leave_dispatcher t (Call_route req, Routed (answer_match (dt_dispatcher s) req best)) s)
      | Holding (Call_add r) \<Rightarrow>
          Inr (leave_dispatcher t (Call_add r, Changed) (s\<lparr>dt_dispatcher := addRoute r (dt_dispatcher s)\<rparr>))
      | Holding (Call_remove a) \<Rightarrow>
          rbind (removeRoute a (dt_dispatcher s))
            (\<lambda>d. Inr (leave_dispatcher t (Call_remove a, Changed) (s\<lparr>dt_dispatcher := d\<rparr>)))
      | _ \<Rightarrow> Inr s)"

fun dispatch_step :: "dispatch_event \<Rightarrow> ('ws, 'h) dispatch_threads \<Rightarrow> ('ws, 'h) dispatch_threads result" where
  "dispatch_step (Begin t call) s =
     Inr (if t < length (dt_phases s) \<and> dt_phases s ! t = Outside
          then s\<lparr>dt_phases := (dt_phases s)[t := Waiting call]\<rparr> else s)"
| "dispatch_step (Lock t) s =
     Inr (if t < length (dt_phases s) \<and> dt_owner s = None
          then (case dt_phases s ! t of
                  Waiting call \<Rightarrow> s\<lparr>dt_owner := Some t, dt_phases := (dt_phases s)[t := Holding call]\<rparr>
                | _ \<Rightarrow> s)
          else s)"
| "dispatch_step (Choose t) s =
     Inr (if t < length (dt_phases s)
          then (case dt_phases s ! t of
                  Holding (Call_route req) \<Rightarrow>
                    s\<lparr>dt_phases := (dt_phases s)[t := Calling req (best_match (dt_dispatcher s) req)]\<rparr>
                | _ \<Rightarrow> s)
          else s)"
| "dispatch_step (Finish t) s = (if t < length (dt_phases s) then finish_call t s else Inr s)"
| "dispatch_step (Reenter t) s =
     (if t < length (dt_phases s)
      then (case dt_phases s ! t of Calling req (Some mi) \<Rightarrow> Inl locked_twice | _ \<Rightarrow> Inr s)
      else Inr s)"

fun dispatch_run :: "dispatch_event list \<Rightarrow> ('ws, 'h) dispatch_threads \<Rightarrow> ('ws, 'h) dispatch_threads result" where
  "dispatch_run [] s = Inr s"
| "dispatch_run (e # es) s = rbind (dispatch_step e s) (dispatch_run es)"

section \<open>One call after the other\<close>

text \<open>The calls in an order, on one thread, with the operations of \<^verbatim>\<open>Routing\<close>.\<close>

fun sequential_call :: "dispatch_call \<Rightarrow> ('ws, 'h) dispatcher \<Rightarrow> (dispatch_result \<times> ('ws, 'h) dispatcher) result" where
  "sequential_call (Call_route req) d = Inr (Routed (route_request d req), d)"
| "sequential_call (Call_add r) d = Inr (Changed, addRoute r d)"
| "sequential_call (Call_remove a) d = rbind (removeRoute a d) (\<lambda>d. Inr (Changed, d))"

fun sequential :: "(dispatch_call \<times> dispatch_result) list \<Rightarrow> ('ws, 'h) dispatcher \<Rightarrow> ('ws, 'h) dispatcher \<Rightarrow> bool" where
  "sequential [] d d' \<longleftrightarrow> d = d'"
| "sequential ((call, res) # entries) d d' \<longleftrightarrow>
     (case sequential_call call d of
        Inl e \<Rightarrow> False
      | Inr (res', d1) \<Rightarrow> res = res' \<and> sequential entries d1 d')"

lemma sequential_snoc:
  "sequential entries d d1 \<Longrightarrow> sequential_call call d1 = Inr (res, d2) \<Longrightarrow> sequential (entries @ [(call, res)]) d d2"
  by (induction entries d d1 rule: sequential.induct) (auto split: sum.splits)

lemma answer_best_match: "answer_match d req (best_match d req) = route_request d req"
  by (simp add: answer_match_def best_match_def route_request_def)

fun holds_lock :: "call_phase \<Rightarrow> bool" where
  "holds_lock (Holding call) \<longleftrightarrow> True"
| "holds_lock (Calling req best) \<longleftrightarrow> True"
| "holds_lock _ \<longleftrightarrow> False"

text \<open>The thread that holds the lock is its owner, and it runs the route that the dispatcher as it is
  would choose.\<close>

definition locked_ok :: "('ws, 'h) dispatch_threads \<Rightarrow> bool" where
  "locked_ok s \<longleftrightarrow> (\<forall>t < length (dt_phases s). holds_lock (dt_phases s ! t) \<longrightarrow> dt_owner s = Some t \<and>
     (\<forall>req best. dt_phases s ! t = Calling req best \<longrightarrow> best = best_match (dt_dispatcher s) req))"

definition dispatch_ok :: "('ws, 'h) dispatcher \<Rightarrow> ('ws, 'h) dispatch_threads \<Rightarrow> bool" where
  "dispatch_ok d s \<longleftrightarrow> locked_ok s \<and> sequential (dt_done s) d (dt_dispatcher s)"

lemma leave_ok:
  assumes "dispatch_ok d s" and "t < length (dt_phases s)" and "holds_lock (dt_phases s ! t)"
    and "sequential_call call (dt_dispatcher s) = Inr (res, d1)"
  shows "dispatch_ok d (leave_dispatcher t (call, res) (s\<lparr>dt_dispatcher := d1\<rparr>))"
proof -
  have owner: "dt_owner s = Some u" if "u < length (dt_phases s)" "holds_lock (dt_phases s ! u)" for u
    using assms(1) that by (simp add: dispatch_ok_def locked_ok_def)
  have "\<not> holds_lock (dt_phases s ! u)" if "u \<noteq> t" "u < length (dt_phases s)" for u
    using owner [OF that(2)] owner [OF assms(2,3)] that(1) by auto
  then have "\<not> holds_lock ((dt_phases s)[t := Outside] ! u)" if "u < length (dt_phases s)" for u
    using that by (cases "u = t") simp_all
  then have "locked_ok (leave_dispatcher t (call, res) (s\<lparr>dt_dispatcher := d1\<rparr>))"
    by (simp add: locked_ok_def leave_dispatcher_def)
  moreover have "sequential (dt_done s @ [(call, res)]) d d1"
    using assms(1,4) by (intro sequential_snoc) (simp_all add: dispatch_ok_def)
  ultimately show ?thesis
    by (simp add: dispatch_ok_def leave_dispatcher_def)
qed

lemma finish_ok:
  assumes "dispatch_ok d s" and "t < length (dt_phases s)" and "finish_call t s = Inr s'"
  shows "dispatch_ok d s'"
proof -
  note leave = leave_ok [OF assms(1,2)]
  consider (calling) req best where "dt_phases s ! t = Calling req best"
    | (add) r where "dt_phases s ! t = Holding (Call_add r)"
    | (remove) a where "dt_phases s ! t = Holding (Call_remove a)"
    | (other) "s' = s"
    using assms(3) by (auto simp: finish_call_def split: call_phase.splits dispatch_call.splits)
  then show ?thesis
  proof cases
    case calling
    with assms(1,2) have "best = best_match (dt_dispatcher s) req"
      by (auto simp: dispatch_ok_def locked_ok_def)
    with leave [of "Call_route req" "Routed (answer_match (dt_dispatcher s) req best)" "dt_dispatcher s"]
      calling assms(3)
    show ?thesis
      by (simp add: answer_best_match finish_call_def)
  next
    case add
    with leave [of "Call_add r" Changed "addRoute r (dt_dispatcher s)"] assms(3) show ?thesis
      by (simp add: finish_call_def)
  next
    case remove
    with assms(3) obtain d1 where "removeRoute a (dt_dispatcher s) = Inr d1"
      "s' = leave_dispatcher t (Call_remove a, Changed) (s\<lparr>dt_dispatcher := d1\<rparr>)"
      by (auto simp: finish_call_def result_simps)
    with leave [of "Call_remove a" Changed d1] remove show ?thesis
      by simp
  next
    case other
    with assms(1) show ?thesis
      by simp
  qed
qed

lemma dispatch_step_ok:
  assumes "dispatch_ok d s" and "dispatch_step e s = Inr s'"
  shows "dispatch_ok d s'"
proof (cases e)
  case (Finish t)
  with assms finish_ok show ?thesis
    by (auto split: if_splits)
next
  case (Reenter t)
  with assms show ?thesis
    by (auto split: if_splits call_phase.splits option.splits)
qed (use assms in \<open>auto simp: dispatch_ok_def locked_ok_def nth_list_update
      split: if_splits call_phase.splits dispatch_call.splits\<close>)

lemma dispatch_run_ok: "dispatch_ok d s \<Longrightarrow> dispatch_run es s = Inr s' \<Longrightarrow> dispatch_ok d s'"
proof (induction es arbitrary: s)
  case (Cons e es)
  then show ?case
    using dispatch_step_ok by (fastforce simp: result_simps)
qed simp

lemma dispatch_start: "dispatch_ok d (start_dispatch n d)"
  by (simp add: dispatch_ok_def locked_ok_def start_dispatch_def)


section \<open>Properties\<close>

text \<open>
  C26. The dispatcher on several threads: however the calls of \<^verbatim>\<open>route\<close>, \<^verbatim>\<open>addRoute\<close> and
  \<^verbatim>\<open>removeRoute\<close> overlap, the dispatcher and every response are those of the same calls made one
  after the other, in the order in which they held the lock; and at most one thread at a time is in
  the dispatcher or in the function of a route.
\<close>

theorem dispatch_one_after_other:
  assumes "dispatch_run es (start_dispatch n d) = Inr s"
  shows "sequential (dt_done s) d (dt_dispatcher s) \<and>
    (\<forall>t u. t < length (dt_phases s) \<and> u < length (dt_phases s) \<and>
       holds_lock (dt_phases s ! t) \<and> holds_lock (dt_phases s ! u) \<longrightarrow> t = u)"
proof -
  have ok: "dispatch_ok d s"
    by (rule dispatch_run_ok [OF dispatch_start assms])
  then have "dt_owner s = Some t" if "t < length (dt_phases s)" "holds_lock (dt_phases s ! t)" for t
    using that by (simp add: dispatch_ok_def locked_ok_def)
  then have "\<forall>t u. t < length (dt_phases s) \<and> u < length (dt_phases s) \<and>
       holds_lock (dt_phases s ! t) \<and> holds_lock (dt_phases s ! u) \<longrightarrow> t = u"
    by (metis option.inject)
  with ok show ?thesis
    by (simp add: dispatch_ok_def)
qed

theorem dispatch_one_after_other_witness:
  "\<exists>s. dispatch_run [Begin 0 (Call_add example_number), Begin 1 (Call_route (example_request ''/n/7'')),
      Lock 1, Lock 0, Choose 1, Finish 1, Lock 0, Finish 0] (start_dispatch 2 (make_dispatcher None :: (unit, unit) dispatcher)) = Inr s \<and>
    map fst (dt_done s) = [Call_route (example_request ''/n/7''), Call_add example_number] \<and>
    sequential (dt_done s) (make_dispatcher None) (dt_dispatcher s)"
proof -
  let ?es = "[Begin 0 (Call_add example_number), Begin 1 (Call_route (example_request ''/n/7'')),
      Lock 1, Lock 0, Choose 1, Finish 1, Lock 0, Finish 0]"
  obtain s where s: "dispatch_run ?es (start_dispatch 2 (make_dispatcher None :: (unit, unit) dispatcher)) = Inr s"
    "map fst (dt_done s) = [Call_route (example_request ''/n/7''), Call_add example_number]"
    by (simp add: start_dispatch_def numeral_2_eq_2 finish_call_def leave_dispatcher_def)
  from dispatch_one_after_other [OF s(1)] have "sequential (dt_done s) (make_dispatcher None) (dt_dispatcher s)"
    by simp
  with s show ?thesis
    by (intro exI [of _ s] conjI)
qed

text \<open>
  The lock is held while the function of a route runs: a function that constructs or destroys a
  global route, or asks the dispatcher for another response, locks it twice.
\<close>

lemma route_function_locks_twice:
  "t < length (dt_phases s) \<Longrightarrow> dt_phases s ! t = Calling req (Some mi) \<Longrightarrow> dispatch_step (Reenter t) s = Inl locked_twice"
  by simp

text \<open>No other call ends while the function of a route runs, however long it takes.\<close>

lemma route_function_blocks:
  assumes "dispatch_ok d s" and "t < length (dt_phases s)" and "dt_phases s ! t = Calling req best"
    and "u < length (dt_phases s)" and "u \<noteq> t"
  shows "dispatch_step (Finish u) s = Inr s" and "dispatch_step (Lock u) s = Inr s"
proof -
  have owner: "dt_owner s = Some v" if "v < length (dt_phases s)" "holds_lock (dt_phases s ! v)" for v
    using assms(1) that by (simp add: dispatch_ok_def locked_ok_def)
  have t: "dt_owner s = Some t"
    using owner [OF assms(2)] assms(3) by simp
  with owner [OF assms(4)] assms(5) have "\<not> holds_lock (dt_phases s ! u)"
    by auto
  with assms(4) show "dispatch_step (Finish u) s = Inr s"
    by (auto simp: finish_call_def split: call_phase.split)
  from t show "dispatch_step (Lock u) s = Inr s"
    by simp
qed

end
