(* ===== verification/Parse_Faults.thy ===== *)
theory Parse_Faults
  imports Request
begin

text \<open>
  What the parsers of Request.cpp end in besides a value. Every fault of \<open>parse_header\<close> and
  \<open>readMultipartBody\<close> is an error with the status 400, the \<^verbatim>\<open>std::out_of_range\<close> of a
  \<^verbatim>\<open>substr\<close>, or the undefined read of \<open>url_unescape\<close>, and the last one needs a percent sign in
  the text. The lemmas follow the calls from the inside out.
\<close>

section \<open>Faults of a parser\<close>

text \<open>A fault that is possible when \<open>pct\<close> tells whether the text holds a percent sign.\<close>

definition parser_fault :: "bool \<Rightarrow> fault \<Rightarrow> bool" where
  "parser_fault pct f \<longleftrightarrow>
     (case f of
        Http_error code _ \<Rightarrow> code = 400
      | Logic_error what \<Rightarrow> what = ''out_of_range''
      | Undefined what \<Rightarrow> what = ''url_unescape'' \<and> pct
      | Out_of_fuel \<Rightarrow> True
      | _ \<Rightarrow> False)"

abbreviation has_pct :: "string \<Rightarrow> bool" where
  "has_pct s \<equiv> CHR ''%'' \<in> set s"

text \<open>
  An outcome computed from a text: a value without a percent sign of its own, or such a fault.
  \<open>pcts\<close> tells whether a value holds one.
\<close>

definition parsed_from :: "bool \<Rightarrow> ('a \<Rightarrow> bool) \<Rightarrow> 'a result \<Rightarrow> bool" where
  "parsed_from pct pcts r \<longleftrightarrow> (case r of Inl f \<Rightarrow> parser_fault pct f | Inr v \<Rightarrow> pcts v \<longrightarrow> pct)"

lemma parsed_from_Inr [simp]: "parsed_from pct pcts (Inr v) \<longleftrightarrow> (pcts v \<longrightarrow> pct)"
  by (simp add: parsed_from_def)

lemma parsed_from_Inl [simp]: "parsed_from pct pcts (Inl f) \<longleftrightarrow> parser_fault pct f"
  by (simp add: parsed_from_def)

lemma parser_fault_simps [simp]:
  "parser_fault pct (Http_error code what) \<longleftrightarrow> code = 400"
  "parser_fault pct bad_url_escaping" "parser_fault pct invalid_request_line"
  "parser_fault pct out_of_range" "parser_fault pct Out_of_fuel"
  "parser_fault pct (Undefined what) \<longleftrightarrow> what = ''url_unescape'' \<and> pct"
  by (simp_all add: parser_fault_def bad_url_escaping_def invalid_request_line_def out_of_range_def)

lemma parsed_from_mono:
  "parsed_from pct pcts r \<Longrightarrow> (pct \<Longrightarrow> pct') \<Longrightarrow> (\<And>v. pcts' v \<Longrightarrow> pcts v) \<Longrightarrow> parsed_from pct' pcts' r"
  by (auto simp: parsed_from_def parser_fault_def split: sum.splits fault.splits)

text \<open>The rule for a step of a parser: its first part, then the rest on the value.\<close>

lemma parsed_bind:
  assumes "parsed_from pct pcts m"
    and "\<And>v. m = Inr v \<Longrightarrow> (pcts v \<longrightarrow> pct) \<Longrightarrow> parsed_from pct pcts' (f v)"
  shows "parsed_from pct pcts' (rbind m f)"
  using assms by (cases m) auto

lemma parsed_option:
  assumes "opt = None \<Longrightarrow> parsed_from pct pcts a" and "\<And>x. opt = Some x \<Longrightarrow> parsed_from pct pcts (f x)"
  shows "parsed_from pct pcts (case opt of None \<Rightarrow> a | Some x \<Rightarrow> f x)"
  using assms by (cases opt) simp_all

lemma parsed_faults: "parsed_from pct (\<lambda>_. False) r \<longleftrightarrow> (\<forall>f. r = Inl f \<longrightarrow> parser_fault pct f)"
  by (cases r) simp_all

lemma has_pct_take: "has_pct (take n s) \<Longrightarrow> has_pct s" and has_pct_drop: "has_pct (drop n s) \<Longrightarrow> has_pct s"
  by (auto dest: in_set_takeD in_set_dropD)

lemma parsed_substr: "parsed_from (has_pct s) has_pct (substr s i n)"
  by (auto simp: substr_def dest: in_set_takeD in_set_dropD)

lemma parsed_substr_from: "parsed_from (has_pct s) has_pct (substr_from s i)"
  by (auto simp: substr_from_def dest: in_set_dropD)

lemma parsed_substr_to: "parsed_from (has_pct s) has_pct (substr_to s i e)"
  by (auto simp: substr_to_def parsed_substr parsed_substr_from split: option.split)

section \<open>Unescaping and values\<close>

lemma parsed_unescape_ref: "has_pct s \<Longrightarrow> parsed_from True has_pct (unescape_ref s)"
proof (induction s rule: length_induct)
  case (1 s)
  have IH: "parsed_from True has_pct (unescape_ref t)" if "length t < length s" for t
    using 1(1) that by (cases "has_pct t") (simp_all add: unescape_ref_plain)
  show ?case
  proof (cases s)
    case (Cons c cs)
    have "parsed_from True has_pct (rbind (unescape_ref t) (\<lambda>r. Inr (d # r)))" if "length t < length s" for t d
      by (rule parsed_bind [OF IH [OF that]]) simp
    then show ?thesis
      unfolding Cons unescape_ref.simps(2) [of c cs] by (auto simp del: unescape_ref.simps split: list.split option.split)
  qed (use 1 in simp)
qed

lemma parsed_url_unescape: "parsed_from (has_pct s) has_pct (url_unescape s)"
proof (cases "has_pct s")
  case True
  then show ?thesis
    using parsed_unescape_ref [OF True]
    by (cases "s = ''%''") (simp_all add: url_unescape_percent url_unescape_eq_ref)
qed simp

fun pct_in_value :: "field_val \<Rightarrow> bool" where
  "pct_in_value (Single s) = has_pct s"
| "pct_in_value (KV k v) = (has_pct k \<or> has_pct v)"

abbreviation pct_in_values :: "field_val list \<Rightarrow> bool" where
  "pct_in_values fs \<equiv> \<exists>f \<in> set fs. pct_in_value f"

abbreviation pct_in_map :: "field_map \<Rightarrow> bool" where
  "pct_in_map m \<equiv> \<exists>kv \<in> set m. has_pct (fst kv) \<or> has_pct (snd kv)"

lemma has_pct_remove_quots: "has_pct (remove_quots s) \<Longrightarrow> has_pct s"
  by (auto simp: remove_quots_def split: if_splits dest: in_set_takeD in_set_dropD)

lemma parsed_field_of_chunk: "parsed_from (has_pct t) pct_in_value (field_of_chunk t)"
proof -
  have *: "parsed_from (has_pct t) has_pct (url_unescape (remove_quots u))" if "has_pct u \<Longrightarrow> has_pct t" for u
    by (rule parsed_from_mono [OF parsed_url_unescape]) (use that has_pct_remove_quots in blast)+
  show ?thesis
    unfolding field_of_chunk_def
    by (auto split: option.split intro!: parsed_bind [OF *] dest: in_set_takeD in_set_dropD)
qed

lemma parsed_extract_loop:
  "\<forall>f \<in> set acc. pct_in_value f \<longrightarrow> has_pct str \<Longrightarrow>
   parsed_from (has_pct str) pct_in_values (extract_loop fuel str delimiters start acc)"
proof (induction fuel arbitrary: start acc)
  case (Suc fuel)
  have chunk: "parsed_from (has_pct str) pct_in_value (field_of_chunk u)" if "has_pct u \<Longrightarrow> has_pct str" for u
    by (rule parsed_from_mono [OF parsed_field_of_chunk]) (use that in auto)
  show ?case
    unfolding extract_loop.simps(2) Let_def
    by (rule parsed_bind [OF parsed_substr_to])
      (use Suc in \<open>auto split: option.split intro!: parsed_bind [OF chunk] Suc.IH dest: in_set_takeD\<close>)
qed simp

lemma parsed_extractFieldVals: "parsed_from (has_pct str) pct_in_values (extractFieldVals str delimiters)"
  by (auto simp: extractFieldVals_def intro!: parsed_extract_loop)

section \<open>Header fields\<close>

lemma tolower_pct: "tolower c = CHR ''%'' \<longleftrightarrow> c = CHR ''%''"
proof
  assume "tolower c = CHR ''%''"
  then show "c = CHR ''%''"
    by (rule tolower_special [rotated]) simp
qed (simp add: tolower_def)

lemma has_pct_to_lower: "has_pct (to_lower s) \<longleftrightarrow> has_pct s"
  unfolding to_lower_def set_map image_iff by (metis tolower_pct)

lemma parsed_field_line:
  "parsed_from (has_pct line) (\<lambda>nv. has_pct (fst nv) \<or> has_pct (snd nv)) (parse_field_line line)"
proof -
  have *: "parsed_from (has_pct line) has_pct (url_unescape u)" if "has_pct u \<Longrightarrow> has_pct line" for u
    by (rule parsed_from_mono [OF parsed_url_unescape]) (use that in auto)
  have "parsed_from (has_pct line) (\<lambda>nv. has_pct (fst nv) \<or> has_pct (snd nv))
      (rbind (url_unescape (to_lower (take i line))) (\<lambda>n.
       rbind (url_unescape (take j (drop k line))) (\<lambda>v. Inr (n, v))))" for i j k
    by (rule parsed_bind [OF *], simp add: has_pct_to_lower, erule has_pct_take,
        rule parsed_bind [OF *], drule has_pct_take, erule has_pct_drop) simp
  then show ?thesis
    unfolding parse_field_line_def Let_def by (simp split: option.split)
qed

lemma parsed_fields_loop:
  "\<forall>kv \<in> set m. has_pct (fst kv) \<or> has_pct (snd kv) \<longrightarrow> has_pct text \<Longrightarrow>
   parsed_from (has_pct text) pct_in_map (parse_fields_loop fuel text pos m)"
proof (induction fuel arbitrary: pos m)
  case (Suc fuel)
  have line: "parsed_from (has_pct text) (\<lambda>nv. has_pct (fst nv) \<or> has_pct (snd nv)) (parse_field_line l)"
    if "has_pct l \<longrightarrow> has_pct text" for l
    by (rule parsed_from_mono [OF parsed_field_line]) (use that in auto)
  have next_line: "parsed_from (has_pct text) pct_in_map (parse_fields_loop fuel text p (umm_emplace n v m))"
    if "has_pct n \<or> has_pct v \<longrightarrow> has_pct text" for p n v
    by (rule Suc.IH) (use Suc.prems that in \<open>auto simp: umm_emplace_def\<close>)
  show ?case
    unfolding parse_fields_loop.simps(2)
    using Suc.prems
    by (auto split: option.split intro!: parsed_bind [OF parsed_substr] parsed_bind [OF line] next_line)
qed simp

lemma parsed_fields: "parsed_from (has_pct text) pct_in_map (parse_fields text)"
  by (auto simp: parse_fields_def intro: parsed_fields_loop)

lemma pct_in_range: "v \<in> set (umm_equal_range k m) \<Longrightarrow> has_pct v \<Longrightarrow> pct_in_map m"
  by (force simp: umm_equal_range_def)

lemma pct_found: "umm_find k m = Some v \<Longrightarrow> has_pct v \<Longrightarrow> pct_in_map m"
  by (force simp: umm_find_def dest!: map_of_SomeD)

section \<open>The request header\<close>

lemma parsed_url_args:
  "\<forall>f \<in> set fs. pct_in_value f \<longrightarrow> pct \<Longrightarrow> parsed_from pct (\<lambda>_. False) (add_url_args fs m)"
proof (induction fs m rule: add_url_args.induct)
  case (1 m)
  then show ?case by simp
next
  case (2 k v fs m)
  have *: "parsed_from pct has_pct (url_unescape u)" if "has_pct u \<Longrightarrow> pct" for u
    by (rule parsed_from_mono [OF parsed_url_unescape]) (use that in auto)
  show ?case
    unfolding add_url_args.simps
    by (rule parsed_bind [OF *], use 2 in simp, rule parsed_bind [OF *], use 2 in simp) (use 2 in auto)
next
  case (3 s fs m)
  have *: "parsed_from pct has_pct (url_unescape u)" if "has_pct u \<Longrightarrow> pct" for u
    by (rule parsed_from_mono [OF parsed_url_unescape]) (use that in auto)
  show ?case
    unfolding add_url_args.simps by (rule parsed_bind [OF *]) (use 3 in auto)
qed

lemma has_pct_take_until: "has_pct (take_until c s) \<Longrightarrow> has_pct s"
  by (auto simp: take_until_def split: option.splits dest: in_set_takeD)

lemma parsed_read_url_args: "parsed_from (has_pct url) (\<lambda>_. False) (read_url_args url)"
proof -
  have "parsed_from (has_pct url) pct_in_values (extractFieldVals (take_until c (drop n url)) d)" for c n d
    by (rule parsed_from_mono [OF parsed_extractFieldVals]) (auto dest!: has_pct_take_until in_set_dropD)
  then show ?thesis
    by (auto simp: read_url_args_def split: option.split intro!: parsed_bind parsed_url_args)
qed

lemma parsed_content_length: "parsed_from pct (\<lambda>_. False) (read_content_length m)"
  by (auto simp: read_content_length_def split: option.split prod.split errc.split)

lemma parsed_cookies:
  "(\<forall>c \<in> set cs. has_pct c \<longrightarrow> pct) \<Longrightarrow> parsed_from pct (\<lambda>_. False) (read_cookies cs m)"
proof (induction cs m rule: read_cookies.induct)
  case (2 c cs m)
  have "parsed_from pct pct_in_values (extractFieldVals c default_delimiters)"
    by (rule parsed_from_mono [OF parsed_extractFieldVals]) (use 2 in auto)
  then show ?case
    unfolding read_cookies.simps by (rule parsed_bind) (use 2 in auto)
qed simp

lemma parsed_header: "parsed_from (has_pct text) (\<lambda>_. False) (parse_header text)"
proof -
  note mono = parsed_from_mono
  have url: "parsed_from (has_pct text) (\<lambda>_. False) (url_unescape (take i (drop j text)))"
    and args: "parsed_from (has_pct text) (\<lambda>_. False) (read_url_args (take i (drop j text)))" for i j
    by (rule mono [OF parsed_url_unescape] mono [OF parsed_read_url_args];
        auto dest!: in_set_takeD in_set_dropD)+
  have version: "parsed_from (has_pct text) (\<lambda>_. False) (substr text i n)" for i n
    by (rule mono [OF parsed_substr]) auto
  have fields: "parsed_from (has_pct text) pct_in_map (rbind (substr_from text i) parse_fields)" for i
    by (rule parsed_bind [OF parsed_substr_from]) (rule mono [OF parsed_fields], auto)
  have cookies: "parsed_from (has_pct text) (\<lambda>_. False) (read_cookies (umm_equal_range k m) [])"
    if "pct_in_map m \<longrightarrow> has_pct text" for k m
    by (rule parsed_cookies) (use that pct_in_range in blast)
  have tail: "parsed_from (has_pct text) (\<lambda>_. False)
      (rbind (rbind (substr_from text i) parse_fields) (\<lambda>m. rbind (read_content_length m) (\<lambda>n.
        rbind (read_cookies (umm_equal_range k m) []) (\<lambda>c. Inr (hdr m n c)))))" for i k hdr
    by (rule parsed_bind [OF fields], rule parsed_bind [OF parsed_content_length], rule parsed_bind [OF cookies])
      simp_all
  have "parsed_from (has_pct text) (\<lambda>_. False)
      (rbind (url_unescape (take i (drop j text))) (\<lambda>url. rbind (substr text a b) (\<lambda>version.
        rbind (read_url_args (take i (drop j text))) (\<lambda>args.
        rbind (rbind (substr_from text k) parse_fields) (\<lambda>m. rbind (read_content_length m) (\<lambda>n.
        rbind (read_cookies (umm_equal_range ''cookie'' m) []) (\<lambda>c. Inr (hdr url version args m n c))))))))"
    for i j a b k hdr
    by (rule parsed_bind [OF url], rule parsed_bind [OF version], rule parsed_bind [OF args], rule tail)
  note whole = this
  show ?thesis
    unfolding parse_header_def Let_def
    by (rule parsed_option, simp, rule parsed_option, simp, rule parsed_option, simp, rule whole)
qed

section \<open>Multipart bodies\<close>

lemma parsed_part: "parsed_from (has_pct content) (\<lambda>_. False) (read_part content)"
proof -
  have fields: "parsed_from (has_pct content) pct_in_map (parse_fields (take n content))" for n
    by (rule parsed_from_mono [OF parsed_fields]) (auto dest: in_set_takeD)
  have disposition: "parsed_from (has_pct content) (\<lambda>_. False) (extractFieldVals cd default_delimiters)"
    if "pct_in_map m \<longrightarrow> has_pct content" "umm_find k m = Some cd" for m k cd
    by (rule parsed_from_mono [OF parsed_extractFieldVals]) (use that pct_found in auto)
  have rest: "parsed_from (has_pct content) (\<lambda>_. False) (substr_from content n)" for n
    by (rule parsed_from_mono [OF parsed_substr_from]) auto
  have tail: "parsed_from (has_pct content) (\<lambda>_. False)
      (rbind (extractFieldVals cd default_delimiters) (\<lambda>vs.
         case find_name vs of
           None \<Rightarrow> Inl (Http_error 400 what)
         | Some name \<Rightarrow> rbind (substr_from content n) (\<lambda>c. Inr (part name vs c))))"
    if "pct_in_map m \<longrightarrow> has_pct content" "umm_find k m = Some cd" for m k cd what n part
    by (rule parsed_bind [OF disposition [OF that]])
      (simp add: parsed_bind [OF rest] split: option.split)
  have "parsed_from (has_pct content) (\<lambda>_. False) (case umm_find k m of
        None \<Rightarrow> Inl (Http_error 400 what')
      | Some cd \<Rightarrow> rbind (extractFieldVals cd default_delimiters) (\<lambda>vs.
         case find_name vs of
           None \<Rightarrow> Inl (Http_error 400 what)
         | Some name \<Rightarrow> rbind (substr_from content n) (\<lambda>c. Inr (part name vs c))))"
    if "pct_in_map m \<longrightarrow> has_pct content" for m k what' what n part
    using tail [OF that] by (cases "umm_find k m") simp_all
  note found = this
  show ?thesis
  proof (cases "find_sub (crlf @ crlf) content 0")
    case (Some i)
    show ?thesis
      unfolding read_part_def Some option.case by (rule parsed_bind [OF fields]) (rule found)
  qed (simp add: read_part_def)
qed

lemma multipart_loop_fault:
  "multipart_loop body boundary start args = Inl f \<Longrightarrow> parser_fault (has_pct body) f"
proof (induction body boundary start args rule: multipart_loop.induct)
  case (2 body boundary start args)
  have "parser_fault (has_pct body) e" if "read_part (take n (drop k body)) = Inl e" for n k e
  proof -
    have "parsed_from (has_pct body) (\<lambda>_. False) (read_part (take n (drop k body)))"
      by (rule parsed_from_mono [OF parsed_part]) (auto dest: in_set_takeD in_set_dropD)
    with that show ?thesis
      by simp
  qed
  with 2 show ?case
    unfolding multipart_loop.simps(2) Let_def
    by (auto simp: rbind_eq_Inl_iff substr_def split: option.splits if_splits)
qed simp

lemma parsed_multipart: "parsed_from (has_pct body) (\<lambda>_. False) (readMultipartBody body boundary)"
  by (auto simp: readMultipartBody_def parsed_faults dest: multipart_loop_fault)

section \<open>Properties\<close>

text \<open>The outcomes of a parser that has ended.\<close>

definition ends_as_parser :: "string \<Rightarrow> 'a result \<Rightarrow> bool" where
  "ends_as_parser text r \<longleftrightarrow>
     (case r of
        Inr _ \<Rightarrow> True
      | Inl (Http_error code _) \<Rightarrow> code = 400
      | Inl (Logic_error what) \<Rightarrow> what = ''out_of_range''
      | Inl (Undefined what) \<Rightarrow> what = ''url_unescape'' \<and> CHR ''%'' \<in> set text
      | Inl _ \<Rightarrow> False)"

lemma ends_as_parserI:
  "parsed_from (has_pct text) (\<lambda>_. False) r \<Longrightarrow> r \<noteq> Inl Out_of_fuel \<Longrightarrow> ends_as_parser text r"
  by (auto simp: ends_as_parser_def parsed_from_def parser_fault_def split: sum.splits fault.splits)

text \<open>
  C40. Reading a request ends: for every header text and every multipart body below the range of
  the 32-bit positions, the parsers return a value, throw an error with the status 400 or throw
  \<^verbatim>\<open>std::out_of_range\<close>; the one other outcome is the read outside of the view in
  \<open>url_unescape\<close>, which a text without a percent sign does not have.
\<close>

theorem request_parsers_terminate:
  assumes "length text < npos32" and "length body < npos32"
  shows "ends_as_parser text (parse_header text) \<and> ends_as_parser body (readMultipartBody body boundary)"
  using ends_as_parserI [OF parsed_header parse_header_fuel [OF assms(1)]]
    ends_as_parserI [OF parsed_multipart readMultipartBody_fuel [OF assms(2)]] by simp

theorem request_parsers_terminate_witness:
  "ends_as_parser ''GET'' (parse_header ''GET'') \<and> ends_as_parser ''--X'' (readMultipartBody ''--X'' ''X'')"
  by (rule request_parsers_terminate) (simp_all add: npos32_def)

end
