(* ===== verification/Spec2Isabelle.thy ===== *)
theory Spec2Isabelle
  imports Ws_Serving Ws_Lifetime Static_Route Callbacks Threads Handles Globals Dispatch_Threads Parse_Faults
begin

text \<open>
  A verification development for cndl, an embeddable HTTP and websocket server in C++.

  The program. A \<^verbatim>\<open>Server\<close> (Server.cpp) accepts clients and gives each of them a
  \<^verbatim>\<open>ConnectionHandler\<close> (ConnectionHandler.cpp) that the event loop calls. The handler reads the
  socket into a buffer, hands the buffer to its \<^verbatim>\<open>ProtocolHandler\<close>, erases what the protocol says it
  consumed, and sends through a queue of jobs. The first protocol is \<^verbatim>\<open>HttpProtocol\<close>
  (HttpProtocol.cpp): it finds a header in the data, has it parsed (Request.cpp, with the URL
  unescaping, the lists of values and the multipart bodies), waits for the body, asks the
  \<^verbatim>\<open>Dispatcher\<close> (Dispatcher.cpp, Route.h, WSRoute.h, Extractor.h) for a response and writes what
  \<^verbatim>\<open>Response::serialize\<close> (Response.cpp) makes of it. A request for a websocket is answered with a
  hash of its key (base64.cpp) and replaces the protocol by \<^verbatim>\<open>Websocket\<close> (Websocket.cpp).
  \<^verbatim>\<open>StaticFileHandler\<close> (StaticFileHandler.cpp, with DateStrHelper.cpp) is a ready-made route.

  Conventions. A fallible function returns \<open>fault + 'a\<close>: \<open>Http_error\<close> is \<^verbatim>\<open>cndl::Error\<close>, \<open>Runtime_error\<close>,
  \<open>Logic_error\<close> and \<open>Other_throw\<close> are the other exceptions the program tells apart, \<open>Undefined\<close> is
  undefined behaviour, \<open>Out_of_fuel\<close> a loop that has not ended. Bytes are \<open>8 word\<close>; sizes of the socket
  code and shift registers are words, \<^verbatim>\<open>int\<close> results that are narrowed go through \<open>to_int32\<close>, the 32-bit
  positions of the parsers through \<open>to_uint32\<close>, positions of views are \<open>nat\<close> with the failing search as
  \<open>None\<close>. A multimap is an association list: in the order of insertion for the unordered ones, sorted
  and stable for the ordered ones.

  The theories, each with the source it models and what its lemmas show.

  \<^item> \<open>Prelude\<close>, \<open>String_View\<close>, \<open>Charconv\<close>: the error monad, bytes and narrowing; the searches and
    \<^verbatim>\<open>substr\<close> of \<^verbatim>\<open>std::string_view\<close>; \<^verbatim>\<open>std::from_chars\<close>, \<^verbatim>\<open>to_string\<close> and \<^verbatim>\<open>tolower\<close>.
  \<^item> \<open>Base64\<close> (base64.cpp): the encoder with its 32-bit registers is the RFC 4648 encoding, the decoder
    inverts it.
  \<^item> \<open>Field_Map\<close>: the maps of the standard library the program uses, with locales for an unordered and
    an ordered multimap, interpreted on the association lists of the model.
  \<^item> \<open>Url\<close> (\<^verbatim>\<open>url_unescape\<close>): equal to a recursive reference decoder; every percent-encoding whose
    last character is not escaped is decoded. An escape that ends the text is \<open>Undefined\<close>: the code
    indexes the view at its size, against the precondition of \<^verbatim>\<open>std::string_view::operator[]\<close>.
  \<^item> \<open>Field_Values\<close> (\<^verbatim>\<open>extractFieldVals\<close>, \<^verbatim>\<open>parse_fields\<close>): lists of values and header lines as a client
    writes them are read back; the fuel given to the loops is enough for texts below \<open>npos32\<close> (4 GB).
  \<^item> \<open>Request\<close> (\<^verbatim>\<open>parse_header\<close>, \<^verbatim>\<open>readMultipartBody\<close>): requests and multipart bodies as a client writes
    them are read back.
  \<^item> \<open>Parse_Faults\<close>: what the parsers end in: a value, an error with the status 400,
    \<^verbatim>\<open>std::out_of_range\<close>, or the undefined read of \<open>url_unescape\<close>.
  \<^item> \<open>DateStr\<close>, \<open>Response\<close> (\<^verbatim>\<open>mkdatestr\<close>, the response, its constructors and \<^verbatim>\<open>serialize\<close>): a client
    reads from the bytes the response that was built.
  \<^item> \<open>Routing\<close> (Extractor.h, Route.h, WSRoute.h, Dispatcher.cpp): the best match is chosen, a
    route answers with 405, with 500, or with its function called on the groups of its pattern, the functions of a websocket route get what
    its pattern found without a check (\<open>ws_route_unchecked\<close>), no exception of a route reaches the
    protocol (\<open>route_request_noexcept\<close>); the locale \<open>registry\<close> states what both lists of routes promise.
  \<^item> \<open>Globals\<close> (Server.cpp, Route.cpp, WSRoute.cpp, Route.h, WSRoute.h): \<^verbatim>\<open>getGlobalServer\<close> and the routes that
    register themselves with it, the order of construction and destruction, a program's exit.
  \<^item> \<open>Dispatch_Threads\<close> (Dispatcher.cpp): the calls of several threads on one dispatcher step by step
    under \<^verbatim>\<open>routes_mutex\<close>; they take effect one after the other, and a route function that calls the
    dispatcher again needs the lock it holds.
  \<^item> \<open>Connection\<close> (ConnectionHandler.cpp): the queue refines a byte stream (locale \<open>output_channel\<close>), the
    registration with the event loop is right after every event; the locale \<open>protocol_contract\<close> is what
    a connection relies on: a protocol consumes no more than it was given.
  \<^item> \<open>Callbacks\<close> (ConnectionHandler.cpp): the completion callbacks of the queue when they call \<^verbatim>\<open>write\<close>
    and \<^verbatim>\<open>close\<close> themselves, which the queue's loop does while it holds an iterator. The order of what
    is sent, the end of the loop, and the move of the queue's memory below the iterator.
  \<^item> \<open>Threads\<close> (ConnectionHandler.cpp): the handler as a sequence of steps between which other threads
    act. Alone it is the handler of \<open>Connection\<close>; the output keeps the order of the calls whatever the
    interleaving; when a wake-up can be lost and when it cannot; two threads in one handler.
  \<^item> \<open>Handles\<close> (unique_function.h and the constructors, assignments and destructors of
    ConnectionHandler, Server and Dispatcher): the functors of \<^verbatim>\<open>unique_func\<close> are destroyed once; which
    connection a protocol reaches after moves and assignments.
  \<^item> \<open>Websocket\<close> (Websocket.cpp): frames in both directions, fragmented messages, control frames and
    the closing handshake; an instance of \<open>protocol_contract\<close>.
  \<^item> \<open>Http\<close> (HttpProtocol.cpp): the loop of \<^verbatim>\<open>onDataReceived\<close> turn by turn, its exception handlers, the
    upgrade; the protocols a connection of the server can have, an instance of \<open>protocol_contract\<close>.
  \<^item> \<open>Http_Loop\<close>: the loop ends unless it has met a malformed header; what it does with requests behind
    each other and with an upgrade.
  \<^item> \<open>Http_Stream\<close>: a connection with its protocol over a sequence of reads.
  \<^item> \<open>Ws_Stream\<close>: a connection with its websocket over a sequence of reads, for frames of at most 125
    bytes.
  \<^item> \<open>Ws_Lifetime\<close>: what a websocket still does after it was closed, and the callback of a ping that is
    run after its websocket was destroyed.
  \<^item> \<open>Server\<close> (Server.cpp): the listening sockets and the clients; the states of the server are the
    reachable states of a step relation; why a client leaves (\<open>clients_kept\<close>), and that clients do not
    affect each other; what the destructor leaves behind. The events and their order (\<open>server_event\<close>,
    \<open>client_event\<close>, \<open>server_step\<close>) are the environment: the event loop on one thread.
  \<^item> \<open>Serving\<close> and \<open>Ws_Serving\<close>: all of the server together, from \<^verbatim>\<open>accept\<close> on. A client's requests
    are answered, and its websocket is served, whatever else happens on the server.
  \<^item> \<open>Static_File\<close> (StaticFileHandler.cpp, DateStrHelper.cpp): the handler and its ranges; a path ends at
    its first NUL, as it does for \<^verbatim>\<open>open\<close>.
  \<^item> \<open>Static_Route\<close>: the handler as the function of a route, and the files a client can name.
  \<^item> This theory: properties from the bytes of a request to the bytes of its response, and of two
    threads that answer one request.

  Fuel. The loops of the parsers get one unit per character and one more; \<open>request_parsers_terminate\<close>
  shows that this is enough below 4 GB. The loop of the HTTP protocol gets \<open>turns_needed\<close>: a turn that goes
  on removes a header (four bytes at least) or the header that was waiting for its body, so
  \<open>length received + 2\<close> turns are enough (\<open>http_terminates\<close>), and a run that needs more is shown to stand
  before a malformed header, where the code does not return either (\<open>http_malformed_header\<close>). The loops
  of the websocket, of sending and of the queue are total functions, but for the queue whose callbacks
  write again (\<open>flush_calling\<close>): callbacks that always write callbacks of a lower rank end within
  \<open>weight\<close> steps (\<open>callbacks_end\<close>), others need not end in the code either. Sizes are bounded where the code's
  types bound them: what is received at once and what is written at once is below 2 GB (\<^verbatim>\<open>int\<close>).

  Parameters. Regular expressions (the function from a resource to its groups), the functions of the
  application, the error body generator, \<^verbatim>\<open>SHA1\<close>, the answers of \<^verbatim>\<open>send\<close>, \<^verbatim>\<open>recv\<close> and \<^verbatim>\<open>accept\<close>, the file
  system, \<^verbatim>\<open>localtime_r\<close>, \<^verbatim>\<open>strptime\<close> and \<^verbatim>\<open>mktime\<close>.

  Not modelled. The third-party event loop beyond what it registers and reports: when the timers of
  the auto ping expire is up to it, what the websocket does then is modelled. The mutexes of those
  timers and of the websocket routes (\<^verbatim>\<open>ws_mutex\<close>), which are held for a whole operation: that
  operation is one step. Nested calls of a completion callback are modelled in \<open>Callbacks\<close>; elsewhere
  the callbacks whose turn has come are recorded. Template machinery that only selects signatures: the deduction of a
  function's parameters, the detection of the member functions of a websocket handler (an optional
  member is an \<open>option\<close> here), \<^verbatim>\<open>overloaded\<close>. \<^verbatim>\<open>AsyncResponse\<close>, which nothing uses. An \<^verbatim>\<open>onClose\<close> that
  closes again (it would recurse without end) is excluded by the type of the application. Data races
  inside one step of \<open>Threads\<close>: a step is atomic there.
\<close>

section \<open>Properties across components\<close>

text \<open>
  C5. From the bytes of a request to the bytes of its response. A client's request (method, target,
  fields, cookies, body), cut into pieces by the network in any way, is handed to the routes exactly
  as it was written, and the client reads from the output of the connection, behind all that was
  written before, exactly the response the route returned: its status line, its fields and its body.
\<close>

theorem request_to_response:
  assumes "clean_request m path query v fs css len" and "hdr = expected_header m path query v fs css len"
    and "length body = h_content_length hdr" and "length (request_head m (target path query) v fs @ body) < 2 ^ 31"
    and "read_body_args hdr body = Inr hdr" and "wants_upgrade hdr = Inr False"
    and "route_request (se_dispatcher env) \<lparr>rq_header = hdr, rq_message_body = body\<rparr> = Inr resp"
    and "clean_response resp reason" and "serialize resp = Inr out" and "length out < 2 ^ 31"
    and "queue_ok before cbs c" and "cn_open c" and "cn_protocol c = Some (Http None)" and "cn_in_buf c = []"
    and "concat pieces = request_head m (target path query) v fs @ body"
  shows "cn_wire (fold (receive env) pieces c) @ pending (cn_jobs (fold (receive env) pieces c)) = before @ out \<and>
    client_read out = Some (response_view resp reason) \<and>
    cn_protocol (fold (receive env) pieces c) = Some (Http None)"
proof -
  let ?c = "fold (receive env) pieces c"
  have "answered_with env (request_head m (target path query) v fs) body [Write out No_callback] hdr"
    using answered_with_response [OF clean_request_block [OF assms(1)]] assms(2,3,5-7,9) by simp
  from receive_whole [OF this assms(4,13,14,15)]
  have out: "output_state ?c = output_state (run_actions [Write out No_callback] c)"
    and prot: "cn_protocol ?c = Some (Http None)"
    by simp_all
  have "queue_ok (before @ out) cbs (run_actions [Write out No_callback] c)"
    using queue_ok_actions [OF assms(11), of "[Write out No_callback]"] assms(10) by simp
  moreover have "cn_open (run_actions [Write out No_callback] c)"
    using assms(12) by (simp add: run_actions_def write_keeps_open)
  ultimately have "cn_wire ?c @ pending (cn_jobs ?c) = before @ out"
    using out by (simp add: queue_ok_def output_state_def)
  with prot clean_response_view [OF assms(8,9)] show ?thesis
    by simp
qed

theorem request_to_response_witness:
  "cn_wire (fold (receive example_env) [take 3 example_block, drop 3 example_block] (accepted (Http None))) @
     pending (cn_jobs (fold (receive example_env) [take 3 example_block, drop 3 example_block] (accepted (Http None)))) =
     [] @ example_out \<and>
   client_read example_out = Some (response_view (response_of_body [33]) ''OK'') \<and>
   cn_protocol (fold (receive example_env) [take 3 example_block, drop 3 example_block] (accepted (Http None))) =
     Some (Http None)"
  unfolding example_block_def
  by (rule request_to_response [where hdr = example_header and m = "''GET''" and path = "''/''" and query = "[]"
        and v = "''HTTP/1.1''" and fs = "[]" and css = "[]" and len = None and body = "[]" and cbs = "[]"
        and resp = "response_of_body [33]"])
    (simp_all add: example_clean_request example_request_read example_routed example_response example_response(3) [simplified]
      queue_ok_accepted,
     simp_all add: example_header_def accepted_def request_head_def text_defs)

text \<open>
  C9. The hand-over to the websocket: after a request for a websocket the connection holds what came
  behind it and does not look at it before more arrives; from then on the websocket protocol, with
  the handler of the route, is given all the bytes behind the request, in order, and the connection
  carries out the calls it makes.
\<close>

theorem upgrade_hands_over:
  assumes "header_block block (Inr hdr)" and "upgrade_request hdr key" and "length (block @ rest @ bs) < 2 ^ 31"
    and "routeWS (se_dispatcher env) \<lparr>rq_header = hdr, rq_message_body = []\<rparr> = Inr route"
    and "onOpen route \<lparr>rq_header = hdr, rq_message_body = []\<rparr> new_ws = (w, Inr ())"
    and "length (se_sha1 env (bytes_of_string (key @ magic_ws_guid))) = 20"
    and "cn_protocol c = Some (Http None)" and "cn_in_buf c = []"
    and "onDataReceived (getHandler route) (rest @ bs) (setHandler w) = (w', Inr (consumed, None))"
  shows "cn_protocol (receive env (block @ rest) c) = Some (Ws (getHandler route) (setHandler w)) \<and>
    cn_in_buf (receive env (block @ rest) c) = rest \<and>
    cn_protocol (receive env bs (receive env (block @ rest) c)) = Some (Ws (getHandler route) w') \<and>
    cn_in_buf (receive env bs (receive env (block @ rest) c)) = drop (nat consumed) (rest @ bs) \<and>
    output_state (receive env bs (receive env (block @ rest) c)) =
      output_state (run_actions (new_actions (setHandler w) w') (receive env (block @ rest) c))"
proof -
  obtain out where "serialize (upgrade_response (se_sha1 env) key) = Inr out"
    using serialize_upgrade [of "se_sha1 env" key, OF assms(6)] by blast
  from http_upgraded [OF assms(1,2) _ assms(4,5) this, of "Suc (Suc (length (block @ rest)))" rest] assms(3)
  have data: "server_data env (Http None) (cn_in_buf c @ block @ rest) =
      (Write out No_callback # conn_actions (ws_trace w), Http None,
       Inr (int (length block), Some (Some (Ws (getHandler route) (setHandler w)))))"
    by (simp add: server_data_def turns_needed_def numeral_3_eq_3 assms(8))
  have "length (cn_in_buf c @ block @ rest) < 2 ^ 31"
    using assms(3,8) by simp
  note first = receive_data [OF assms(7) data this]
  have prot: "cn_protocol (receive env (block @ rest) c) = Some (Ws (getHandler route) (setHandler w))"
    and buf: "cn_in_buf (receive env (block @ rest) c) = rest"
    using first(2,3) assms(8) by simp_all
  have "server_data env (Ws (getHandler route) (setHandler w)) (cn_in_buf (receive env (block @ rest) c) @ bs) =
      (new_actions (setHandler w) w', Ws (getHandler route) w', Inr (consumed, None))"
    using assms(9) by (simp add: server_data_def buf)
  from receive_data [OF prot this] prot buf assms(3) show ?thesis
    by simp
qed

theorem upgrade_hands_over_witness:
  "cn_protocol (receive (example_env\<lparr>se_sha1 := \<lambda>bs. replicate 20 7\<rparr>) (upgrade_block @ [0x81])
     (accepted (Http None))) = Some (Ws default_app (setHandler new_ws))"
proof -
  let ?env = "example_env\<lparr>se_sha1 := \<lambda>bs. replicate 20 7\<rparr>"
  let ?req = "\<lparr>rq_header = upgrade_header, rq_message_body = []\<rparr>"
  obtain route where "routeWS (se_dispatcher ?env) ?req = Inr route" and "onOpen route ?req new_ws = (new_ws, Inr ())"
    and handler: "getHandler route = default_app"
    by (simp add: example_env_def routeWS_def canOpen_eq onOpen_eq getHandler_def)
  moreover have "onDataReceived default_app ([0x81] @ []) (setHandler new_ws) = (setHandler new_ws, Inr (0, None))"
    by (simp add: onDataReceived_def on_data_loop.simps read_frame_def)
  moreover have "length (upgrade_block @ [0x81] @ []) < 2 ^ 31"
    by (simp add: upgrade_block_def request_head_def text_defs upgrade_fields_def)
  ultimately show ?thesis
    using upgrade_hands_over [OF upgrade_header_block upgrade_header_request, of "[0x81]" "[]" ?env route new_ws
        "accepted (Http None)" "setHandler new_ws" 0]
    by (simp add: accepted_def)
qed

text \<open>
  C13. Two threads and one request. The answer to a request does not fit into the socket, so the call
  of \<^verbatim>\<open>write\<close> registers the connection again while the first thread is still in the handler; when
  more bytes come, fewer than the request had, a second thread enters it, finds the request still in
  the input buffer and answers it again. It then erases the request, and the first thread erases the
  same number of bytes from what is left, past the end.
\<close>

theorem request_answered_twice:
  assumes "answered_with env block body [Write out No_callback] hdr" and "out \<noteq> []" and "length out < 2 ^ 31"
    and "length (block @ body) < read_size" and "index_sub blank_line later = None"
    and "length later < length (block @ body)"
    and "es = [Kernel [] [Received (block @ body)], Deliver 0 EPOLLIN, Advance 0, Advance 0,
      Kernel [] [Received later], Deliver 1 EPOLLIN, Advance 1, Advance 1, Advance 1, Advance 0]"
  shows "fst (thread_run (server_protocol env) es (start_threads 2 (Http None))) =
      [Write out No_callback, Write out No_callback] \<and>
    map tj_buf (cn_jobs (th_conn (snd (thread_run (server_protocol env) es (start_threads 2 (Http None)))))) =
      [out, out] \<and>
    th_phases (snd (thread_run (server_protocol env) es (start_threads 2 (Http None)))) =
      [Thrown (Undefined ''erase past the end of the input buffer''), Ready EPOLLIN]"
proof -
  let ?n = "int (length (block @ body))"
  have size: "length (block @ body) < 2 ^ 31"
    using assms(4) by (simp add: read_size_def)
  have "server_data env (Http None) (block @ body) = ([Write out No_callback], Http None, Inr (?n, None))"
    by (rule server_data_request [OF assms(1) size])
  moreover have "server_data env (Http None) (block @ body @ later) = ([Write out No_callback], Http None, Inr (?n, None))"
    by (rule server_data_request_rest [OF assms(1) size assms(5)])
  ultimately show ?thesis
    using assms(2-4,6) unfolding assms(7)
    by (simp add: start_two accepted_def reported_flags event_flags data_phase_def consumed_phase_def
        erase_consumed_def server_protocol_def write_no_room write_waiting nat_int_add)
qed

theorem request_answered_twice_witness:
  "fst (thread_run (server_protocol example_env)
    [Kernel [] [Received example_block], Deliver 0 EPOLLIN, Advance 0, Advance 0,
      Kernel [] [Received [71]], Deliver 1 EPOLLIN, Advance 1, Advance 1, Advance 1, Advance 0]
    (start_threads 2 (Http None))) = [Write example_out No_callback, Write example_out No_callback]"
proof -
  have "index_sub blank_line [71] = None"
    by (rule index_blank_line_short) simp
  moreover have "example_out \<noteq> []"
    by (simp add: example_out_def serialize_def response_of_body_def default_response_def code2reason_def text_defs)
  moreover have "length (example_block @ []) < read_size" and "length [71 :: byte] < length (example_block @ [])"
    by (simp_all add: example_block_def request_head_def text_defs read_size_def)
  ultimately show ?thesis
    using request_answered_twice [OF example_answered _ example_response(3) _ _ _ refl, of "[71]"]
    by (simp only: append_Nil2 simp_thms)
qed

end
